(* ===== verification/Prelude.thy ===== *)
theory Prelude
  imports Main "HOL-Library.Word" "HOL-Library.Multiset" "HOL-Library.Disjoint_Sets"
begin

text \<open>
  Shared material of the development: the collections of facts that the component
  theories extend, and the generic lemmas on lists, sums and products that several
  components use. Nothing in this theory models code.
\<close>

named_theorems d4_lit \<open>facts about literals and their bit encoding\<close>
named_theorems d4_frame \<open>facts saying which fields an operation leaves alone\<close>
named_theorems d4_sem \<open>facts about clauses and assignments\<close>

unbundle bit_operations_syntax

section \<open>Lists\<close>

lemma nth_swap_mset:
  assumes "i < length xs" "j < length xs"
  shows "mset (xs[i := xs ! j, j := xs ! i]) = mset xs"
  using assms mset_swap [of j xs i] by simp

lemma distinct_swap:
  assumes "i < length xs" "j < length xs"
  shows "distinct (xs[i := xs ! j, j := xs ! i]) = distinct xs"
  using assms by (rule distinct_swap)

lemma sum_list_map_append: "sum_list (map f (xs @ ys)) = sum_list (map f xs) + sum_list (map f ys)"
  by simp

lemma prod_list_map_append [simp]:
  "prod_list (map f (xs @ ys)) = prod_list (map f xs) * (prod_list (map f ys) :: 'a::comm_monoid_mult)"
  by (induction xs) (auto simp: mult.assoc)

lemma prod_list_distinct:
  "distinct xs \<Longrightarrow> prod_list (map f xs) = (\<Prod>x\<in>set xs. f x :: 'a::comm_monoid_mult)"
  by (induction xs) auto

lemma foldl_mult: "foldl (\<lambda>t x. t * f x) a xs = a * (prod_list (map f xs) :: 'a::comm_monoid_mult)"
  by (induction xs arbitrary: a) (auto simp: mult.assoc)

lemma foldl_add: "foldl (\<lambda>t x. t + f x) a xs = a + (sum_list (map f xs) :: 'a::comm_monoid_add)"
  by (induction xs arbitrary: a) (auto simp: add.assoc)

lemma set_filter_split: "set xs = set (filter P xs) \<union> set (filter (\<lambda>x. \<not> P x) xs)"
  by auto

lemma nth_update_any: "j < length xs \<Longrightarrow> xs[i := x] ! j = (if i = j then x else xs ! j)"
  by (cases "i = j") auto

lemma card_psubset_filter: "finite B \<Longrightarrow> A \<subseteq> B \<Longrightarrow> x \<in> B \<Longrightarrow> x \<notin> A \<Longrightarrow> card A < card B"
  by (rule psubset_card_mono) auto

section \<open>Marks\<close>

lemma foldl_mark_nth:
  "i < length xs \<Longrightarrow> (foldl (\<lambda>m v. m[v := b]) xs vs) ! i = (if i \<in> set vs then b else xs ! i)"
  by (induction vs arbitrary: xs) (auto simp: nth_list_update)

lemma length_foldl_mark [simp]: "length (foldl (\<lambda>m v. m[v := b]) xs vs) = length xs"
  by (induction vs arbitrary: xs) auto

lemma mark_unmark:
  "foldl (\<lambda>m v. m[v := False]) (foldl (\<lambda>m v. m[v := True]) (replicate k False) vs) vs = replicate k False"
  by (rule nth_equalityI) (simp_all add: foldl_mark_nth)

section \<open>Sums over the subsets of a set\<close>

text \<open>
  A truth assignment of a finite set of variables is the set of the variables that are true,
  so a sum over assignments is a sum over a power set. These lemmas split such a sum.
\<close>

lemma sum_Pow_Un:
  fixes g :: "'b set \<Rightarrow> 'b set \<Rightarrow> 'a::comm_semiring_0"
  assumes "finite X" "finite Y" "X \<inter> Y = {}"
  shows "(\<Sum>A\<in>Pow (X \<union> Y). g (A \<inter> X) (A \<inter> Y)) = (\<Sum>A\<in>Pow X. \<Sum>B\<in>Pow Y. g A B)"
proof -
  have "(\<Sum>A\<in>Pow X. \<Sum>B\<in>Pow Y. g A B) = (\<Sum>(A, B)\<in>Pow X \<times> Pow Y. g A B)"
    by (simp add: sum.cartesian_product)
  also have "\<dots> = (\<Sum>A\<in>Pow (X \<union> Y). g (A \<inter> X) (A \<inter> Y))"
    using assms(3)
    by (intro sum.reindex_bij_witness [where i = "\<lambda>A. (A \<inter> X, A \<inter> Y)" and j = "\<lambda>(A, B). A \<union> B"])
       (auto simp: Int_Un_distrib2 split: prod.splits intro!: arg_cong2 [where f = g])
  finally show ?thesis by simp
qed

lemma sum_Pow_singleton:
  fixes g :: "'b set \<Rightarrow> 'a::comm_monoid_add"
  shows "(\<Sum>A\<in>Pow {x}. g A) = g {} + g {x}"
proof -
  have "Pow {x} = {{}, {x}}" by auto
  then show ?thesis by simp
qed

section \<open>Stamps\<close>

text \<open>A stamp counter that has not wrapped gives a stamp never used before.\<close>

lemma word_stamp_fresh: "(x :: 'n::len word) \<le> y \<Longrightarrow> y < - 1 \<Longrightarrow> x \<noteq> y + 1"
proof
  assume "x \<le> y" "y < - 1" "x = y + 1"
  moreover from \<open>y < - 1\<close> have "1 + y \<noteq> 0" by (metis add.right_neutral add_eq_0_iff less_irrefl)
  then have "unat (1 + y) = Suc (unat y)" by (rule unatSuc)
  ultimately show False by (simp add: word_le_nat_alt add.commute)
qed

lemma sorted_last_ge: "sorted xs \<Longrightarrow> x \<in> set xs \<Longrightarrow> x \<le> last xs"
  by (induction xs) (auto split: if_splits)

end
