(* ===== verification/ProblemTypes.thy ===== *)
theory ProblemTypes
  imports Prelude
begin

text \<open>
  The basic types of \<^verbatim>\<open>src/src/problem/ProblemTypes.hpp\<close>: variables, three-valued
  truth values and literals, the clause rewriting helpers, and the meaning of literals,
  clauses and formulas under an assignment.

  A \<^verbatim>\<open>Var\<close> is a C++ \<^verbatim>\<open>int\<close> that is never negative but for \<^verbatim>\<open>var_Undef\<close>; it is a
  \<open>nat\<close> here, and \<^verbatim>\<open>var_Undef\<close> is the value None where the code uses it. A literal keeps
  the code's bit encoding \<open>2 * v + sign\<close>.
\<close>

type_synonym var = nat
type_synonym lbool = "8 word"

definition l_True :: lbool where "l_True = 0"
definition l_False :: lbool where "l_False = 1"
definition l_Undef :: lbool where "l_Undef = 2"

datatype lit = Lit (m_x: nat)

definition sign :: "lit \<Rightarrow> bool" where "sign l \<longleftrightarrow> m_x l AND 1 = 1"
definition var :: "lit \<Rightarrow> var" where "var l = drop_bit 1 (m_x l)"
definition neg :: "lit \<Rightarrow> lit" where "neg l = Lit (m_x l XOR 1)"
definition intern :: "lit \<Rightarrow> nat" where "intern l = m_x l"
definition human :: "lit \<Rightarrow> int" where
  "human l = (if m_x l AND 1 = 1 then - int (var l) else int (var l))"

definition makeLit :: "var \<Rightarrow> bool \<Rightarrow> lit" where "makeLit v s = Lit (push_bit 1 v + of_bool s)"
definition makeLitFalse :: "var \<Rightarrow> lit" where "makeLitFalse v = Lit (push_bit 1 v + 1)"
definition makeLitTrue :: "var \<Rightarrow> lit" where "makeLitTrue v = Lit (push_bit 1 v)"

text \<open>The literals are ordered by their encoding, as \<^verbatim>\<open>operator<\<close> orders them.\<close>

instantiation lit :: linorder
begin

definition less_eq_lit :: "lit \<Rightarrow> lit \<Rightarrow> bool" where "l \<le> l' \<longleftrightarrow> m_x l \<le> m_x l'"
definition less_lit :: "lit \<Rightarrow> lit \<Rightarrow> bool" where "l < l' \<longleftrightarrow> m_x l < m_x l'"

instance
  by standard (auto simp: less_eq_lit_def less_lit_def intro: lit.expand)

end

text \<open>
  \<^verbatim>\<open>Lit::rewrite\<close>: copy a clause set with every literal translated by \<open>createLit\<close>; empty
  clauses are dropped. The first overload also turns the unit literals into unit clauses.
\<close>

definition rewrite_units ::
  "lit list list \<Rightarrow> lit list \<Rightarrow> (var \<Rightarrow> bool \<Rightarrow> 'a) \<Rightarrow> 'a list list" where
  "rewrite_units clauses units createLit =
     map (\<lambda>l. [createLit (var l) (sign l)]) units
     @ map (map (\<lambda>l. createLit (var l) (sign l))) (filter (\<lambda>cl. cl \<noteq> []) clauses)"

definition rewrite_clauses :: "'a list list \<Rightarrow> 'b list list \<Rightarrow> ('a \<Rightarrow> 'b) \<Rightarrow> 'b list list" where
  "rewrite_clauses clauses res createLit =
     res @ map (map createLit) (filter (\<lambda>cl. cl \<noteq> []) clauses)"

subsection \<open>Literal arithmetic\<close>

lemma sign_odd [d4_lit]: "sign l \<longleftrightarrow> odd (m_x l)"
  by (simp add: sign_def and_one_eq odd_iff_mod_2_eq_one)

lemma var_div2 [d4_lit]: "var l = m_x l div 2"
  by (simp add: var_def drop_bit_eq_div)

lemma makeLit_eq [d4_lit]: "makeLit v s = Lit (2 * v + of_bool s)"
  by (simp add: makeLit_def push_bit_eq_mult)

lemma neg_eq [d4_lit]: "neg l = Lit (if even (m_x l) then m_x l + 1 else m_x l - 1)"
  by (simp add: neg_def xor_Suc_0_eq)

lemma makeLitTrue_eq [d4_lit]: "makeLitTrue v = makeLit v False"
  by (simp add: makeLitTrue_def makeLit_def)

lemma makeLitFalse_eq [d4_lit]: "makeLitFalse v = makeLit v True"
  by (simp add: makeLitFalse_def makeLit_def)

lemma var_makeLit [simp]: "var (makeLit v s) = v"
  by (cases s) (simp_all add: d4_lit)

lemma sign_makeLit [simp]: "sign (makeLit v s) = s"
  by (cases s) (simp_all add: d4_lit)

lemma makeLit_var_sign [simp]: "makeLit (var l) (sign l) = l"
  by (cases l) (auto simp: d4_lit)

lemma lit_eq_iff: "(l :: lit) = l' \<longleftrightarrow> var l = var l' \<and> sign l = sign l'"
proof
  assume "var l = var l' \<and> sign l = sign l'"
  then have "makeLit (var l) (sign l) = makeLit (var l') (sign l')" by simp
  then show "l = l'" by simp
qed simp

lemma var_neg [simp]: "var (neg l) = var l"
  by (cases l) (auto simp: d4_lit elim!: evenE oddE)

lemma sign_neg [simp]: "sign (neg l) = (\<not> sign l)"
  by (cases l) (auto simp: d4_lit)

lemma neg_neg [simp]: "neg (neg l) = l"
  by (simp add: lit_eq_iff)

lemma neg_neq [simp]: "neg l \<noteq> l" "l \<noteq> neg l"
  by (simp_all add: lit_eq_iff)

lemma neg_inj [simp]: "neg l = neg l' \<longleftrightarrow> l = l'"
  by (simp add: lit_eq_iff)

lemma neg_makeLit [simp]: "neg (makeLit v s) = makeLit v (\<not> s)"
  by (simp add: lit_eq_iff)

lemma makeLit_inj [simp]: "makeLit v s = makeLit v' s' \<longleftrightarrow> v = v' \<and> s = s'"
  by (simp add: lit_eq_iff)

lemma intern_inj [simp]: "intern l = intern l' \<longleftrightarrow> l = l'"
  by (cases l; cases l') (simp add: intern_def)

lemma intern_bound: "intern l < 2 * n \<longleftrightarrow> var l < n"
  by (auto simp: intern_def var_div2)

lemma same_var_cases: "var l = var l' \<Longrightarrow> l' = l \<or> l' = neg l"
  by (auto simp: lit_eq_iff)

lemma lbool_distinct [simp]:
  "l_True \<noteq> l_False" "l_False \<noteq> l_True" "l_True \<noteq> l_Undef" "l_Undef \<noteq> l_True"
  "l_False \<noteq> l_Undef" "l_Undef \<noteq> l_False"
  by (simp_all add: l_True_def l_False_def l_Undef_def)

text \<open>The code assigns a literal by storing its sign as an \<^verbatim>\<open>lbool\<close>.\<close>

definition lbool_of_sign :: "bool \<Rightarrow> lbool" where "lbool_of_sign s = of_bool s"

lemma lbool_of_sign_simps [simp]:
  "lbool_of_sign False = l_True" "lbool_of_sign True = l_False"
  by (simp_all add: lbool_of_sign_def l_True_def l_False_def)

lemma lbool_of_sign_neq [simp]: "lbool_of_sign s \<noteq> l_Undef" "l_Undef \<noteq> lbool_of_sign s"
  by (cases s; simp)+

subsection \<open>Clauses and assignments\<close>

type_synonym clause = "lit list"
type_synonym cnf = "clause list"
type_synonym assignment = "var \<Rightarrow> bool"

definition lit_holds :: "assignment \<Rightarrow> lit \<Rightarrow> bool" where
  "lit_holds s l \<longleftrightarrow> s (var l) \<noteq> sign l"

definition clause_holds :: "assignment \<Rightarrow> clause \<Rightarrow> bool" where
  "clause_holds s c \<longleftrightarrow> (\<exists>l\<in>set c. lit_holds s l)"

definition cnf_holds :: "assignment \<Rightarrow> cnf \<Rightarrow> bool" where
  "cnf_holds s F \<longleftrightarrow> (\<forall>c\<in>set F. clause_holds s c)"

definition lits_hold :: "assignment \<Rightarrow> lit list \<Rightarrow> bool" where
  "lits_hold s t \<longleftrightarrow> (\<forall>l\<in>set t. lit_holds s l)"

definition clause_vars :: "clause \<Rightarrow> var set" where
  "clause_vars c = var ` set c"

lemma lit_holds_neg [simp]: "lit_holds s (neg l) \<longleftrightarrow> \<not> lit_holds s l"
  by (simp add: lit_holds_def)

lemma lit_holds_makeLit [simp]: "lit_holds s (makeLit v b) \<longleftrightarrow> s v \<noteq> b"
  by (simp add: lit_holds_def)

lemma lit_holds_cong: "s (var l) = s' (var l) \<Longrightarrow> lit_holds s l = lit_holds s' l"
  by (simp add: lit_holds_def)

lemma clause_holds_cong:
  "(\<And>v. v \<in> clause_vars c \<Longrightarrow> s v = s' v) \<Longrightarrow> clause_holds s c = clause_holds s' c"
  by (auto simp: clause_holds_def clause_vars_def lit_holds_def)

lemma lits_hold_append [simp]: "lits_hold s (t @ t') \<longleftrightarrow> lits_hold s t \<and> lits_hold s t'"
  by (auto simp: lits_hold_def)

lemma lits_hold_Nil [simp]: "lits_hold s []"
  by (simp add: lits_hold_def)

lemma lits_hold_Cons [simp]: "lits_hold s (l # t) \<longleftrightarrow> lit_holds s l \<and> lits_hold s t"
  by (simp add: lits_hold_def)

end
