(* ===== verification/Wmc.thy ===== *)
theory Wmc
  imports ProblemTypes
begin

text \<open>
  The abstract specification of the counters: the weighted, projected model count
  \<open>pcount w P f C\<close> of a constraint \<open>f\<close> over the variables \<open>C\<close>, projected on the decision
  variables \<open>P\<close>. It sums, over the truth assignments of \<open>C \<inter> P\<close> that extend to an
  assignment satisfying \<open>f\<close>, the product of the weights of the literals chosen. With
  \<open>P\<close> holding every variable it is the weighted model count, and with all weights 1 it is the
  number of models. The lemmas are the decomposition steps that a DPLL style counter makes.
\<close>

type_synonym 'a weight = "var \<Rightarrow> bool \<Rightarrow> 'a"

definition extends :: "(assignment \<Rightarrow> bool) \<Rightarrow> var set \<Rightarrow> var set \<Rightarrow> bool" where
  "extends f X A \<longleftrightarrow> (\<exists>s. (\<forall>v\<in>X. s v = (v \<in> A)) \<and> f s)"

definition pweight :: "'a::comm_semiring_1 weight \<Rightarrow> var set \<Rightarrow> var set \<Rightarrow> 'a" where
  "pweight w X A = (\<Prod>v\<in>X. w v (v \<in> A))"

definition pcount ::
  "'a::comm_semiring_1 weight \<Rightarrow> var set \<Rightarrow> (assignment \<Rightarrow> bool) \<Rightarrow> var set \<Rightarrow> 'a" where
  "pcount w P f C = (\<Sum>A\<in>Pow (C \<inter> P). if extends f (C \<inter> P) A then pweight w (C \<inter> P) A else 0)"

definition sat :: "(assignment \<Rightarrow> bool) \<Rightarrow> bool" where
  "sat f \<longleftrightarrow> (\<exists>s. f s)"

text \<open>
  \<open>indep f C\<close>: the variables of \<open>C\<close> are independent of the others, any two models can be
  spliced along \<open>C\<close>. This is what a connected component has.
\<close>

definition splice :: "var set \<Rightarrow> assignment \<Rightarrow> assignment \<Rightarrow> assignment" where
  "splice C s s' = (\<lambda>v. if v \<in> C then s v else s' v)"

definition indep :: "(assignment \<Rightarrow> bool) \<Rightarrow> var set \<Rightarrow> bool" where
  "indep f C \<longleftrightarrow> (\<forall>s s'. f s \<longrightarrow> f s' \<longrightarrow> f (splice C s s'))"

definition lit_weight :: "'a weight \<Rightarrow> lit \<Rightarrow> 'a" where
  "lit_weight w l = w (var l) (\<not> sign l)"

subsection \<open>Congruence and trivial cases\<close>

lemma pcount_cong:
  assumes "\<And>A. A \<subseteq> C \<inter> P \<Longrightarrow> extends f (C \<inter> P) A = extends g (C \<inter> P) A"
  shows "pcount w P f C = pcount w P g C"
  unfolding pcount_def using assms by (intro sum.cong) auto

lemma extends_Int_cong: "X \<inter> A = X \<inter> B \<Longrightarrow> extends f X A = extends f X B"
  unfolding extends_def by (intro ex_cong1 conj_cong refl ball_cong) blast+

lemma pweight_Int_cong: "X \<inter> A = X \<inter> B \<Longrightarrow> pweight w X A = pweight w X B"
  unfolding pweight_def by (intro prod.cong refl arg_cong2 [where f = w]) blast

lemma extends_self: "f s \<Longrightarrow> extends f X {v \<in> X. s v}"
  unfolding extends_def by (intro exI [of _ s]) auto

lemma pcount_unsat: "\<not> sat f \<Longrightarrow> pcount w P f C = 0"
  unfolding pcount_def sat_def extends_def by (intro sum.neutral) auto

lemma pcount_empty: "C \<inter> P = {} \<Longrightarrow> sat f \<Longrightarrow> pcount w P f C = 1"
  unfolding pcount_def sat_def extends_def pweight_def by simp

lemma indep_Diff: "indep f C \<Longrightarrow> indep f D \<Longrightarrow> indep f (C - D)"
proof -
  have "splice (C - D) s s' = splice D s' (splice C s s')" for s s'
    by (auto simp: splice_def)
  then show "indep f C \<Longrightarrow> indep f D \<Longrightarrow> indep f (C - D)" by (simp add: indep_def)
qed

lemma indep_compl: "indep f C \<Longrightarrow> indep f (- C)"
proof -
  have "splice (- C) s s' = splice C s' s" for s s' by (auto simp: splice_def)
  then show "indep f C \<Longrightarrow> indep f (- C)" by (simp add: indep_def)
qed

lemma indep_Un: "indep f C \<Longrightarrow> indep f D \<Longrightarrow> indep f (C \<union> D)"
  using indep_compl [OF indep_Diff [of f "- C" D]] indep_compl [of f C]
  by (simp add: Diff_eq)

lemma indep_UN: "finite I \<Longrightarrow> (\<And>i. i \<in> I \<Longrightarrow> indep f (D i)) \<Longrightarrow> indep f (\<Union>i\<in>I. D i)"
proof (induction I rule: finite_induct)
  case empty
  then show ?case by (simp add: indep_def splice_def)
next
  case (insert i I)
  then show ?case by (auto intro: indep_Un)
qed

subsection \<open>Products: independent parts, units, free variables\<close>

lemma extends_Un:
  assumes "indep f C" "C \<inter> Y = {}" "X \<subseteq> C"
  shows "extends f (X \<union> Y) A \<longleftrightarrow> extends f X A \<and> extends f Y A"
proof
  assume "extends f X A \<and> extends f Y A"
  then obtain s s' where s: "\<forall>v\<in>X. s v = (v \<in> A)" "f s" and s': "\<forall>v\<in>Y. s' v = (v \<in> A)" "f s'"
    unfolding extends_def by blast
  have "f (splice C s s')" using assms(1) s(2) s'(2) by (simp add: indep_def)
  moreover have "\<forall>v\<in>X \<union> Y. splice C s s' v = (v \<in> A)"
    using s(1) s'(1) assms(2,3) by (auto simp: splice_def)
  ultimately show "extends f (X \<union> Y) A" unfolding extends_def by blast
qed (auto simp: extends_def)

lemma pcount_Un:
  assumes ind: "indep f C" and dj: "C \<inter> D = {}" and fin: "finite C" "finite D"
  shows "pcount w P f (C \<union> D) = pcount w P f C * pcount w P f D"
proof -
  let ?X = "C \<inter> P" and ?Y = "D \<inter> P"
  let ?t = "\<lambda>Z A. if extends f Z A then pweight w Z A else 0"
  have XY: "?X \<inter> ?Y = {}" "finite ?X" "finite ?Y" "(C \<union> D) \<inter> P = ?X \<union> ?Y"
    using dj fin by auto
  have t: "?t (?X \<union> ?Y) A = ?t ?X (A \<inter> ?X) * ?t ?Y (A \<inter> ?Y)" for A
  proof -
    have "extends f (?X \<union> ?Y) A \<longleftrightarrow> extends f ?X A \<and> extends f ?Y A"
      using dj by (intro extends_Un [OF ind]) auto
    moreover have "pweight w (?X \<union> ?Y) A = pweight w ?X A * pweight w ?Y A"
      unfolding pweight_def using XY by (simp add: prod.union_disjoint)
    moreover have "extends f ?X A = extends f ?X (A \<inter> ?X)" "extends f ?Y A = extends f ?Y (A \<inter> ?Y)"
      by (intro extends_Int_cong; blast)+
    moreover have "pweight w ?X A = pweight w ?X (A \<inter> ?X)" "pweight w ?Y A = pweight w ?Y (A \<inter> ?Y)"
      by (intro pweight_Int_cong; blast)+
    ultimately show ?thesis by simp
  qed
  have "pcount w P f (C \<union> D) = (\<Sum>A\<in>Pow (?X \<union> ?Y). ?t ?X (A \<inter> ?X) * ?t ?Y (A \<inter> ?Y))"
    unfolding pcount_def XY(4) by (intro sum.cong refl t)
  also have "\<dots> = (\<Sum>A\<in>Pow ?X. \<Sum>B\<in>Pow ?Y. ?t ?X A * ?t ?Y B)"
    using sum_Pow_Un [OF XY(2,3,1), of "\<lambda>A B. ?t ?X A * ?t ?Y B"] .
  also have "\<dots> = pcount w P f C * pcount w P f D"
    unfolding pcount_def by (simp add: sum_product)
  finally show ?thesis .
qed

lemma pcount_UN:
  assumes "finite I" "disjoint_family_on D I" "\<And>i. i \<in> I \<Longrightarrow> indep f (D i)"
    "\<And>i. i \<in> I \<Longrightarrow> finite (D i)" "sat f"
  shows "pcount w P f (\<Union>i\<in>I. D i) = (\<Prod>i\<in>I. pcount w P f (D i))"
  using assms
proof (induction I rule: finite_induct)
  case empty
  then show ?case by (simp add: pcount_empty)
next
  case (insert i I)
  have "D i \<inter> (\<Union>j\<in>I. D j) = {}"
    using insert.hyps(2) insert.prems(1) by (auto simp: disjoint_family_on_def)
  moreover have "disjoint_family_on D I"
    using insert.prems(1) by (auto simp: disjoint_family_on_def)
  ultimately show ?case using insert by (simp add: pcount_Un)
qed

lemma pcount_unit_var:
  assumes "\<And>s. f s \<Longrightarrow> lit_holds s l" "sat f"
  shows "pcount w P f {var l} = (if var l \<in> P then lit_weight w l else 1)"
proof (cases "var l \<in> P")
  case True
  obtain s where s: "f s" using assms(2) by (auto simp: sat_def)
  have e: "extends f {var l} A \<longleftrightarrow> (var l \<in> A) = (\<not> sign l)" for A
  proof
    assume "extends f {var l} A"
    then obtain s' where "s' (var l) = (var l \<in> A)" "f s'" by (auto simp: extends_def)
    with assms(1) [of s'] show "(var l \<in> A) = (\<not> sign l)" by (simp add: lit_holds_def)
  next
    assume "(var l \<in> A) = (\<not> sign l)"
    with assms(1) [OF s] s show "extends f {var l} A"
      unfolding extends_def by (intro exI [of _ s]) (auto simp: lit_holds_def)
  qed
  with True show ?thesis
    by (simp add: pcount_def sum_Pow_singleton e pweight_def lit_weight_def)
next
  case False
  with assms(2) show ?thesis by (simp add: pcount_empty)
qed

lemma indep_unit_var: "(\<And>s. f s \<Longrightarrow> lit_holds s l) \<Longrightarrow> indep f {var l}"
  unfolding indep_def
proof (intro allI impI)
  fix s s'
  assume imp: "\<And>s. f s \<Longrightarrow> lit_holds s l" and s: "f s" and s': "f s'"
  have "s (var l) = s' (var l)" using imp [OF s] imp [OF s'] by (simp add: lit_holds_def)
  then have "splice {var l} s s' = s'" by (auto simp: splice_def)
  with s' show "f (splice {var l} s s')" by simp
qed

definition free_in :: "(assignment \<Rightarrow> bool) \<Rightarrow> var \<Rightarrow> bool" where
  "free_in f v \<longleftrightarrow> (\<forall>s b. f s \<longrightarrow> f (s(v := b)))"

lemma pcount_free_var:
  assumes "free_in f v" "sat f"
  shows "pcount w P f {v} = (if v \<in> P then w v True + w v False else 1)"
proof (cases "v \<in> P")
  case True
  obtain s where "f s" using assms(2) by (auto simp: sat_def)
  then have "extends f {v} A" for A
    using assms(1) unfolding extends_def free_in_def by (intro exI [of _ "s(v := v \<in> A)"]) simp
  with True show ?thesis
    by (simp add: pcount_def sum_Pow_singleton pweight_def add.commute)
next
  case False
  with assms(2) show ?thesis by (simp add: pcount_empty)
qed

lemma indep_free_var: "free_in f v \<Longrightarrow> indep f {v}"
  unfolding indep_def free_in_def
proof (intro allI impI)
  fix s s'
  assume *: "\<forall>s b. f s \<longrightarrow> f (s(v := b))" and "f s" "f s'"
  have "splice {v} s s' = s'(v := s v)" by (auto simp: splice_def)
  with * \<open>f s'\<close> show "f (splice {v} s s')" by simp
qed

subsection \<open>Sums: branching\<close>

text \<open>Two constraints that no decision assignment of \<open>C\<close> reconciles add up.\<close>

lemma pcount_disj:
  assumes "\<And>A. \<not> (extends f (C \<inter> P) A \<and> extends g (C \<inter> P) A)"
  shows "pcount w P (\<lambda>s. f s \<or> g s) C = pcount w P f C + pcount w P g C"
proof -
  have "extends (\<lambda>s. f s \<or> g s) X A \<longleftrightarrow> extends f X A \<or> extends g X A" for X A
    unfolding extends_def by blast
  then show ?thesis
    unfolding pcount_def sum.distrib [symmetric] using assms
    by (intro sum.cong refl) auto
qed

lemma pcount_branch:
  assumes "var l \<in> C" "var l \<in> P"
  shows "pcount w P f C =
    pcount w P (\<lambda>s. f s \<and> lit_holds s l) C + pcount w P (\<lambda>s. f s \<and> lit_holds s (neg l)) C"
proof -
  have "\<not> (extends (\<lambda>s. f s \<and> lit_holds s l) (C \<inter> P) A \<and>
          extends (\<lambda>s. f s \<and> lit_holds s (neg l)) (C \<inter> P) A)" for A
    using assms unfolding extends_def lit_holds_def by auto
  moreover have "(\<lambda>s. f s \<and> lit_holds s l \<or> f s \<and> lit_holds s (neg l)) = f" by auto
  ultimately show ?thesis
    using pcount_disj [of "\<lambda>s. f s \<and> lit_holds s l" C P "\<lambda>s. f s \<and> lit_holds s (neg l)" w] by simp
qed

subsection \<open>Restriction to a part of the constraint\<close>

text \<open>
  If two satisfiable constraints agree on \<open>C\<close>, that is, each model of one can be spliced along
  \<open>C\<close> into a model of the other, their counts over \<open>C\<close> are equal: this is why a count computed
  for a residual formula can be reused.
\<close>

lemma pcount_same_part:
  assumes "\<And>s. f s \<Longrightarrow> \<exists>s'. g s' \<and> (\<forall>v\<in>C. s' v = s v)"
    and "\<And>s. g s \<Longrightarrow> \<exists>s'. f s' \<and> (\<forall>v\<in>C. s' v = s v)"
  shows "pcount w P f C = pcount w P g C"
proof (rule pcount_cong)
  fix A
  show "extends f (C \<inter> P) A = extends g (C \<inter> P) A"
  proof
    assume "extends f (C \<inter> P) A"
    then obtain s where "\<forall>v\<in>C \<inter> P. s v = (v \<in> A)" "f s" by (auto simp: extends_def)
    with assms(1) [of s] obtain s' where "g s'" "\<forall>v\<in>C. s' v = s v" by blast
    then show "extends g (C \<inter> P) A"
      unfolding extends_def using \<open>\<forall>v\<in>C \<inter> P. s v = (v \<in> A)\<close> by (intro exI [of _ s']) simp
  next
    assume "extends g (C \<inter> P) A"
    then obtain s where "\<forall>v\<in>C \<inter> P. s v = (v \<in> A)" "g s" by (auto simp: extends_def)
    with assms(2) [of s] obtain s' where "f s'" "\<forall>v\<in>C. s' v = s v" by blast
    then show "extends f (C \<inter> P) A"
      unfolding extends_def using \<open>\<forall>v\<in>C \<inter> P. s v = (v \<in> A)\<close> by (intro exI [of _ s']) simp
  qed
qed

subsection \<open>A whole node: units, free variables and components\<close>

text \<open>
  The weight of the unit literals and free variables of a branch, restricted to the decision
  variables, and the product rule for one call of a DPLL style counter.
\<close>

definition branch_weight :: "'a::comm_semiring_1 weight \<Rightarrow> var set \<Rightarrow> lit list \<Rightarrow> var list \<Rightarrow> 'a" where
  "branch_weight w P us fs =
     prod_list (map (\<lambda>l. if var l \<in> P then lit_weight w l else 1) us)
     * prod_list (map (\<lambda>v. if v \<in> P then w v True + w v False else 1) fs)"

lemma pcount_units:
  assumes "\<And>s l. f s \<Longrightarrow> l \<in> set us \<Longrightarrow> lit_holds s l" "sat f" "distinct (map var us)"
  shows "pcount w P f (var ` set us) =
      prod_list (map (\<lambda>l. if var l \<in> P then lit_weight w l else 1) us)
    \<and> indep f (var ` set us)"
  using assms
proof (induction us)
  case Nil
  then show ?case by (simp add: pcount_empty indep_def splice_def)
next
  case (Cons l us)
  have l: "indep f {var l}" "pcount w P f {var l} = (if var l \<in> P then lit_weight w l else 1)"
    using Cons.prems by (auto intro!: indep_unit_var simp: pcount_unit_var)
  have IH: "pcount w P f (var ` set us) =
      prod_list (map (\<lambda>l. if var l \<in> P then lit_weight w l else 1) us)" "indep f (var ` set us)"
    using Cons by auto
  have "var ` set (l # us) = {var l} \<union> var ` set us" by simp
  moreover have "pcount w P f ({var l} \<union> var ` set us) =
      pcount w P f {var l} * pcount w P f (var ` set us)"
    using Cons.prems(3) by (intro pcount_Un [OF l(1)]) auto
  moreover have "indep f ({var l} \<union> var ` set us)" by (rule indep_Un [OF l(1) IH(2)])
  ultimately show ?case using l(2) IH by simp
qed

lemma pcount_frees:
  assumes "\<And>v. v \<in> set fs \<Longrightarrow> free_in f v" "sat f" "distinct fs"
  shows "pcount w P f (set fs) =
      prod_list (map (\<lambda>v. if v \<in> P then w v True + w v False else 1) fs)
    \<and> indep f (set fs)"
  using assms
proof (induction fs)
  case Nil
  then show ?case by (simp add: pcount_empty indep_def splice_def)
next
  case (Cons v fs)
  have v: "indep f {v}" "pcount w P f {v} = (if v \<in> P then w v True + w v False else 1)"
    using Cons.prems by (auto intro!: indep_free_var simp: pcount_free_var)
  have IH: "pcount w P f (set fs) =
      prod_list (map (\<lambda>v. if v \<in> P then w v True + w v False else 1) fs)" "indep f (set fs)"
    using Cons by auto
  have "set (v # fs) = {v} \<union> set fs" by simp
  moreover have "pcount w P f ({v} \<union> set fs) = pcount w P f {v} * pcount w P f (set fs)"
    using Cons.prems(3) by (intro pcount_Un [OF v(1)]) auto
  moreover have "indep f ({v} \<union> set fs)" by (rule indep_Un [OF v(1) IH(2)])
  ultimately show ?case using v(2) IH by simp
qed

lemma pcount_components:
  assumes "sat f" "\<And>C. C \<in> set cs \<Longrightarrow> indep f (set C)"
    "\<And>i j. i < length cs \<Longrightarrow> j < length cs \<Longrightarrow> i \<noteq> j \<Longrightarrow> set (cs ! i) \<inter> set (cs ! j) = {}"
  shows "pcount w P f (\<Union>C\<in>set cs. set C) = prod_list (map (\<lambda>C. pcount w P f (set C)) cs)
    \<and> indep f (\<Union>C\<in>set cs. set C)"
  using assms(2,3)
proof (induction cs)
  case Nil
  then show ?case by (simp add: pcount_empty assms(1) indep_def splice_def)
next
  case (Cons C cs)
  have dj: "set C \<inter> (\<Union>D\<in>set cs. set D) = {}"
  proof -
    have "set C \<inter> set D = {}" if "D \<in> set cs" for D
    proof -
      from that obtain j where "j < length cs" "D = cs ! j" by (auto simp: in_set_conv_nth)
      with Cons.prems(2) [of 0 "Suc j"] show ?thesis by simp
    qed
    then show ?thesis by blast
  qed
  have IH: "pcount w P f (\<Union>C\<in>set cs. set C) = prod_list (map (\<lambda>C. pcount w P f (set C)) cs)
    \<and> indep f (\<Union>C\<in>set cs. set C)"
  proof (rule Cons.IH)
    fix i j assume "i < length cs" "j < length cs" "i \<noteq> j"
    with Cons.prems(2) [of "Suc i" "Suc j"] show "set (cs ! i) \<inter> set (cs ! j) = {}" by simp
  qed (use Cons.prems in auto)
  have C: "indep f (set C)" using Cons.prems(1) by simp
  have "pcount w P f (set C \<union> (\<Union>D\<in>set cs. set D)) =
      pcount w P f (set C) * pcount w P f (\<Union>D\<in>set cs. set D)"
    by (rule pcount_Un [OF C dj]) auto
  moreover have "indep f (set C \<union> (\<Union>D\<in>set cs. set D))" using C IH by (auto intro: indep_Un)
  ultimately show ?case using IH by simp
qed

theorem pcount_node:
  assumes sat: "sat f"
    and us: "\<And>s l. f s \<Longrightarrow> l \<in> set us \<Longrightarrow> lit_holds s l" "distinct (map var us)"
    and fs: "\<And>v. v \<in> set fs \<Longrightarrow> free_in f v" "distinct fs"
    and cs: "\<And>C. C \<in> set cs \<Longrightarrow> indep f (set C)"
      "\<And>i j. i < length cs \<Longrightarrow> j < length cs \<Longrightarrow> i \<noteq> j \<Longrightarrow> set (cs ! i) \<inter> set (cs ! j) = {}"
    and part: "S = var ` set us \<union> (set fs \<union> (\<Union>C\<in>set cs. set C))"
      "var ` set us \<inter> (set fs \<union> (\<Union>C\<in>set cs. set C)) = {}" "set fs \<inter> (\<Union>C\<in>set cs. set C) = {}"
  shows "pcount w P f S = prod_list (map (\<lambda>C. pcount w P f (set C)) cs) * branch_weight w P us fs"
proof -
  note u = pcount_units [OF us(1) sat us(2), where w = w and P = P]
  note v = pcount_frees [OF fs(1) sat fs(2), where w = w and P = P]
  note c = pcount_components [OF sat cs, where w = w and P = P]
  have "pcount w P f S = pcount w P f (var ` set us) *
      (pcount w P f (set fs) * pcount w P f (\<Union>C\<in>set cs. set C))"
    unfolding part(1) using u v part(2,3) by (simp add: pcount_Un)
  then show ?thesis using u v c by (simp add: branch_weight_def ac_simps)
qed

subsection \<open>Conditioning by weights\<close>

text \<open>
  Giving the weight 0 to the literals that an assumption falsifies counts the models in which
  the assumption holds.
\<close>

definition cond_weight :: "lit list \<Rightarrow> 'a::comm_semiring_1 weight \<Rightarrow> 'a weight" where
  "cond_weight as w v b = (if makeLit v b \<in> set as then 0 else w v b)"

lemma pcount_cond_weight:
  assumes as: "var ` set as \<subseteq> C \<inter> P" and fin: "finite C"
  shows "pcount (cond_weight as w) P f C = pcount w P (\<lambda>s. f s \<and> lits_hold s as) C"
  unfolding pcount_def
proof (rule sum.cong [OF refl])
  fix A assume "A \<in> Pow (C \<inter> P)"
  let ?X = "C \<inter> P"
  show "(if extends f ?X A then pweight (cond_weight as w) ?X A else 0) =
      (if extends (\<lambda>s. f s \<and> lits_hold s as) ?X A then pweight w ?X A else 0)"
  proof (cases "\<forall>l\<in>set as. (var l \<in> A) = (\<not> sign l)")
    case True
    have "extends (\<lambda>s. f s \<and> lits_hold s as) ?X A = extends f ?X A"
    proof
      assume "extends f ?X A"
      then obtain s where s: "\<forall>v\<in>?X. s v = (v \<in> A)" "f s" by (auto simp: extends_def)
      have "lits_hold s as" using True s(1) as by (force simp: lits_hold_def lit_holds_def)
      with s show "extends (\<lambda>s. f s \<and> lits_hold s as) ?X A" by (auto simp: extends_def)
    qed (auto simp: extends_def)
    moreover have "makeLit v (v \<in> A) \<notin> set as" for v
      using True by (metis sign_makeLit var_makeLit)
    ultimately show ?thesis by (simp add: pweight_def cond_weight_def)
  next
    case False
    then obtain l where l: "l \<in> set as" "(var l \<in> A) \<noteq> (\<not> sign l)" by blast
    then have "makeLit (var l) (var l \<in> A) = l" by (simp add: lit_eq_iff)
    with l(1) have z: "cond_weight as w (var l) (var l \<in> A) = 0" by (simp add: cond_weight_def)
    have "var l \<in> ?X" using as l(1) by auto
    then have "pweight (cond_weight as w) ?X A = 0"
      unfolding pweight_def using fin z by (intro prod_zero) (auto intro!: bexI [of _ "var l"])
    moreover have "\<not> extends (\<lambda>s. f s \<and> lits_hold s as) ?X A"
    proof
      assume "extends (\<lambda>s. f s \<and> lits_hold s as) ?X A"
      then obtain s where s: "\<forall>v\<in>?X. s v = (v \<in> A)" "lits_hold s as" by (auto simp: extends_def)
      then have "lit_holds s l" using l(1) by (simp add: lits_hold_def)
      with s(1) \<open>var l \<in> ?X\<close> l(2) show False by (auto simp: lit_holds_def)
    qed
    ultimately show ?thesis by simp
  qed
qed

end
