(* ===== verification/ProblemManager.thy ===== *)
theory ProblemManager
  imports Wmc
begin

text \<open>
  The problem description of \<^verbatim>\<open>src/src/problem/ProblemManager.hpp\<close> and
  \<^verbatim>\<open>cnf/ProblemManagerCnf.cpp\<close>: the input and translation type names, the weights and
  their product over units and free variables, the unsatisfiable problem and the
  conditioning of a formula by unit literals.

  The weights are multiprecision numbers in the code (\<^verbatim>\<open>mpf_float\<close>, converted to the
  counting type \<^verbatim>\<open>T\<close>); they are elements of any commutative semiring here.
\<close>

section \<open>Exceptions\<close>

datatype error =
    FactoryException string
  | BadBehaviourException string
  | ParseError int
  | BadCast
  | Assertion string
  | ExitCode int

section \<open>Input and translation types\<close>

datatype ProblemInputType = PB_CNF | PB_TCNF | PB_CIRC | PB_QBF | PB_NONE

definition getInputType :: "ProblemInputType \<Rightarrow> error + string" where
  "getInputType m =
     (if m = PB_CNF then Inr ''cnf''
      else if m = PB_CIRC then Inr ''circuit''
      else if m = PB_TCNF then Inr ''cnf+theory''
      else if m = PB_QBF then Inr ''qbf''
      else Inl (FactoryException ''Operator Type unknown''))"

definition getInputType_of_string :: "string \<Rightarrow> error + ProblemInputType" where
  "getInputType_of_string m =
     (if m = ''cnf'' then Inr PB_CNF
      else if m = ''circuit'' then Inr PB_CIRC
      else if m = ''tcnf'' then Inr PB_TCNF
      else if m = ''qbf'' then Inr PB_QBF
      else Inl (FactoryException ''Operator Type unknown''))"

datatype ProblemTranslateType = TRANSLATE_CNF | TRANSLATE_PCNF | TRANSLATE_NONE

definition getTranslateType :: "ProblemTranslateType \<Rightarrow> error + string" where
  "getTranslateType m =
     (if m = TRANSLATE_CNF then Inr ''cnf''
      else if m = TRANSLATE_PCNF then Inr ''pcnf''
      else if m = TRANSLATE_NONE then Inr ''none''
      else Inl (FactoryException ''Type unknown''))"

definition getTranslateType_of_string :: "string \<Rightarrow> error + ProblemTranslateType" where
  "getTranslateType_of_string m =
     (if m = ''cnf'' then Inr TRANSLATE_CNF
      else if m = ''pcnf'' then Inr TRANSLATE_PCNF
      else if m = ''none'' then Inr TRANSLATE_NONE
      else Inl (FactoryException ''Translation type unknown''))"

section \<open>The problem record\<close>

record 'a problem =
  m_nbVar :: nat
  m_weightLit :: "'a list"
  m_weightVar :: "'a list"
  m_selected :: "var list"
  m_maxVar :: "var list"
  m_indVar :: "var list"
  m_order :: "nat list"
  m_isUnsat :: bool
  m_clauses :: cnf

definition getWeightLit :: "'a problem \<Rightarrow> lit \<Rightarrow> 'a" where
  "getWeightLit p l = m_weightLit p ! intern l"

definition getWeightVar :: "'a problem \<Rightarrow> var \<Rightarrow> 'a" where
  "getWeightVar p v = m_weightVar p ! v"

definition getNbSelectedVar :: "'a problem \<Rightarrow> nat" where
  "getNbSelectedVar p = length (m_selected p)"

text \<open>\<^verbatim>\<open>isFloat\<close>: the loop runs over the indices below \<^verbatim>\<open>getNbVar()\<close>.\<close>

definition isFloat :: "'a::comm_semiring_1 problem \<Rightarrow> bool" where
  "isFloat p \<longleftrightarrow>
     list_ex (\<lambda>i. let l = makeLitTrue i in getWeightLit p l \<noteq> 1 \<or> getWeightLit p (neg l) \<noteq> 1)
       [0 ..< m_nbVar p]"

text \<open>
  \<^verbatim>\<open>computeWeightUnitFree\<close>: the product of the weights of the unit literals and of the free
  variables, in the order of the two loops.
\<close>

definition computeWeightUnitFree ::
  "'a::comm_semiring_1 problem \<Rightarrow> lit list \<Rightarrow> var list \<Rightarrow> 'a" where
  "computeWeightUnitFree p units frees =
     (let tmp = foldl (\<lambda>t l. t * m_weightLit p ! intern l) 1 units
      in foldl (\<lambda>t v. t * m_weightVar p ! v) tmp frees)"

section \<open>CNF problems\<close>

text \<open>The copy constructor \<^verbatim>\<open>ProblemManagerCnf(ProblemManager *problem)\<close>: no clause is copied.\<close>

definition copyProblem :: "'a problem \<Rightarrow> 'a problem" where
  "copyProblem p = p\<lparr>m_isUnsat := False, m_clauses := []\<rparr>"

text \<open>What the constructors do once the file is parsed: variable weights and the order.\<close>

definition initWeights :: "'a::comm_semiring_1 problem \<Rightarrow> 'a problem" where
  "initWeights p = p\<lparr>
     m_weightVar := map (\<lambda>i. m_weightLit p ! (push_bit 1 i) + m_weightLit p ! (push_bit 1 i + 1))
                      [0 ..< m_nbVar p + 1],
     m_order := [0 ..< m_nbVar p + 1]\<rparr>"

definition getUnsatProblem :: "'a problem \<Rightarrow> 'a problem" where
  "getUnsatProblem p =
     (let l = makeLit 1 False
      in (copyProblem p)\<lparr>m_isUnsat := True, m_clauses := [[l], [neg l]]\<rparr>)"

definition setValues :: "lit list \<Rightarrow> nat list \<Rightarrow> nat list" where
  "setValues units vals = foldl (\<lambda>val l. val[var l := of_bool (sign l) + 1]) vals units"

fun conditionClause :: "nat list \<Rightarrow> clause \<Rightarrow> clause \<Rightarrow> clause \<times> bool" where
  "conditionClause vals [] scl = (scl, False)"
| "conditionClause vals (l # cl) scl =
     (let scl' = (if vals ! var l = 0 then scl @ [l] else scl);
          isSAT = (of_bool (sign l) + 1 = vals ! var l)
      in if isSAT then (scl', True) else conditionClause vals cl scl')"

definition getConditionedFormula :: "lit list \<Rightarrow> 'a problem \<Rightarrow> 'a problem" where
  "getConditionedFormula units p =
     (let vals = setValues units (replicate (m_nbVar p + 1) 0);
          simplified = map (\<lambda>cl. conditionClause vals cl []) (m_clauses p)
      in (copyProblem p)\<lparr>m_clauses :=
           map (\<lambda>l. [l]) units @ map fst (filter (\<lambda>r. \<not> snd r) simplified)\<rparr>)"

text \<open>The counts of \<^verbatim>\<open>displayStat\<close>: literals, unit, binary, ternary and longer clauses.\<close>

definition clauseStats :: "'a problem \<Rightarrow> nat \<times> nat \<times> nat \<times> nat \<times> nat" where
  "clauseStats p = foldl
     (\<lambda>(nbLits, nbUnit, nbBin, nbTer, nbMore) c.
        (nbLits + length c, nbUnit + of_bool (length c = 1), nbBin + of_bool (length c = 2),
         nbTer + of_bool (length c = 3), nbMore + of_bool (length c > 3)))
     (0, 0, 0, 0, 0) (m_clauses p)"

section \<open>Well-formed problems\<close>

definition weights_ok :: "'a::comm_semiring_1 problem \<Rightarrow> bool" where
  "weights_ok p \<longleftrightarrow> length (m_weightLit p) = 2 * (m_nbVar p + 1)
     \<and> length (m_weightVar p) = m_nbVar p + 1
     \<and> (\<forall>v\<le>m_nbVar p. m_weightVar p ! v = m_weightLit p ! (2 * v) + m_weightLit p ! (2 * v + 1))"

definition clause_ok :: "nat \<Rightarrow> clause \<Rightarrow> bool" where
  "clause_ok n c \<longleftrightarrow> c \<noteq> [] \<and> distinct (map var c) \<and> (\<forall>l\<in>set c. 1 \<le> var l \<and> var l \<le> n)"

definition cnf_ok :: "nat \<Rightarrow> cnf \<Rightarrow> bool" where
  "cnf_ok n F \<longleftrightarrow> (\<forall>c\<in>set F. clause_ok n c)"

text \<open>The weight function of a problem, by variable and truth value.\<close>

definition weight_of :: "'a problem \<Rightarrow> 'a weight" where
  "weight_of p v b = m_weightLit p ! intern (makeLit v (\<not> b))"

lemma weights_ok_initWeights:
  "length (m_weightLit p) = 2 * (m_nbVar p + 1) \<Longrightarrow> weights_ok (initWeights p)"
  by (simp add: weights_ok_def initWeights_def push_bit_eq_mult mult.commute nth_append)

lemma lit_weight_weight_of: "lit_weight (weight_of p) l = m_weightLit p ! intern l"
  by (simp add: lit_weight_def weight_of_def)

lemma weight_of_sum:
  "weights_ok p \<Longrightarrow> v \<le> m_nbVar p \<Longrightarrow> weight_of p v True + weight_of p v False = m_weightVar p ! v"
  by (simp add: weights_ok_def weight_of_def intern_def makeLit_eq)

lemma computeWeightUnitFree_prod:
  "computeWeightUnitFree p us fs =
     prod_list (map (\<lambda>l. m_weightLit p ! intern l) us) * prod_list (map (\<lambda>v. m_weightVar p ! v) fs)"
  by (simp add: computeWeightUnitFree_def foldl_mult)

lemma prod_list_filter:
  "prod_list (map (\<lambda>x. if Q x then g x else (1::'a::comm_monoid_mult)) xs) = prod_list (map g (filter Q xs))"
  by (induction xs) auto

text \<open>The product the code computes over the filtered lists is the abstract branch weight.\<close>

lemma computeWeight_branch_weight:
  assumes "weights_ok p" "\<forall>v\<in>set fs. v \<le> m_nbVar p"
  shows "computeWeightUnitFree p (filter (\<lambda>l. var l \<in> P) us) (filter (\<lambda>v. v \<in> P) fs) =
    branch_weight (weight_of p) P us fs"
proof -
  have "map (\<lambda>v. m_weightVar p ! v) (filter (\<lambda>v. v \<in> P) fs) =
      map (\<lambda>v. weight_of p v True + weight_of p v False) (filter (\<lambda>v. v \<in> P) fs)"
    using assms by (intro map_cong refl) (simp add: weight_of_sum)
  then show ?thesis
    unfolding computeWeightUnitFree_prod branch_weight_def prod_list_filter lit_weight_weight_of
    by (simp only:)
qed

section \<open>Conditioning\<close>

lemma length_setValues [simp]: "length (setValues us val) = length val"
  unfolding setValues_def by (induction us arbitrary: val) auto

lemma setValues_nth:
  assumes "lits_hold s us" "\<forall>l\<in>set us. var l < length val" "v < length val"
    "val ! v \<noteq> 0 \<longrightarrow> val ! v = of_bool (\<not> s v) + 1"
  shows "setValues us val ! v \<noteq> 0 \<longrightarrow> setValues us val ! v = of_bool (\<not> s v) + 1"
  using assms
proof (induction us arbitrary: val)
  case Nil
  then show ?case by (simp add: setValues_def)
next
  case (Cons l us)
  have "setValues (l # us) val = setValues us (val[var l := of_bool (sign l) + 1])"
    by (simp add: setValues_def)
  moreover have "lit_holds s l" using Cons.prems(1) by simp
  ultimately show ?case
    using Cons.IH [of "val[var l := of_bool (sign l) + 1]"] Cons.prems
    by (cases "v = var l") (auto simp: lit_holds_def)
qed

lemma conditionClause_sem:
  assumes "\<forall>l\<in>set cl. vals ! var l \<noteq> 0 \<longrightarrow> vals ! var l = of_bool (\<not> s (var l)) + 1"
  shows "(snd (conditionClause vals cl scl) \<or> clause_holds s (fst (conditionClause vals cl scl)))
    \<longleftrightarrow> clause_holds s scl \<or> clause_holds s cl"
  using assms
proof (induction cl arbitrary: scl)
  case Nil
  then show ?case by (simp add: clause_holds_def)
next
  case (Cons l cl)
  have l: "vals ! var l \<noteq> 0 \<longrightarrow> vals ! var l = of_bool (\<not> s (var l)) + 1"
    using Cons.prems by simp
  show ?case
  proof (cases "of_bool (sign l) + 1 = vals ! var l")
    case True
    then have "vals ! var l \<noteq> 0" by (metis add_is_0 zero_neq_one)
    with l True have "lit_holds s l"
      by (cases "sign l"; cases "s (var l)"; simp add: lit_holds_def)
    with True show ?thesis by (auto simp: clause_holds_def)
  next
    case False
    have "clause_holds s (if vals ! var l = 0 then scl @ [l] else scl) \<longleftrightarrow>
        clause_holds s scl \<or> (vals ! var l = 0 \<and> lit_holds s l)"
      by (auto simp: clause_holds_def)
    moreover have "\<not> lit_holds s l" if "vals ! var l \<noteq> 0"
      using l that False by (cases "sign l"; cases "s (var l)"; simp add: lit_holds_def)
    ultimately show ?thesis
      using Cons.IH [of "if vals ! var l = 0 then scl @ [l] else scl"] Cons.prems False
      by (auto simp: clause_holds_def)
  qed
qed

lemma getConditionedFormula_sem:
  assumes ok: "cnf_ok (m_nbVar p) (m_clauses p)" and us: "\<forall>l\<in>set us. var l \<le> m_nbVar p"
  shows "cnf_holds s (m_clauses (getConditionedFormula us p)) \<longleftrightarrow>
    lits_hold s us \<and> cnf_holds s (m_clauses p)"
proof (cases "lits_hold s us")
  case False
  then obtain l where l: "l \<in> set us" "\<not> lit_holds s l" by (auto simp: lits_hold_def)
  then have "[l] \<in> set (m_clauses (getConditionedFormula us p))"
    by (simp add: getConditionedFormula_def Let_def)
  with l have "\<not> cnf_holds s (m_clauses (getConditionedFormula us p))"
    by (force simp: cnf_holds_def clause_holds_def)
  with False show ?thesis by simp
next
  case True
  define vals where "vals = setValues us (replicate (m_nbVar p + 1) 0)"
  have val: "vals ! v \<noteq> 0 \<longrightarrow> vals ! v = of_bool (\<not> s v) + 1" if "v \<le> m_nbVar p" for v
    unfolding vals_def using us that by (intro setValues_nth [OF True]) (auto simp: nth_Cons' less_Suc_eq_le)
  have cl: "(snd (conditionClause vals cl []) \<or> clause_holds s (fst (conditionClause vals cl [])))
      \<longleftrightarrow> clause_holds s cl" if "cl \<in> set (m_clauses p)" for cl
    using conditionClause_sem [of cl "vals" s "[]"] val ok that
    by (auto simp: cnf_ok_def clause_ok_def clause_holds_def)
  have "cnf_holds s (m_clauses (getConditionedFormula us p)) \<longleftrightarrow>
      lits_hold s us \<and> (\<forall>cl\<in>set (m_clauses p). snd (conditionClause vals cl []) \<or>
        clause_holds s (fst (conditionClause vals cl [])))"
    using True unfolding getConditionedFormula_def Let_def vals_def [symmetric]
    by (auto simp: cnf_holds_def clause_holds_def lits_hold_def)
  then show ?thesis using cl by (auto simp: cnf_holds_def)
qed

end
