(* ===== verification/Interfaces.thy ===== *)
theory Interfaces
  imports ProblemManager
begin

text \<open>
  The abstract classes that the counting method is written against, each as a record of its
  virtual functions over the state of the object: \<^verbatim>\<open>WrapperSolver\<close>, \<^verbatim>\<open>FormulaManager\<close>,
  \<^verbatim>\<open>BranchingHeuristic\<close>, \<^verbatim>\<open>CacheManager\<close> and \<^verbatim>\<open>Operation\<close>; and the small data classes that
  cross these interfaces: \<^verbatim>\<open>DataBranch\<close>, \<^verbatim>\<open>CachedBucket\<close> and \<^verbatim>\<open>TmpEntry\<close>.

  A member function that changes its object returns the new state; an output parameter is a
  result. Streams used for logging are left out.
\<close>

section \<open>Data classes\<close>

record 'u DataBranch =
  d :: 'u
  unitLits :: "lit list"
  freeVars :: "var list"

definition sumFreeUnit :: "'u DataBranch \<Rightarrow> nat" where
  "sumFreeUnit b = length (unitLits b) + length (freeVars b)"

text \<open>
  A cached bucket: the pointer \<^verbatim>\<open>data\<close> (a page and an offset) with the bytes stored there, the 64-bit header word \<^verbatim>\<open>info1\<close> of
  \<^verbatim>\<open>DataInfo\<close>, and the value \<^verbatim>\<open>fc\<close>, which is uninitialised until \<^verbatim>\<open>lockedBucket\<close> sets it.
\<close>

record 'u CachedBucket =
  bptr :: "nat \<times> nat"
  bdata :: "8 word list"
  info1 :: "64 word"
  fc :: "'u option"

record 'u TmpEntry =
  tmp_e :: "'u CachedBucket"
  tmp_hashValue :: "32 word"
  tmp_defined :: bool

section \<open>The abstract classes\<close>

record 's solver_if =
  slv_solve :: "'s \<Rightarrow> var list \<Rightarrow> bool \<times> 's"
  slv_solveAll :: "'s \<Rightarrow> bool \<times> 's"
  slv_litAssigned :: "'s \<Rightarrow> var \<Rightarrow> lit option"
  slv_getModelVar :: "'s \<Rightarrow> var \<Rightarrow> lbool"
  slv_getAssumption :: "'s \<Rightarrow> lit list"
  slv_pushAssumption :: "'s \<Rightarrow> lit \<Rightarrow> 's"
  slv_popAssumption :: "'s \<Rightarrow> nat \<Rightarrow> 's"
  slv_restart :: "'s \<Rightarrow> 's"
  slv_decayCountConflict :: "'s \<Rightarrow> 's"

text \<open>
  \<^verbatim>\<open>whichAreUnits\<close> has the same body in \<^verbatim>\<open>WrapperMinisat\<close> and \<^verbatim>\<open>WrapperGlucose\<close>: the literals
  that the solver has assigned, for the variables of the component in order.
\<close>

fun whichAreUnits :: "'s solver_if \<Rightarrow> 's \<Rightarrow> var list \<Rightarrow> lit list" where
  "whichAreUnits S s [] = []"
| "whichAreUnits S s (v # component) =
     (case slv_litAssigned S s v of
        None \<Rightarrow> whichAreUnits S s component
      | Some l \<Rightarrow> makeLit (var l) (sign l) # whichAreUnits S s component)"

text \<open>\<^verbatim>\<open>setAssumption\<close>: pop what is there, then push the new literals one by one.\<close>

definition setAssumption :: "'s solver_if \<Rightarrow> 's \<Rightarrow> lit list \<Rightarrow> 's" where
  "setAssumption S s assums =
     foldl (slv_pushAssumption S) (slv_popAssumption S s (length (slv_getAssumption S s))) assums"

definition sizeAssumption :: "'s solver_if \<Rightarrow> 's \<Rightarrow> nat" where
  "sizeAssumption S s = length (slv_getAssumption S s)"

record 'f fm_if =
  fm_preUpdate :: "'f \<Rightarrow> lit list \<Rightarrow> lit list \<times> 'f"
  fm_postUpdate :: "'f \<Rightarrow> lit list \<Rightarrow> 'f"
  fm_components :: "'f \<Rightarrow> var list \<Rightarrow> (var list list \<times> var list) \<times> 'f"
  fm_trivialComponents :: "'f \<Rightarrow> var list \<Rightarrow> (var list list \<times> var list) \<times> 'f"
  fm_varIsAssigned :: "'f \<Rightarrow> var \<Rightarrow> bool"

record ('h, 's, 'f) heuristic_if =
  heu_selectLitSet :: "'h \<Rightarrow> 's \<Rightarrow> 'f \<Rightarrow> var list \<Rightarrow> lit list \<times> 'h \<times> 's"

record ('c, 'f, 'u) cache_if =
  ca_isActivated :: "'c \<Rightarrow> nat \<Rightarrow> bool"
  ca_searchInCache :: "'c \<Rightarrow> 'f \<Rightarrow> var list \<Rightarrow> 'u TmpEntry \<times> 'c"
  ca_addInCache :: "'c \<Rightarrow> 'u TmpEntry \<Rightarrow> 'u \<Rightarrow> 'c"

record ('o, 's, 'a, 'u) operation_if =
  op_createTop :: "'o \<Rightarrow> 'u \<times> 'o"
  op_manageBottom :: "'o \<Rightarrow> 'u \<times> 'o"
  op_manageTop :: "'o \<Rightarrow> 's \<Rightarrow> var list \<Rightarrow> 'u \<times> 'o"
  op_manageSolution :: "'o \<Rightarrow> 's \<Rightarrow> var list \<Rightarrow> 'u \<times> 'o \<times> 's"
  op_manageBranch :: "'o \<Rightarrow> 'u DataBranch \<Rightarrow> 'u \<times> 'o"
  op_manageDeterministicOr :: "'o \<Rightarrow> 'u DataBranch list \<Rightarrow> 'u \<times> 'o"
  op_manageDecomposableAnd :: "'o \<Rightarrow> 'u list \<Rightarrow> 'u \<times> 'o"
  op_count :: "'o \<Rightarrow> 'u \<Rightarrow> 'a \<times> 'o"

end
