(* ===== verification/Contracts.thy ===== *)
theory Contracts
  imports Interfaces
begin

text \<open>
  The contracts of the objects that the DPLL style method works with, each a locale over the
  virtual functions of its class, over the residual formulas that the method counts. The SAT
  solver is not a component of the model: what the method relies on is the predicate
  \<open>solver_contract\<close>, a hypothesis of the theorems.
\<close>

section \<open>Trails and residual formulas\<close>

definition sat_by :: "lit set \<Rightarrow> clause \<Rightarrow> bool" where
  "sat_by T c \<longleftrightarrow> (\<exists>l\<in>set c. l \<in> T)"

text \<open>
  \<open>closed F T C\<close>: every clause that \<open>T\<close> leaves unsatisfied and that touches \<open>C\<close> has its other
  variables in \<open>C\<close> or assigned. A connected component is closed.
\<close>

definition closed :: "cnf \<Rightarrow> lit set \<Rightarrow> var set \<Rightarrow> bool" where
  "closed F T C \<longleftrightarrow> (\<forall>c\<in>set F. clause_vars c \<inter> C \<noteq> {} \<longrightarrow> sat_by T c \<or> clause_vars c \<subseteq> C \<union> var ` T)"

definition active :: "cnf \<Rightarrow> lit set \<Rightarrow> var set \<Rightarrow> clause set" where
  "active F T C = {c \<in> set F. \<not> sat_by T c \<and> clause_vars c \<inter> C \<noteq> {}}"

definition fml :: "cnf \<Rightarrow> lit list \<Rightarrow> assignment \<Rightarrow> bool" where
  "fml F t s \<longleftrightarrow> cnf_holds s F \<and> lits_hold s t"

definition residual :: "cnf \<Rightarrow> lit list \<Rightarrow> var list \<Rightarrow> assignment \<Rightarrow> bool" where
  "residual F T C s \<longleftrightarrow> lits_hold s T \<and> (\<forall>c\<in>active F (set T) (set C). clause_holds s c)"

text \<open>What the search for components promises: a partition of the unassigned variables.\<close>

definition comps_ok :: "cnf \<Rightarrow> lit set \<Rightarrow> var list \<Rightarrow> var list list \<Rightarrow> var list \<Rightarrow> bool" where
  "comps_ok F T S cs fs \<longleftrightarrow>
     distinct fs \<and> (\<forall>C\<in>set cs. C \<noteq> [] \<and> distinct C \<and> (sorted S \<longrightarrow> sorted C))
     \<and> (\<forall>i<length cs. \<forall>j<length cs. i \<noteq> j \<longrightarrow> set (cs ! i) \<inter> set (cs ! j) = {})
     \<and> set fs \<inter> (\<Union>C\<in>set cs. set C) = {}
     \<and> set fs \<union> (\<Union>C\<in>set cs. set C) = set S - var ` T
     \<and> (\<forall>c\<in>set F. \<not> sat_by T c \<longrightarrow> clause_vars c \<inter> set fs = {})
     \<and> (\<forall>c\<in>set F. \<not> sat_by T c \<longrightarrow> (\<forall>C\<in>set cs. clause_vars c \<inter> set C \<noteq> {} \<longrightarrow>
           clause_vars c \<inter> (set S - var ` T) \<subseteq> set C))"

lemma comps_okD:
  assumes "comps_ok F T S cs fs"
  shows "distinct fs" "\<forall>C\<in>set cs. C \<noteq> [] \<and> distinct C \<and> (sorted S \<longrightarrow> sorted C)"
    "\<forall>i<length cs. \<forall>j<length cs. i \<noteq> j \<longrightarrow> set (cs ! i) \<inter> set (cs ! j) = {}"
    "set fs \<inter> (\<Union>C\<in>set cs. set C) = {}" "set fs \<union> (\<Union>C\<in>set cs. set C) = set S - var ` T"
    "\<forall>c\<in>set F. \<not> sat_by T c \<longrightarrow> clause_vars c \<inter> set fs = {}"
    "\<forall>c\<in>set F. \<not> sat_by T c \<longrightarrow> (\<forall>C\<in>set cs. clause_vars c \<inter> set C \<noteq> {} \<longrightarrow>
       clause_vars c \<inter> (set S - var ` T) \<subseteq> set C)"
  by (insert assms, unfold comps_ok_def, (elim conjE, assumption)+)

text \<open>The state of a connected component when it is looked up in the cache and branched on.\<close>

definition comp_ctx :: "nat \<Rightarrow> cnf \<Rightarrow> lit list \<Rightarrow> var list \<Rightarrow> bool" where
  "comp_ctx n F T C \<longleftrightarrow> C \<noteq> [] \<and> sorted C \<and> distinct C
     \<and> (\<forall>v\<in>set C. 1 \<le> v \<and> v \<le> n \<and> v \<notin> var ` set T)
     \<and> closed F (set T) (set C)
     \<and> (\<forall>c\<in>active F (set T) (set C). 2 \<le> card (clause_vars c - var ` set T))"

definition trail_ok :: "nat \<Rightarrow> lit list \<Rightarrow> bool" where
  "trail_ok n T \<longleftrightarrow> distinct (map var T) \<and> (\<forall>l\<in>set T. 1 \<le> var l \<and> var l \<le> n)"

definition cval :: "'a::comm_semiring_1 weight \<Rightarrow> var set \<Rightarrow> cnf \<Rightarrow> lit list \<Rightarrow> var list \<Rightarrow> 'a" where
  "cval w P F T C = pcount w P (residual F T C) (set C)"

lemma finite_clause_vars [simp]: "finite (clause_vars c)"
  by (simp add: clause_vars_def)

lemma sat_by_mono: "sat_by T c \<Longrightarrow> T \<subseteq> T' \<Longrightarrow> sat_by T' c"
  by (auto simp: sat_by_def)

lemma closed_mono: "closed F T C \<Longrightarrow> T \<subseteq> T' \<Longrightarrow> closed F T' C"
  unfolding closed_def using sat_by_mono [of T _ T'] by (meson image_mono order_trans sup_mono subset_refl)

lemma closed_mono_ball: "closed F T C \<Longrightarrow> c \<in> set F \<Longrightarrow> clause_vars c \<inter> C \<noteq> {} \<Longrightarrow>
    \<not> sat_by T c \<Longrightarrow> clause_vars c \<subseteq> C \<union> var ` T"
  by (auto simp: closed_def)

lemma sat_by_holds: "sat_by (set T) c \<Longrightarrow> lits_hold s T \<Longrightarrow> clause_holds s c"
  by (auto simp: sat_by_def lits_hold_def clause_holds_def)

text \<open>A true literal of an unsatisfied clause of a closed component has its variable in it.\<close>

lemma true_lit_in_comp:
  assumes "closed F (set T) C" "c \<in> set F" "\<not> sat_by (set T) c" "clause_vars c \<inter> C \<noteq> {}"
    "lits_hold s T" "l \<in> set c" "lit_holds s l"
  shows "var l \<in> C"
proof (rule ccontr)
  assume "var l \<notin> C"
  moreover have "var l \<in> C \<union> var ` set T"
    using closed_mono_ball [OF assms(1,2,4,3)] assms(6) by (auto simp: clause_vars_def)
  ultimately obtain k where k: "k \<in> set T" "var k = var l" by auto
  then have "lit_holds s k" using assms(5) by (auto simp: lits_hold_def)
  with assms(7) k(2) have "l = k" by (auto simp: lit_eq_iff lit_holds_def)
  with k(1) assms(3,6) show False by (auto simp: sat_by_def)
qed

lemma clause_holds_by: "l \<in> set c \<Longrightarrow> lit_holds s l \<Longrightarrow> clause_holds s c"
  by (auto simp: clause_holds_def)

text \<open>Two models can be spliced along a closed set of unassigned variables.\<close>

lemma fml_splice:
  assumes cl: "closed F (set T) C" and un: "C \<inter> var ` set T = {}" "C \<inter> var ` set t = {}"
    and imp: "\<And>s. fml F t s \<Longrightarrow> lits_hold s T"
    and s: "lits_hold s T" "\<forall>c\<in>active F (set T) C. clause_holds s c" and s': "fml F t s'"
  shows "fml F t (splice C s s')"
  unfolding fml_def
proof
  show "lits_hold (splice C s s') t"
    using s' un(2) by (auto simp: fml_def lits_hold_def lit_holds_def splice_def)
  show "cnf_holds (splice C s s') F"
    unfolding cnf_holds_def
  proof
    fix c assume c: "c \<in> set F"
    then have c': "clause_holds s' c" using s' by (simp add: fml_def cnf_holds_def)
    consider "clause_vars c \<inter> C = {}" | "sat_by (set T) c" | "c \<in> active F (set T) C"
      using c by (auto simp: active_def)
    then show "clause_holds (splice C s s') c"
    proof cases
      case 1
      have "clause_holds (splice C s s') c = clause_holds s' c"
        by (rule clause_holds_cong) (use 1 in \<open>auto simp: splice_def\<close>)
      with c' show ?thesis by simp
    next
      case 2
      then obtain l where l: "l \<in> set c" "l \<in> set T" by (auto simp: sat_by_def)
      then have "lit_holds s' l" using imp [OF s'] by (simp add: lits_hold_def)
      moreover have "var l \<notin> C" using l un(1) by auto
      ultimately have "lit_holds (splice C s s') l" by (simp add: lit_holds_def splice_def)
      with l(1) show ?thesis by (rule clause_holds_by)
    next
      case 3
      then obtain l where l: "l \<in> set c" "lit_holds s l"
        using s(2) by (auto simp: clause_holds_def)
      have "var l \<in> C"
        using 3 l s(1) by (intro true_lit_in_comp [OF cl]) (auto simp: active_def)
      then have "lit_holds (splice C s s') l" using l(2) by (simp add: lit_holds_def splice_def)
      with l(1) show ?thesis by (rule clause_holds_by)
    qed
  qed
qed

lemma fml_residual:
  "fml F t s \<Longrightarrow> lits_hold s T \<Longrightarrow> residual F T C s"
  by (auto simp: residual_def fml_def active_def cnf_holds_def)

lemma indep_closed:
  assumes "closed F (set T) C" "C \<inter> var ` set T = {}" "C \<inter> var ` set t = {}"
    "\<And>s. fml F t s \<Longrightarrow> lits_hold s T"
  shows "indep (fml F t) C"
  unfolding indep_def
proof (intro allI impI)
  fix s s' assume s: "fml F t s" and s': "fml F t s'"
  show "fml F t (splice C s s')"
    using s by (intro fml_splice [OF assms _ _ s'])
      (auto simp: assms(4) active_def fml_def cnf_holds_def)
qed

text \<open>The count of the whole formula over a component is the count of the residual formula.\<close>

lemma pcount_residual:
  assumes "closed F (set T) (set C)" "set C \<inter> var ` set T = {}" "set C \<inter> var ` set t = {}"
    "\<And>s. fml F t s \<Longrightarrow> lits_hold s T" "sat (fml F t)"
  shows "pcount w P (fml F t) (set C) = cval w P F T C"
  unfolding cval_def
proof (rule pcount_same_part)
  fix s assume "fml F t s"
  then show "\<exists>s'. residual F T C s' \<and> (\<forall>v\<in>set C. s' v = s v)"
    using assms(4) by (intro exI [of _ s]) (auto intro: fml_residual)
next
  fix s assume s: "residual F T C s"
  obtain s' where s': "fml F t s'" using assms(5) by (auto simp: sat_def)
  have "fml F t (splice (set C) s s')"
    using s by (intro fml_splice [OF assms(1-4) _ _ s']) (auto simp: residual_def)
  then show "\<exists>s'. fml F t s' \<and> (\<forall>v\<in>set C. s' v = s v)"
    by (intro exI [of _ "splice (set C) s s'"]) (auto simp: splice_def)
qed

text \<open>Components with the same variables and the same active clauses have the same count.\<close>

definition assign_of :: "lit list \<Rightarrow> assignment \<Rightarrow> assignment" where
  "assign_of T s = (\<lambda>v. if v \<in> var ` set T then makeLit v False \<in> set T else s v)"

lemma lits_hold_assign_of: "distinct (map var T) \<Longrightarrow> lits_hold (assign_of T s) T"
  unfolding lits_hold_def
proof
  fix l assume dist: "distinct (map var T)" and l: "l \<in> set T"
  have "makeLit (var l) False \<in> set T \<longleftrightarrow> \<not> sign l"
  proof
    assume "makeLit (var l) False \<in> set T"
    with l dist have "makeLit (var l) False = l"
      by (auto simp: distinct_map inj_on_def)
    then show "\<not> sign l" by (metis sign_makeLit)
  next
    assume "\<not> sign l"
    then have "makeLit (var l) False = l" by (simp add: lit_eq_iff)
    with l show "makeLit (var l) False \<in> set T" by simp
  qed
  with l show "lit_holds (assign_of T s) l" by (auto simp: lit_holds_def assign_of_def)
qed

lemma residual_transfer:
  assumes T: "trail_ok n T'" and ctx: "comp_ctx n F T C" "comp_ctx n F T' C"
    and act: "active F (set T) (set C) = active F (set T') (set C)" and s: "residual F T C s"
  shows "residual F T' C (assign_of T' s) \<and> (\<forall>v\<in>set C. assign_of T' s v = s v)"
proof
  have C: "\<forall>v\<in>set C. assign_of T' s v = s v" using ctx(2) by (auto simp: comp_ctx_def assign_of_def)
  then show "\<forall>v\<in>set C. assign_of T' s v = s v" .
  have "clause_holds (assign_of T' s) c" if c: "c \<in> active F (set T') (set C)" for c
  proof -
    have c': "c \<in> active F (set T) (set C)" using c act by simp
    then obtain l where l: "l \<in> set c" "lit_holds s l"
      using s by (auto simp: residual_def clause_holds_def)
    have "var l \<in> set C"
      using true_lit_in_comp [of F T "set C" c s l] ctx(1) c' s l
      by (auto simp: comp_ctx_def active_def residual_def)
    with C l show ?thesis by (intro clause_holds_by [of l]) (auto simp: lit_holds_def)
  qed
  then show "residual F T' C (assign_of T' s)"
    using lits_hold_assign_of [of T' s] T by (auto simp: residual_def trail_ok_def)
qed

lemma cval_cong:
  assumes "trail_ok n T" "trail_ok n T'" "comp_ctx n F T C" "comp_ctx n F T' C"
    "active F (set T) (set C) = active F (set T') (set C)"
  shows "cval w P F T C = cval w P F T' C"
  unfolding cval_def
  using residual_transfer [OF assms(2,3,4,5)] residual_transfer [OF assms(1,4,3) assms(5) [symmetric]]
  by (intro pcount_same_part) blast+

text \<open>There are at most as many components as variables.\<close>

lemma comps_length:
  assumes co: "comps_ok F T V cs fs" and V: "\<forall>v\<in>set V. 1 \<le> v \<and> v \<le> n"
  shows "length cs \<le> n"
proof -
  have hd: "hd C \<in> set C" if "C \<in> set cs" for C using comps_okD(2) [OF co] that by auto
  have "distinct (map hd cs)"
    unfolding distinct_conv_nth
  proof (intro allI impI)
    fix i j assume *: "i < length (map hd cs)" "j < length (map hd cs)" "i \<noteq> j"
    then have "set (cs ! i) \<inter> set (cs ! j) = {}" using comps_okD(3) [OF co] by simp
    then show "map hd cs ! i \<noteq> map hd cs ! j" using * hd [of "cs ! i"] hd [of "cs ! j"] by auto
  qed
  then have "length cs = card (set (map hd cs))" by (metis distinct_card length_map)
  also have "set (map hd cs) \<subseteq> set V" using comps_okD(5) [OF co] hd by auto
  then have "set (map hd cs) \<subseteq> {1..n}" using V by auto
  then have "card (set (map hd cs)) \<le> card {1..n}" by (intro card_mono) auto
  finally show ?thesis by simp
qed

text \<open>A component of the partition, once the solver has closed the trail under unit propagation.\<close>

lemma comps_ctx:
  assumes co: "comps_ok F (set T) V cs fs" and cl: "closed F (set T) (set V)" and C: "C \<in> set cs"
    and V: "sorted V" "\<forall>v\<in>set V. 1 \<le> v \<and> v \<le> n" and A: "set T \<subseteq> A"
    and inj: "\<And>l k. l \<in> A \<Longrightarrow> k \<in> A \<Longrightarrow> var l = var k \<Longrightarrow> l = k"
    and un: "\<And>l. l \<in> A \<Longrightarrow> var l \<in> set V \<Longrightarrow> var l \<in> var ` set T"
    and up: "\<forall>c\<in>set F. sat_by A c \<or> 2 \<le> card (clause_vars c - var ` A)"
  shows "comp_ctx n F T C"
proof -
  have sub: "set C \<subseteq> set V - var ` set T" using comps_okD(5) [OF co] C by blast
  have cl': "clause_vars c \<subseteq> set C \<union> var ` set T"
    if c: "c \<in> set F" "\<not> sat_by (set T) c" "clause_vars c \<inter> set C \<noteq> {}" for c
  proof -
    have "clause_vars c \<inter> set V \<noteq> {}" using c(3) sub by blast
    then have "clause_vars c \<subseteq> set V \<union> var ` set T" using cl c(1,2) unfolding closed_def by blast
    moreover have "clause_vars c \<inter> (set V - var ` set T) \<subseteq> set C"
      using comps_okD(7) [OF co] C c by blast
    ultimately show ?thesis by blast
  qed
  have "2 \<le> card (clause_vars c - var ` set T)" if c: "c \<in> active F (set T) (set C)" for c
  proof -
    have c': "c \<in> set F" "\<not> sat_by (set T) c" "clause_vars c \<inter> set C \<noteq> {}"
      using c by (auto simp: active_def)
    have "\<not> sat_by A c"
    proof
      assume "sat_by A c"
      then obtain l where l: "l \<in> set c" "l \<in> A" by (auto simp: sat_by_def)
      then have "var l \<in> set C \<union> var ` set T" using cl' [OF c'] by (auto simp: clause_vars_def)
      then have "var l \<in> var ` set T" using un [OF l(2)] sub by blast
      then obtain k where k: "k \<in> set T" "var k = var l" by auto
      then have "k = l" using inj [of k l] A l(2) by blast
      with k(1) l(1) c'(2) show False by (auto simp: sat_by_def)
    qed
    then have "2 \<le> card (clause_vars c - var ` A)" using up c'(1) by blast
    also have "\<dots> \<le> card (clause_vars c - var ` set T)" using A by (intro card_mono) auto
    finally show ?thesis .
  qed
  moreover have "\<forall>C\<in>set cs. C \<noteq> [] \<and> distinct C \<and> (sorted V \<longrightarrow> sorted C)"
    by (rule comps_okD(2) [OF co])
  then have "C \<noteq> []" "distinct C" "sorted C" using C V(1) by auto
  moreover have "closed F (set T) (set C)" unfolding closed_def using cl' by blast
  ultimately show ?thesis unfolding comp_ctx_def using V(2) sub by blast
qed

lemma free_in_fml:
  assumes "\<And>c. c \<in> set F \<Longrightarrow> \<not> sat_by (set T) c \<Longrightarrow> v \<notin> clause_vars c"
    "v \<notin> var ` set T" "v \<notin> var ` set t" "\<And>s. fml F t s \<Longrightarrow> lits_hold s T"
  shows "free_in (fml F t) v"
  unfolding free_in_def fml_def
proof (intro allI impI conjI)
  fix s b assume s: "cnf_holds s F \<and> lits_hold s t"
  have out: "lit_holds (s(v := b)) l = lit_holds s l" if "var l \<noteq> v" for l
    using that by (simp add: lit_holds_def)
  show "lits_hold (s(v := b)) t" using s assms(3) out by (force simp: lits_hold_def)
  show "cnf_holds (s(v := b)) F"
    unfolding cnf_holds_def
  proof
    fix c assume c: "c \<in> set F"
    show "clause_holds (s(v := b)) c"
    proof (cases "sat_by (set T) c")
      case True
      then obtain l where l: "l \<in> set c" "l \<in> set T" by (auto simp: sat_by_def)
      then have "lit_holds s l" using assms(4) [of s] s by (auto simp: fml_def lits_hold_def)
      moreover have "var l \<noteq> v" using l(2) assms(2) by blast
      ultimately show ?thesis using clause_holds_by [OF l(1)] out by blast
    next
      case False
      have "clause_holds (s(v := b)) c = clause_holds s c"
        by (rule clause_holds_cong) (use assms(1) [OF c False] in auto)
      with s c show ?thesis by (simp add: cnf_holds_def)
    qed
  qed
qed

text \<open>The count of a call is the product over its units, free variables and components.\<close>

lemma pcount_call:
  assumes co: "comps_ok F (set (us @ T)) V cs fs" and cl: "closed F (set (us @ T)) (set V)"
    and ctx: "\<And>C. C \<in> set cs \<Longrightarrow> comp_ctx n F (us @ T) C"
    and V: "set V \<inter> var ` set T = {}" "var ` set us \<subseteq> set V" "distinct (map var us)"
    and t: "var ` set t \<subseteq> var ` set (us @ T)"
    and imp: "\<And>s. fml F t s \<Longrightarrow> lits_hold s (us @ T)" and sat: "sat (fml F t)"
  shows "pcount w P (fml F t) (set V) =
    prod_list (map (cval w P F (us @ T)) cs) * branch_weight w P us fs"
proof -
  have part: "set fs \<union> (\<Union>C\<in>set cs. set C) = set V - var ` set us"
    "set fs \<inter> (\<Union>C\<in>set cs. set C) = {}"
    using comps_okD(4,5) [OF co] V(1) by auto
  have un: "set C \<inter> var ` set (us @ T) = {}" if "C \<in> set cs" for C
    using ctx [OF that] unfolding comp_ctx_def by blast
  have Ct: "set C \<inter> var ` set t = {}" if "C \<in> set cs" for C using un [OF that] t by blast
  have cC: "closed F (set (us @ T)) (set C)" if "C \<in> set cs" for C
    using ctx [OF that] by (simp add: comp_ctx_def)
  have "pcount w P (fml F t) (set V) =
      prod_list (map (\<lambda>C. pcount w P (fml F t) (set C)) cs) * branch_weight w P us fs"
  proof (rule pcount_node [OF sat])
    show "lit_holds s l" if "fml F t s" "l \<in> set us" for s l
      using imp [OF that(1)] that(2) by (simp add: lits_hold_def)
    show "free_in (fml F t) v" if v: "v \<in> set fs" for v
    proof (rule free_in_fml [OF _ _ _ imp])
      show "v \<notin> clause_vars c" if "c \<in> set F" "\<not> sat_by (set (us @ T)) c" for c
        using comps_okD(6) [OF co] that v by blast
      show n: "v \<notin> var ` set (us @ T)" using comps_okD(5) [OF co] v by blast
      show "v \<notin> var ` set t" using n t by blast
    qed
    show "indep (fml F t) (set C)" if "C \<in> set cs" for C
      by (rule indep_closed [OF cC [OF that] un [OF that] Ct [OF that] imp])
    show "set (cs ! i) \<inter> set (cs ! j) = {}" if "i < length cs" "j < length cs" "i \<noteq> j" for i j
      using comps_okD(3) [OF co] that by simp
    show "distinct fs" by (rule comps_okD(1) [OF co])
    show "set V = var ` set us \<union> (set fs \<union> (\<Union>C\<in>set cs. set C))"
      "var ` set us \<inter> (set fs \<union> (\<Union>C\<in>set cs. set C)) = {}"
      "set fs \<inter> (\<Union>C\<in>set cs. set C) = {}"
      using part V(2) by auto
  qed (fact V(3))
  moreover have "pcount w P (fml F t) (set C) = cval w P F (us @ T) C" if "C \<in> set cs" for C
    by (rule pcount_residual [OF cC [OF that] un [OF that] Ct [OF that] imp sat])
  ultimately show ?thesis by (simp cong: map_cong)
qed

section \<open>The contract of the SAT solver\<close>

text \<open>
  The solver is not part of the model: \<open>solver_contract\<close> is what the method relies on.
  \<open>sinv\<close> is the invariant of the solver's state for the formula \<open>F\<close>, and \<open>desc s0 s\<close> says that \<open>s\<close>
  was reached from \<open>s0\<close> without popping any assumption that \<open>s0\<close> had.

  \<^verbatim>\<open>solve(setOfVar)\<close> is asked about a closed set of variables whose surroundings are known to be
  satisfiable; it answers for the whole formula. When it answers yes, the literals it has assigned
  are implied, contain the assumptions and those assigned before, and are closed under unit
  propagation.
\<close>

definition asg :: "'s solver_if \<Rightarrow> 's \<Rightarrow> lit set" where
  "asg S s = {l. slv_litAssigned S s (var l) = Some l}"

definition rest_sat :: "cnf \<Rightarrow> lit list \<Rightarrow> var set \<Rightarrow> bool" where
  "rest_sat F t V \<longleftrightarrow>
     (\<exists>s. lits_hold s t \<and> (\<forall>c\<in>set F. clause_vars c \<inter> V = {} \<longrightarrow> clause_holds s c))"

definition known :: "'s solver_if \<Rightarrow> ('s \<Rightarrow> 's \<Rightarrow> bool) \<Rightarrow> 's \<Rightarrow> lit set \<Rightarrow> bool" where
  "known S desc s U \<longleftrightarrow> U = {} \<or> (\<exists>s0. desc s0 s \<and> U = asg S s0)"

definition solve_pre ::
  "'s solver_if \<Rightarrow> nat \<Rightarrow> cnf \<Rightarrow> ('s \<Rightarrow> 's \<Rightarrow> bool) \<Rightarrow> 's \<Rightarrow> var list \<Rightarrow> bool" where
  "solve_pre S n F desc s V \<longleftrightarrow> (\<forall>v\<in>set V. 1 \<le> v \<and> v \<le> n)
     \<and> rest_sat F (slv_getAssumption S s) (set V)
     \<and> (\<exists>U. known S desc s U \<and> closed F (U \<union> set (slv_getAssumption S s)) (set V))"

definition solved ::
  "'s solver_if \<Rightarrow> cnf \<Rightarrow> ('s \<Rightarrow> 's \<Rightarrow> bool) \<Rightarrow> 's \<Rightarrow> 's \<Rightarrow> bool" where
  "solved S F desc s s' \<longleftrightarrow>
     (\<forall>l\<in>asg S s'. \<forall>\<sigma>. fml F (slv_getAssumption S s) \<sigma> \<longrightarrow> lit_holds \<sigma> l)
     \<and> set (slv_getAssumption S s) \<subseteq> asg S s'
     \<and> (\<forall>c\<in>set F. sat_by (asg S s') c \<or> 2 \<le> card (clause_vars c - var ` asg S s'))
     \<and> (\<forall>s0. desc s0 s \<longrightarrow> asg S s0 \<subseteq> asg S s')"

definition lit_own :: "'s solver_if \<Rightarrow> bool" where
  "lit_own S \<longleftrightarrow> (\<forall>s v l. slv_litAssigned S s v = Some l \<longrightarrow> var l = v)"

definition push_law :: "'s solver_if \<Rightarrow> nat \<Rightarrow> ('s \<Rightarrow> bool) \<Rightarrow> ('s \<Rightarrow> 's \<Rightarrow> bool) \<Rightarrow> bool" where
  "push_law S n sinv desc \<longleftrightarrow> (\<forall>s l. sinv s \<longrightarrow> 1 \<le> var l \<longrightarrow> var l \<le> n \<longrightarrow>
     sinv (slv_pushAssumption S s l)
     \<and> slv_getAssumption S (slv_pushAssumption S s l) = slv_getAssumption S s @ [l]
     \<and> (\<forall>s0. desc s0 s \<longrightarrow> desc s0 (slv_pushAssumption S s l)))"

definition pop_law :: "'s solver_if \<Rightarrow> ('s \<Rightarrow> bool) \<Rightarrow> ('s \<Rightarrow> 's \<Rightarrow> bool) \<Rightarrow> bool" where
  "pop_law S sinv desc \<longleftrightarrow> (\<forall>s k. sinv s \<longrightarrow> k \<le> length (slv_getAssumption S s) \<longrightarrow>
     sinv (slv_popAssumption S s k)
     \<and> slv_getAssumption S (slv_popAssumption S s k) =
         take (length (slv_getAssumption S s) - k) (slv_getAssumption S s)
     \<and> (\<forall>s0. desc s0 s \<longrightarrow>
          length (slv_getAssumption S s0) + k \<le> length (slv_getAssumption S s) \<longrightarrow>
          desc s0 (slv_popAssumption S s k)))"

definition solve_law ::
  "'s solver_if \<Rightarrow> nat \<Rightarrow> cnf \<Rightarrow> ('s \<Rightarrow> bool) \<Rightarrow> ('s \<Rightarrow> 's \<Rightarrow> bool) \<Rightarrow> bool" where
  "solve_law S n F sinv desc \<longleftrightarrow> (\<forall>s V b s'. sinv s \<longrightarrow> slv_solve S s V = (b, s') \<longrightarrow>
     solve_pre S n F desc s V \<longrightarrow>
     sinv s' \<and> slv_getAssumption S s' = slv_getAssumption S s
     \<and> (\<forall>s0. desc s0 s \<longrightarrow> desc s0 s')
     \<and> (b \<longleftrightarrow> sat (fml F (slv_getAssumption S s)))
     \<and> (b \<longrightarrow> solved S F desc s s'))"

definition solveAll_law :: "'s solver_if \<Rightarrow> cnf \<Rightarrow> ('s \<Rightarrow> bool) \<Rightarrow> bool" where
  "solveAll_law S F sinv \<longleftrightarrow> (\<forall>s b s'. sinv s \<longrightarrow> slv_solveAll S s = (b, s') \<longrightarrow>
     sinv s' \<and> slv_getAssumption S s' = slv_getAssumption S s
     \<and> (b \<longleftrightarrow> sat (fml F (slv_getAssumption S s))))"

definition restart_law :: "'s solver_if \<Rightarrow> ('s \<Rightarrow> bool) \<Rightarrow> bool" where
  "restart_law S sinv \<longleftrightarrow> (\<forall>s. sinv s \<longrightarrow> sinv (slv_restart S s)
     \<and> slv_getAssumption S (slv_restart S s) = slv_getAssumption S s)"

definition decay_law :: "'s solver_if \<Rightarrow> ('s \<Rightarrow> bool) \<Rightarrow> ('s \<Rightarrow> 's \<Rightarrow> bool) \<Rightarrow> bool" where
  "decay_law S sinv desc \<longleftrightarrow> (\<forall>s. sinv s \<longrightarrow> sinv (slv_decayCountConflict S s)
     \<and> slv_getAssumption S (slv_decayCountConflict S s) = slv_getAssumption S s
     \<and> (\<forall>s0. desc s0 s \<longrightarrow> desc s0 (slv_decayCountConflict S s)))"

definition solver_contract ::
  "'s solver_if \<Rightarrow> nat \<Rightarrow> cnf \<Rightarrow> ('s \<Rightarrow> bool) \<Rightarrow> ('s \<Rightarrow> 's \<Rightarrow> bool) \<Rightarrow> bool" where
  "solver_contract S n F sinv desc \<longleftrightarrow>
     lit_own S \<and> (\<forall>s. sinv s \<longrightarrow> desc s s)
     \<and> (\<forall>s0 s. desc s0 s \<longrightarrow> length (slv_getAssumption S s0) \<le> length (slv_getAssumption S s))
     \<and> push_law S n sinv desc \<and> pop_law S sinv desc \<and> solve_law S n F sinv desc
     \<and> solveAll_law S F sinv \<and> restart_law S sinv \<and> decay_law S sinv desc"

lemma solver_lit_own: "solver_contract S n F sinv desc \<Longrightarrow> lit_own S"
  by (simp add: solver_contract_def)

lemma solver_refl: "solver_contract S n F sinv desc \<Longrightarrow> sinv s \<Longrightarrow> desc s s"
  by (simp add: solver_contract_def)

lemma solver_desc_length:
  "solver_contract S n F sinv desc \<Longrightarrow> desc s0 s \<Longrightarrow>
    length (slv_getAssumption S s0) \<le> length (slv_getAssumption S s)"
  by (simp add: solver_contract_def)

lemma solver_push:
  assumes "solver_contract S n F sinv desc" "sinv s" "1 \<le> var l" "var l \<le> n"
  shows "sinv (slv_pushAssumption S s l)"
    "slv_getAssumption S (slv_pushAssumption S s l) = slv_getAssumption S s @ [l]"
    "desc s0 s \<Longrightarrow> desc s0 (slv_pushAssumption S s l)"
proof -
  have "push_law S n sinv desc" using assms(1) by (simp add: solver_contract_def)
  with assms(2-) show "sinv (slv_pushAssumption S s l)"
    "slv_getAssumption S (slv_pushAssumption S s l) = slv_getAssumption S s @ [l]"
    "desc s0 s \<Longrightarrow> desc s0 (slv_pushAssumption S s l)"
    unfolding push_law_def by blast+
qed

lemma solver_pop:
  assumes "solver_contract S n F sinv desc" "sinv s" "k \<le> length (slv_getAssumption S s)"
  shows "sinv (slv_popAssumption S s k)"
    "slv_getAssumption S (slv_popAssumption S s k) =
       take (length (slv_getAssumption S s) - k) (slv_getAssumption S s)"
    "desc s0 s \<Longrightarrow> length (slv_getAssumption S s0) + k \<le> length (slv_getAssumption S s) \<Longrightarrow>
       desc s0 (slv_popAssumption S s k)"
proof -
  have "pop_law S sinv desc" using assms(1) by (simp add: solver_contract_def)
  with assms(2-) show "sinv (slv_popAssumption S s k)"
    "slv_getAssumption S (slv_popAssumption S s k) =
       take (length (slv_getAssumption S s) - k) (slv_getAssumption S s)"
    "desc s0 s \<Longrightarrow> length (slv_getAssumption S s0) + k \<le> length (slv_getAssumption S s) \<Longrightarrow>
       desc s0 (slv_popAssumption S s k)"
    unfolding pop_law_def by blast+
qed

lemma solver_solve:
  assumes "solver_contract S n F sinv desc" "sinv s" "slv_solve S s V = (b, s')"
    "solve_pre S n F desc s V"
  shows "sinv s'" "slv_getAssumption S s' = slv_getAssumption S s" "desc s0 s \<Longrightarrow> desc s0 s'"
    "b \<longleftrightarrow> sat (fml F (slv_getAssumption S s))" "b \<Longrightarrow> solved S F desc s s'"
proof -
  have "solve_law S n F sinv desc" using assms(1) by (simp add: solver_contract_def)
  with assms(2-) show "sinv s'" "slv_getAssumption S s' = slv_getAssumption S s"
    "desc s0 s \<Longrightarrow> desc s0 s'" "b \<longleftrightarrow> sat (fml F (slv_getAssumption S s))"
    "b \<Longrightarrow> solved S F desc s s'"
    unfolding solve_law_def by blast+
qed

lemma solver_solveAll:
  assumes "solver_contract S n F sinv desc" "sinv s" "slv_solveAll S s = (b, s')"
  shows "sinv s'" "slv_getAssumption S s' = slv_getAssumption S s"
    "b \<longleftrightarrow> sat (fml F (slv_getAssumption S s))"
proof -
  have "solveAll_law S F sinv" using assms(1) by (simp add: solver_contract_def)
  with assms(2-) show "sinv s'" "slv_getAssumption S s' = slv_getAssumption S s"
    "b \<longleftrightarrow> sat (fml F (slv_getAssumption S s))"
    unfolding solveAll_law_def by blast+
qed

lemma solver_restart:
  assumes "solver_contract S n F sinv desc" "sinv s"
  shows "sinv (slv_restart S s)" "slv_getAssumption S (slv_restart S s) = slv_getAssumption S s"
  using assms by (simp_all add: solver_contract_def restart_law_def)

lemma solver_decay:
  assumes "solver_contract S n F sinv desc" "sinv s"
  shows "sinv (slv_decayCountConflict S s)"
    "slv_getAssumption S (slv_decayCountConflict S s) = slv_getAssumption S s"
    "desc s0 s \<Longrightarrow> desc s0 (slv_decayCountConflict S s)"
  using assms by (simp_all add: solver_contract_def decay_law_def)

text \<open>The units collected after a successful call.\<close>

lemma whichAreUnits_filter:
  assumes "lit_own S"
  shows "set (whichAreUnits S s V) = {l \<in> asg S s. var l \<in> set V}"
    "distinct V \<Longrightarrow> distinct (map var (whichAreUnits S s V))"
proof -
  have eq: "(slv_litAssigned S s v = Some l) = (l \<in> asg S s \<and> var l = v)" for v l
    using assms by (auto simp: asg_def lit_own_def)
  show s: "set (whichAreUnits S s V) = {l \<in> asg S s. var l \<in> set V}" for V
  proof (induction V)
    case (Cons v V)
    show ?case
    proof (cases "slv_litAssigned S s v")
      case None
      then have "\<not> (l \<in> asg S s \<and> var l = v)" for l using eq by (metis option.distinct(1))
      with None Cons show ?thesis by auto
    next
      case (Some l)
      then have "l \<in> asg S s" "var l = v" using eq by auto
      moreover have "k = l" if "k \<in> asg S s" "var k = v" for k
        using that eq [of v k] Some by simp
      ultimately have "{k \<in> asg S s. var k \<in> set (v # V)} = insert l {k \<in> asg S s. var k \<in> set V}"
        unfolding set_simps by blast
      with Some Cons show ?thesis by simp
    qed
  qed simp
  show "distinct V \<Longrightarrow> distinct (map var (whichAreUnits S s V))"
  proof (induction V)
    case (Cons v V)
    then have IH: "distinct (map var (whichAreUnits S s V))" "v \<notin> set V" by auto
    have "v \<notin> var ` set (whichAreUnits S s V)" using s [of V] IH(2) by blast
    moreover have "var l = v" if "slv_litAssigned S s v = Some l" for l using eq that by simp
    ultimately show ?case using IH(1) by (simp split: option.split)
  qed simp
qed

lemma asg_inj:
  assumes "l \<in> asg S s" "k \<in> asg S s" "var l = var k"
  shows "l = k"
proof -
  have "Some l = slv_litAssigned S s (var l)" using assms(1) unfolding asg_def mem_Collect_eq by (rule sym)
  also have "\<dots> = slv_litAssigned S s (var k)" by (rule arg_cong [OF assms(3)])
  also have "\<dots> = Some k" using assms(2) unfolding asg_def mem_Collect_eq .
  finally show ?thesis by (rule option.inject [THEN iffD1])
qed

section \<open>The contracts of the components\<close>

locale formula_manager =
  fixes FM :: "'f fm_if" and n :: nat and F :: cnf and fm_inv :: "'f \<Rightarrow> lit list list \<Rightarrow> bool"
  assumes fm_cnf_ok: "fm_inv f stk \<Longrightarrow> cnf_ok n F"
    and fm_trail: "fm_inv f stk \<Longrightarrow> trail_ok n (concat stk)"
    and fm_pre: "fm_inv f stk \<Longrightarrow> trail_ok n (us @ concat stk) \<Longrightarrow> fm_preUpdate FM f us = (us', f') \<Longrightarrow>
      us' = us \<and> fm_inv f' (us # stk)"
    and fm_post: "fm_inv f (us # stk) \<Longrightarrow> fm_inv (fm_postUpdate FM f us) stk"
    and fm_comps: "fm_inv f stk \<Longrightarrow> distinct S \<Longrightarrow> \<forall>v\<in>set S. 1 \<le> v \<and> v \<le> n \<Longrightarrow>
      closed F (set (concat stk)) (set S) \<Longrightarrow>
      fm_components FM f S = ((cs, fs), f') \<Longrightarrow>
      fm_inv f' stk \<and> comps_ok F (set (concat stk)) S cs fs"
    and fm_trivial: "fm_inv f stk \<Longrightarrow> distinct S \<Longrightarrow> \<forall>v\<in>set S. 1 \<le> v \<and> v \<le> n \<Longrightarrow>
      closed F (set (concat stk)) (set S) \<Longrightarrow>
      fm_trivialComponents FM f S = ((cs, fs), f') \<Longrightarrow>
      fm_inv f' stk \<and> comps_ok F (set (concat stk)) S cs fs"

text \<open>
  An operation gives each result a value and keeps the values of the results made before. The
  branches handed to it have their units and free variables among the decision variables.
\<close>

definition branch_ok :: "nat \<Rightarrow> var set \<Rightarrow> 'u DataBranch \<Rightarrow> bool" where
  "branch_ok n P b \<longleftrightarrow>
     (\<forall>l\<in>set (unitLits b). var l \<in> P \<and> 1 \<le> var l \<and> var l \<le> n) \<and> distinct (map var (unitLits b))
     \<and> (\<forall>v\<in>set (freeVars b). v \<in> P \<and> 1 \<le> v \<and> v \<le> n) \<and> distinct (freeVars b)
     \<and> var ` set (unitLits b) \<inter> set (freeVars b) = {}"

locale operation =
  fixes OP :: "('o, 's, 'a::comm_semiring_1, 'u) operation_if" and n :: nat and P :: "var set"
    and w :: "'a weight" and op_inv :: "'o \<Rightarrow> bool" and le :: "'o \<Rightarrow> 'o \<Rightarrow> bool"
    and valid :: "'o \<Rightarrow> 'u \<Rightarrow> bool" and val :: "'o \<Rightarrow> 'u \<Rightarrow> 'a"
  assumes le_refl: "le x x"
    and le_trans: "le x y \<Longrightarrow> le y z \<Longrightarrow> le x z"
    and le_val: "op_inv x \<Longrightarrow> le x y \<Longrightarrow> valid x u \<Longrightarrow> valid y u \<and> val y u = val x u"
    and op_top: "op_inv x \<Longrightarrow> op_createTop OP x = (u, y) \<Longrightarrow>
      op_inv y \<and> le x y \<and> valid y u \<and> val y u = 1"
    and op_bottom: "op_inv x \<Longrightarrow> op_manageBottom OP x = (u, y) \<Longrightarrow>
      op_inv y \<and> le x y \<and> valid y u \<and> val y u = 0"
    and op_mtop: "op_inv x \<Longrightarrow> distinct C \<Longrightarrow> \<forall>v\<in>set C. 1 \<le> v \<and> v \<le> n \<and> v \<notin> P \<Longrightarrow>
      op_manageTop OP x s C = (u, y) \<Longrightarrow>
      op_inv y \<and> le x y \<and> valid y u \<and> val y u = 1"
    and op_or: "op_inv x \<Longrightarrow> bs \<noteq> [] \<Longrightarrow> \<forall>b\<in>set bs. valid x (d b) \<and> branch_ok n P b \<Longrightarrow>
      op_manageDeterministicOr OP x bs = (u, y) \<Longrightarrow>
      op_inv y \<and> le x y \<and> valid y u \<and>
      val y u = sum_list (map (\<lambda>b. val x (d b) * branch_weight w P (unitLits b) (freeVars b)) bs)"
    and op_and: "op_inv x \<Longrightarrow> us \<noteq> [] \<Longrightarrow> length us \<le> n \<Longrightarrow> \<forall>u\<in>set us. valid x u \<Longrightarrow>
      op_manageDecomposableAnd OP x us = (u, y) \<Longrightarrow>
      op_inv y \<and> le x y \<and> valid y u \<and> val y u = prod_list (map (val x) us)"
    and op_branch: "op_inv x \<Longrightarrow> valid x (d b) \<Longrightarrow> branch_ok n P b \<Longrightarrow>
      op_manageBranch OP x b = (u, y) \<Longrightarrow>
      op_inv y \<and> le x y \<and> valid y u \<and>
      val y u = val x (d b) * branch_weight w P (unitLits b) (freeVars b)"

locale counting_operation = operation +
  assumes op_cnt: "op_inv x \<Longrightarrow> valid x u \<Longrightarrow> op_count OP x u = (r, y) \<Longrightarrow>
      r = val x u \<and> op_inv y \<and> le x y"

text \<open>
  A cache is a partial map from keys to values; the key of a component determines its variables
  and its active clauses. \<open>c_inv G c\<close> is the invariant of a cache all of whose entries satisfy \<open>G\<close>.
\<close>

locale cache =
  fixes CA :: "('c, 'f, 'u) cache_if" and n :: nat and F :: cnf
    and fm_inv :: "'f \<Rightarrow> lit list list \<Rightarrow> bool"
    and key :: "'f \<Rightarrow> var list \<Rightarrow> 'k" and tmp_for :: "'u TmpEntry \<Rightarrow> 'k \<Rightarrow> bool"
    and c_inv :: "('k \<Rightarrow> 'u \<Rightarrow> bool) \<Rightarrow> 'c \<Rightarrow> bool"
  assumes ca_search: "c_inv G c \<Longrightarrow> fm_inv f stk \<Longrightarrow> comp_ctx n F (concat stk) C \<Longrightarrow>
      ca_searchInCache CA c f C = (cb, c') \<Longrightarrow>
      c_inv G c' \<and> (if tmp_defined cb then fc (tmp_e cb) \<noteq> None \<and> G (key f C) (the (fc (tmp_e cb)))
                    else tmp_for cb (key f C))"
    and ca_add: "c_inv G c \<Longrightarrow> tmp_for cb k \<Longrightarrow> G k u \<Longrightarrow> c_inv G (ca_addInCache CA c cb u)"
    and ca_mono: "c_inv G c \<Longrightarrow> (\<And>k u. G k u \<Longrightarrow> G' k u) \<Longrightarrow> c_inv G' c"
    and ca_key: "fm_inv f stk \<Longrightarrow> fm_inv f' stk' \<Longrightarrow> comp_ctx n F (concat stk) C \<Longrightarrow>
      comp_ctx n F (concat stk') C' \<Longrightarrow> key f C = key f' C' \<Longrightarrow>
      C = C' \<and> active F (set (concat stk)) (set C) = active F (set (concat stk')) (set C)"

locale heuristic =
  fixes H :: "('h, 's, 'f) heuristic_if" and S :: "'s solver_if" and n :: nat and F :: cnf
    and P :: "var set" and fm_inv :: "'f \<Rightarrow> lit list list \<Rightarrow> bool" and h_inv :: "'h \<Rightarrow> bool"
  assumes heu_select: "h_inv h \<Longrightarrow> fm_inv f stk \<Longrightarrow> comp_ctx n F (concat stk) C \<Longrightarrow>
      heu_selectLitSet H h s f C = (lits, h', s') \<Longrightarrow>
      h_inv h' \<and> (s' = s \<or> s' = slv_decayCountConflict S s) \<and> distinct (map var lits)
      \<and> var ` set lits \<subseteq> set C \<inter> P \<and> (lits = [] \<longrightarrow> set C \<inter> P = {})"

end
