(* ===== verification/Dpll.thy ===== *)
theory Dpll
  imports Interfaces
begin

text \<open>
  The counting and compilation method of \<^verbatim>\<open>src/src/methods/DpllStyleMethod.hpp\<close>: the state of a
  \<^verbatim>\<open>DpllStyleMethod\<close> object, the recursive pair \<^verbatim>\<open>compute_\<close> and \<^verbatim>\<open>computeDecisionNode\<close>, and the
  entry points \<^verbatim>\<open>compute\<close>, \<^verbatim>\<open>count\<close> and \<^verbatim>\<open>run\<close>. The fields that the constructor sets once are
  in the record \<open>dpll_env\<close>, with the virtual functions of the objects the method uses.

  The recursion is bounded by a fuel argument of \<open>compute_rec\<close>; None is running out of fuel.
  \<open>DpllCorrect\<close> shows how much is enough.
\<close>

record ('s, 'f, 'h, 'c, 'o, 'a, 'u) dpll_env =
  e_solver :: "'s solver_if"
  e_specs :: "'f fm_if"
  e_heuristic :: "('h, 's, 'f) heuristic_if"
  e_cache :: "('c, 'f, 'u) cache_if"
  e_operation :: "('o, 's, 'a, 'u) operation_if"
  e_problem :: "'a problem"
  e_isProjectedMode :: bool
  e_skolemize :: bool
  e_optCached :: bool
  e_isDecisionVariable :: "bool list"

record ('s, 'f, 'h, 'c, 'o) dpll =
  m_nbCallCall :: "32 word"
  m_nbSplit :: "32 word"
  m_nbDecisionNode :: "32 word"
  m_connectedComponent :: bool
  m_lastNbSplit :: "32 word"
  m_nbFailedIncreased :: "32 word"
  m_stampIdx :: "32 word"
  m_stampVar :: "32 word list"
  m_solver :: 's
  m_specs :: 'f
  m_heuristic :: 'h
  m_cache :: 'c
  m_operation :: 'o

text \<open>The decision variables, as the constructor marks them.\<close>

definition initIsDecisionVariable :: "'a problem \<Rightarrow> bool list" where
  "initIsDecisionVariable p =
     foldl (\<lambda>m v. m[v := True]) (replicate (m_nbVar p + 1) (getNbSelectedVar p = 0)) (m_selected p)"

definition expelNoDecisionVar :: "('s, 'f, 'h, 'c, 'o, 'a, 'u) dpll_env \<Rightarrow> var list \<Rightarrow> var list" where
  "expelNoDecisionVar E vars =
     (if \<not> e_isProjectedMode E then vars else filter (\<lambda>v. e_isDecisionVariable E ! v) vars)"

definition expelNoDecisionLit :: "('s, 'f, 'h, 'c, 'o, 'a, 'u) dpll_env \<Rightarrow> lit list \<Rightarrow> lit list" where
  "expelNoDecisionLit E lits =
     (if \<not> e_isProjectedMode E then lits
      else if e_skolemize E then lits
      else filter (\<lambda>l. e_isDecisionVariable E ! var l) lits)"

definition stampVars :: "('s, 'f, 'h, 'c, 'o) dpll \<Rightarrow> var list \<Rightarrow> ('s, 'f, 'h, 'c, 'o) dpll" where
  "stampVars st vs =
     (let idx = m_stampIdx st + 1
      in st\<lparr>m_stampIdx := idx, m_stampVar := foldl (\<lambda>m v. m[v := idx]) (m_stampVar st) vs\<rparr>)"

definition computePrioritySubSet ::
  "('s, 'f, 'h, 'c, 'o, 'a, 'u) dpll_env \<Rightarrow> ('s, 'f, 'h, 'c, 'o) dpll \<Rightarrow> var list \<Rightarrow> var list
     \<Rightarrow> var list \<times> ('s, 'f, 'h, 'c, 'o) dpll" where
  "computePrioritySubSet E st connected priorityVar =
     (let st' = stampVars st connected
      in (filter (\<lambda>v. m_stampVar st' ! v = m_stampIdx st'
                    \<and> \<not> fm_varIsAssigned (e_specs E) (m_specs st') v) priorityVar, st'))"

definition cacheIsActivated ::
  "('s, 'f, 'h, 'c, 'o, 'a, 'u) dpll_env \<Rightarrow> ('s, 'f, 'h, 'c, 'o) dpll \<Rightarrow> var list \<Rightarrow> bool" where
  "cacheIsActivated E st connected =
     (if \<not> e_optCached E then False else ca_isActivated (e_cache E) (m_cache st) (length connected))"

text \<open>
  \<^verbatim>\<open>computeConnectedComponent\<close>: the search for components is switched off when it has not split
  the formula for long, and tried again now and then.
\<close>

definition updateSplitWatch :: "('s, 'f, 'h, 'c, 'o) dpll \<Rightarrow> ('s, 'f, 'h, 'c, 'o) dpll" where
  "updateSplitWatch st =
     (if m_connectedComponent st \<and> m_nbCallCall st mod 10000 = 0
      then let st' = (if m_lastNbSplit st = m_nbSplit st
                      then st\<lparr>m_nbFailedIncreased := m_nbFailedIncreased st + 1\<rparr>
                      else st\<lparr>m_nbFailedIncreased := 0, m_lastNbSplit := m_nbSplit st\<rparr>)
           in st'\<lparr>m_connectedComponent := m_nbFailedIncreased st' < 11\<rparr>
      else st)"

definition computeConnectedComponent ::
  "('s, 'f, 'h, 'c, 'o, 'a, 'u) dpll_env \<Rightarrow> ('s, 'f, 'h, 'c, 'o) dpll \<Rightarrow> var list
     \<Rightarrow> (var list list \<times> var list) \<times> ('s, 'f, 'h, 'c, 'o) dpll" where
  "computeConnectedComponent E st0 setOfVar =
     (let st = updateSplitWatch st0
      in if m_connectedComponent st \<or> m_nbCallCall st mod 500 = 0
         then let (r, f) = fm_components (e_specs E) (m_specs st) setOfVar;
                  st' = st\<lparr>m_specs := f\<rparr>
              in (r, if length (fst r) > 1 \<and> \<not> m_connectedComponent st'
                     then st'\<lparr>m_nbFailedIncreased := 0, m_connectedComponent := True\<rparr> else st')
         else let (r, f) = fm_trivialComponents (e_specs E) (m_specs st) setOfVar
              in (r, st\<lparr>m_specs := f\<rparr>))"

text \<open>
  The loop of \<^verbatim>\<open>compute_\<close> over the connected components: a component found in the cache gives the
  stored value, any other is handed to \<^verbatim>\<open>computeDecisionNode\<close> (the argument \<open>decide\<close>) and stored.
\<close>

primrec componentLoop ::
  "('s, 'f, 'h, 'c, 'o, 'a, 'u) dpll_env
     \<Rightarrow> (('s, 'f, 'h, 'c, 'o) dpll \<Rightarrow> var list \<Rightarrow> ('u \<times> ('s, 'f, 'h, 'c, 'o) dpll) option)
     \<Rightarrow> var list list \<Rightarrow> ('s, 'f, 'h, 'c, 'o) dpll \<Rightarrow> ('u list \<times> ('s, 'f, 'h, 'c, 'o) dpll) option" where
  "componentLoop E decide [] st = Some ([], st)"
| "componentLoop E decide (connected # rest) st =
     (let act = cacheIsActivated E st connected;
          (cb, c) = (if act then ca_searchInCache (e_cache E) (m_cache st) (m_specs st) connected
                     else (\<lparr>tmp_e = \<lparr>bptr = (0, 0), bdata = [], info1 = 0, fc = None\<rparr>, tmp_hashValue = 0,
                            tmp_defined = False\<rparr>, m_cache st));
          st1 = st\<lparr>m_cache := c\<rparr>
      in if act \<and> tmp_defined cb
         then map_option (\<lambda>(tab, st'). (the (fc (tmp_e cb)) # tab, st')) (componentLoop E decide rest st1)
         else Option.bind (decide st1 connected) (\<lambda>(u, st2).
           let st3 = (if act then st2\<lparr>m_cache := ca_addInCache (e_cache E) (m_cache st2) cb u\<rparr> else st2)
           in map_option (\<lambda>(tab, st'). (u # tab, st')) (componentLoop E decide rest st3)))"

text \<open>The body of \<^verbatim>\<open>compute_\<close>; \<^verbatim>\<open>m_nbCallCall\<close> is incremented twice, as the code does.\<close>

definition compute_body ::
  "('s, 'f, 'h, 'c, 'o, 'a, 'u) dpll_env
     \<Rightarrow> (('s, 'f, 'h, 'c, 'o) dpll \<Rightarrow> var list \<Rightarrow> ('u \<times> ('s, 'f, 'h, 'c, 'o) dpll) option)
     \<Rightarrow> ('s, 'f, 'h, 'c, 'o) dpll \<Rightarrow> var list \<Rightarrow> ('u DataBranch \<times> ('s, 'f, 'h, 'c, 'o) dpll) option" where
  "compute_body E decide st0 setOfVar =
     (let st1 = st0\<lparr>m_nbCallCall := m_nbCallCall st0 + 1 + 1\<rparr>;
          (isSat, s) = slv_solve (e_solver E) (m_solver st1) setOfVar;
          st2 = st1\<lparr>m_solver := s\<rparr>
      in if \<not> isSat
         then let (u, ops) = op_manageBottom (e_operation E) (m_operation st2)
              in Some (\<lparr>d = u, unitLits = [], freeVars = []\<rparr>, st2\<lparr>m_operation := ops\<rparr>)
         else
           let units = whichAreUnits (e_solver E) s setOfVar;
               (unitsLit, f) = fm_preUpdate (e_specs E) (m_specs st2) units;
               ((varConnected, free), st3) =
                 computeConnectedComponent E (st2\<lparr>m_specs := f\<rparr>) setOfVar;
               freeVariable = expelNoDecisionVar E free;
               nbComponent = length varConnected
           in if nbComponent \<noteq> 0
              then
                Option.bind
                  (componentLoop E decide varConnected
                     (st3\<lparr>m_nbSplit := m_nbSplit st3
                            + (if nbComponent > 1 then of_nat nbComponent else 0)\<rparr>))
                  (\<lambda>(tab, st4).
                    let st5 = st4\<lparr>m_specs := fm_postUpdate (e_specs E) (m_specs st4) unitsLit\<rparr>;
                        (u, ops) = op_manageDecomposableAnd (e_operation E) (m_operation st5) tab
                    in Some (\<lparr>d = u, unitLits = expelNoDecisionLit E unitsLit,
                              freeVars = freeVariable\<rparr>, st5\<lparr>m_operation := ops\<rparr>))
              else
                let st5 = st3\<lparr>m_specs := fm_postUpdate (e_specs E) (m_specs st3) unitsLit\<rparr>;
                    (u, ops) = op_createTop (e_operation E) (m_operation st5)
                in Some (\<lparr>d = u, unitLits = expelNoDecisionLit E unitsLit,
                          freeVars = freeVariable\<rparr>, st5\<lparr>m_operation := ops\<rparr>))"

text \<open>
  The loop of \<^verbatim>\<open>computeDecisionNode\<close> over the selected literals: branch \<open>i\<close> assumes the negation
  of the earlier literals and, but for the last branch, literal \<open>i\<close>. The argument \<open>prev\<close> is the
  literal of the previous branch, whose assumption is replaced by its negation; with more than one
  literal the loop stops when the negations alone are unsatisfiable.
\<close>

definition enterBranch ::
  "('s, 'f, 'h, 'c, 'o, 'a, 'u) dpll_env \<Rightarrow> nat \<Rightarrow> lit option \<Rightarrow> var list
     \<Rightarrow> ('s, 'f, 'h, 'c, 'o) dpll \<Rightarrow> bool \<times> ('s, 'f, 'h, 'c, 'o) dpll" where
  "enterBranch E nbLits prev connected st =
     (case prev of
        None \<Rightarrow> (True, st)
      | Some l \<Rightarrow>
          let s = slv_pushAssumption (e_solver E) (slv_popAssumption (e_solver E) (m_solver st) 1) (neg l)
          in if nbLits > 1
             then let (isSat, s') = slv_solve (e_solver E) s connected in (isSat, st\<lparr>m_solver := s'\<rparr>)
             else (True, st\<lparr>m_solver := s\<rparr>))"

primrec branchLoop ::
  "('s, 'f, 'h, 'c, 'o, 'a, 'u) dpll_env
     \<Rightarrow> (('s, 'f, 'h, 'c, 'o) dpll \<Rightarrow> var list \<Rightarrow> ('u DataBranch \<times> ('s, 'f, 'h, 'c, 'o) dpll) option)
     \<Rightarrow> var list \<Rightarrow> nat \<Rightarrow> lit list \<Rightarrow> lit option \<Rightarrow> ('s, 'f, 'h, 'c, 'o) dpll
     \<Rightarrow> ('u DataBranch list \<times> ('s, 'f, 'h, 'c, 'o) dpll) option" where
  "branchLoop E rec connected nbLits [] prev st =
     (let (go, st1) = enterBranch E nbLits prev connected st
      in if \<not> go then Some ([], st1)
         else Option.bind (rec st1 connected) (\<lambda>(b, st2). Some ([b], st2)))"
| "branchLoop E rec connected nbLits (l # lits) prev st =
     (let (go, st1) = enterBranch E nbLits prev connected st
      in if \<not> go then Some ([], st1)
         else
           let st2 = st1\<lparr>m_solver := slv_pushAssumption (e_solver E) (m_solver st1) l\<rparr>
           in Option.bind (rec st2 connected) (\<lambda>(b, st3).
                map_option (\<lambda>(bs, st4). (b # bs, st4))
                  (branchLoop E rec connected nbLits lits (Some l) st3)))"

definition computeDecisionNode ::
  "('s, 'f, 'h, 'c, 'o, 'a, 'u) dpll_env
     \<Rightarrow> (('s, 'f, 'h, 'c, 'o) dpll \<Rightarrow> var list \<Rightarrow> ('u DataBranch \<times> ('s, 'f, 'h, 'c, 'o) dpll) option)
     \<Rightarrow> ('s, 'f, 'h, 'c, 'o) dpll \<Rightarrow> var list \<Rightarrow> ('u \<times> ('s, 'f, 'h, 'c, 'o) dpll) option" where
  "computeDecisionNode E rec st0 connected =
     (let (lits, h, s) = heu_selectLitSet (e_heuristic E) (m_heuristic st0) (m_solver st0)
                           (m_specs st0) connected;
          st1 = st0\<lparr>m_heuristic := h, m_solver := s\<rparr>
      in if lits = []
         then
           if e_skolemize E
           then let (u, ops, s') = op_manageSolution (e_operation E) (m_operation st1) (m_solver st1) connected
                in Some (u, st1\<lparr>m_operation := ops, m_solver := s'\<rparr>)
           else let (u, ops) = op_manageTop (e_operation E) (m_operation st1) (m_solver st1) connected
                in Some (u, st1\<lparr>m_operation := ops\<rparr>)
         else
           let st2 = st1\<lparr>m_nbDecisionNode := m_nbDecisionNode st1 + 1\<rparr>;
               sizeAssum = sizeAssumption (e_solver E) (m_solver st2)
           in Option.bind (branchLoop E rec connected (length lits) lits None st2) (\<lambda>(bs, st3).
                let st4 = st3\<lparr>m_solver := slv_popAssumption (e_solver E) (m_solver st3)
                                (sizeAssumption (e_solver E) (m_solver st3) - sizeAssum)\<rparr>;
                    (u, ops) = op_manageDeterministicOr (e_operation E) (m_operation st4) bs
                in Some (u, st4\<lparr>m_operation := ops\<rparr>)))"

fun compute_rec ::
  "('s, 'f, 'h, 'c, 'o, 'a, 'u) dpll_env \<Rightarrow> nat \<Rightarrow> ('s, 'f, 'h, 'c, 'o) dpll \<Rightarrow> var list
     \<Rightarrow> ('u DataBranch \<times> ('s, 'f, 'h, 'c, 'o) dpll) option" where
  "compute_rec E 0 st setOfVar = None"
| "compute_rec E (Suc fuel) st setOfVar =
     compute_body E (computeDecisionNode E (compute_rec E fuel)) st setOfVar"

text \<open>
  \<^verbatim>\<open>WrapperSolver::warmStart\<close>: a satisfiability test, then random queries whose answers are only
  counted. \<open>rnd\<close> is the sequence of values of \<^verbatim>\<open>rand()\<close>, used from position \<open>k\<close> on.
\<close>

fun randomQuery :: "(nat \<Rightarrow> nat) \<Rightarrow> nat \<Rightarrow> nat \<Rightarrow> var list \<Rightarrow> lit list \<Rightarrow> lit list \<times> nat" where
  "randomQuery rnd 0 k setOfVar query = (query, k)"
| "randomQuery rnd (Suc i) k setOfVar query =
     (let l = makeLit (setOfVar ! (rnd k mod length setOfVar)) (rnd (k + 1) AND 1 = 1);
          query' = (if list_ex (\<lambda>q. var l = var q) query then query else query @ [l])
      in randomQuery rnd i (k + 2) setOfVar query')"

fun warmStartLoop ::
  "'s solver_if \<Rightarrow> (nat \<Rightarrow> nat) \<Rightarrow> nat \<Rightarrow> nat \<Rightarrow> nat \<Rightarrow> var list \<Rightarrow> nat \<Rightarrow> 's \<Rightarrow> nat \<times> 's" where
  "warmStartLoop S rnd 0 sizeQuery k setOfVar nbSAT s = (nbSAT, s)"
| "warmStartLoop S rnd (Suc i) sizeQuery k setOfVar nbSAT s =
     (let (query, k') = randomQuery rnd sizeQuery k setOfVar [];
          (res, s') = slv_solveAll S (setAssumption S s query)
      in warmStartLoop S rnd i sizeQuery k' setOfVar (if res then nbSAT + 1 else nbSAT)
           (slv_restart S s'))"

definition warmStart ::
  "'s solver_if \<Rightarrow> (nat \<Rightarrow> nat) \<Rightarrow> nat \<Rightarrow> nat \<Rightarrow> var list \<Rightarrow> 's \<Rightarrow> bool \<times> 's" where
  "warmStart S rnd iteration sizeQuery setOfVar s =
     (let (isSat, s1) = slv_solveAll S s
      in if \<not> isSat then (False, s1)
         else let (nbSAT, s2) = warmStartLoop S rnd iteration sizeQuery 0 setOfVar 0 s1
              in (True, slv_restart S (setAssumption S s2 [])))"

text \<open>\<^verbatim>\<open>compute\<close>, with the fuel of the recursion.\<close>

definition compute ::
  "('s, 'f, 'h, 'c, 'o, 'a, 'u) dpll_env \<Rightarrow> (nat \<Rightarrow> nat) \<Rightarrow> nat \<Rightarrow> bool
     \<Rightarrow> ('s, 'f, 'h, 'c, 'o) dpll \<Rightarrow> var list \<Rightarrow> ('u \<times> ('s, 'f, 'h, 'c, 'o) dpll) option" where
  "compute E rnd fuel warm st setOfVar =
     (let decisionVar = filter (\<lambda>v. e_isDecisionVariable E ! v) setOfVar
      in if m_isUnsat (e_problem E)
         then let (u, ops) = op_manageBottom (e_operation E) (m_operation st)
              in Some (u, st\<lparr>m_operation := ops\<rparr>)
         else
           let (isSat, s) = (if warm then warmStart (e_solver E) rnd 29 11 decisionVar (m_solver st)
                             else (True, m_solver st));
               st1 = st\<lparr>m_solver := s\<rparr>
           in if \<not> isSat
              then let (u, ops) = op_manageBottom (e_operation E) (m_operation st1)
                   in Some (u, st1\<lparr>m_operation := ops\<rparr>)
              else Option.bind (compute_rec E fuel st1 setOfVar) (\<lambda>(b, st2).
                     let (u, ops) = op_manageBranch (e_operation E) (m_operation st2) b
                     in Some (u, st2\<lparr>m_operation := ops\<rparr>)))"

text \<open>\<^verbatim>\<open>count\<close>: counting under an assumption, and \<^verbatim>\<open>run\<close>.\<close>

definition initAssumption :: "'s solver_if \<Rightarrow> 's \<Rightarrow> lit list \<Rightarrow> 's" where
  "initAssumption S s assums =
     (let s1 = slv_restart S s;
          s2 = slv_popAssumption S s1 (length (slv_getAssumption S s1))
      in setAssumption S s2 assums)"

definition count ::
  "('s, 'f, 'h, 'c, 'o, 'a, 'u) dpll_env \<Rightarrow> (nat \<Rightarrow> nat) \<Rightarrow> nat
     \<Rightarrow> ('s, 'f, 'h, 'c, 'o) dpll \<Rightarrow> var list \<Rightarrow> lit list \<Rightarrow> ('a \<times> ('s, 'f, 'h, 'c, 'o) dpll) option" where
  "count E rnd fuel st0 setOfVar assumption =
     (let st1 = stampVars (st0\<lparr>m_solver := initAssumption (e_solver E) (m_solver st0) assumption\<rparr>) setOfVar;
          shadow = filter (\<lambda>l. m_stampVar st1 ! var l \<noteq> m_stampIdx st1) assumption;
          (shadowUnits, f) = fm_preUpdate (e_specs E) (m_specs st1) shadow
      in Option.bind (compute E rnd fuel False (st1\<lparr>m_specs := f\<rparr>) setOfVar) (\<lambda>(u, st2).
           let st3 = st2\<lparr>m_specs := fm_postUpdate (e_specs E) (m_specs st2) shadowUnits\<rparr>;
               (r, ops) = op_count (e_operation E) (m_operation st3) u
           in Some (r, st3\<lparr>m_operation := ops\<rparr>)))"

definition run ::
  "('s, 'f, 'h, 'c, 'o, 'a, 'u) dpll_env \<Rightarrow> (nat \<Rightarrow> nat) \<Rightarrow> nat
     \<Rightarrow> ('s, 'f, 'h, 'c, 'o) dpll \<Rightarrow> ('u \<times> ('s, 'f, 'h, 'c, 'o) dpll) option" where
  "run E rnd fuel st = compute E rnd fuel True st [1 ..< m_nbVar (e_problem E) + 1]"

end
