(* ===== verification/DpllCorrect.thy ===== *)
theory DpllCorrect
  imports Contracts Dpll
begin

text \<open>
  The proof that the DPLL style method computes the weighted projected model count, inside a
  locale that gathers the contracts of the components. \<open>call_ok\<close> is the invariant of a call of
  \<^verbatim>\<open>compute_\<close> and \<open>node_ok\<close> that of a call of \<^verbatim>\<open>computeDecisionNode\<close>.
\<close>

locale dpll_parts =
  formula_manager "e_specs E" n F fm_inv +
  operation "e_operation E" n P w op_inv le valid val +
  cache "e_cache E" n F fm_inv key tmp_for c_inv +
  heuristic "e_heuristic E" "e_solver E" n F P fm_inv h_inv
  for E :: "('s, 'f, 'h, 'c, 'o, 'a::comm_semiring_1, 'u) dpll_env"
    and n F P w fm_inv op_inv le valid val
    and key :: "'f \<Rightarrow> var list \<Rightarrow> 'k" and tmp_for c_inv h_inv +
  assumes dec_var: "1 \<le> v \<Longrightarrow> v \<le> n \<Longrightarrow> e_isDecisionVariable E ! v \<longleftrightarrow> v \<in> P"
    and not_projected: "\<not> e_isProjectedMode E \<Longrightarrow> 1 \<le> v \<Longrightarrow> v \<le> n \<Longrightarrow> v \<in> P"
    and no_skolemize: "\<not> e_skolemize E"
begin

text \<open>What an entry of the cache means: every component with this key has this value.\<close>

definition entry_ok :: "'o \<Rightarrow> 'k \<Rightarrow> 'u \<Rightarrow> bool" where
  "entry_ok x k u \<longleftrightarrow> valid x u \<and>
     (\<forall>f stk C. fm_inv f stk \<longrightarrow> comp_ctx n F (concat stk) C \<longrightarrow> key f C = k \<longrightarrow>
        val x u = cval w P F (concat stk) C)"

definition st_ok :: "('s \<Rightarrow> bool) \<Rightarrow> lit list list \<Rightarrow> ('s, 'f, 'h, 'c, 'o) dpll \<Rightarrow> bool" where
  "st_ok sinv stk st \<longleftrightarrow> sinv (m_solver st) \<and> fm_inv (m_specs st) stk \<and> op_inv (m_operation st)
     \<and> h_inv (m_heuristic st) \<and> c_inv (entry_ok (m_operation st)) (m_cache st)"

definition step_ok :: "('s \<Rightarrow> bool) \<Rightarrow> ('s \<Rightarrow> 's \<Rightarrow> bool) \<Rightarrow> lit list list
    \<Rightarrow> ('s, 'f, 'h, 'c, 'o) dpll \<Rightarrow> ('s, 'f, 'h, 'c, 'o) dpll \<Rightarrow> bool" where
  "step_ok sinv desc stk st st' \<longleftrightarrow> st_ok sinv stk st'
     \<and> slv_getAssumption (e_solver E) (m_solver st') = slv_getAssumption (e_solver E) (m_solver st)
     \<and> (\<forall>s0. desc s0 (m_solver st) \<longrightarrow> desc s0 (m_solver st'))
     \<and> le (m_operation st) (m_operation st')"

definition trail_known :: "('s \<Rightarrow> 's \<Rightarrow> bool) \<Rightarrow> lit list \<Rightarrow> 's \<Rightarrow> bool" where
  "trail_known desc T s \<longleftrightarrow>
     (\<exists>U. known (e_solver E) desc s U \<and> set T \<subseteq> U \<union> set (slv_getAssumption (e_solver E) s))"

definition call_ok :: "('s \<Rightarrow> bool) \<Rightarrow> ('s \<Rightarrow> 's \<Rightarrow> bool) \<Rightarrow> lit list list
    \<Rightarrow> ('s, 'f, 'h, 'c, 'o) dpll \<Rightarrow> var list \<Rightarrow> bool" where
  "call_ok sinv desc stk st V \<longleftrightarrow>
     (let T = concat stk; t = slv_getAssumption (e_solver E) (m_solver st)
      in st_ok sinv stk st \<and> sorted V \<and> distinct V
         \<and> (\<forall>v\<in>set V. 1 \<le> v \<and> v \<le> n \<and> v \<notin> var ` set T)
         \<and> var ` set t \<subseteq> var ` set T \<union> set V
         \<and> (\<forall>s. fml F t s \<longrightarrow> lits_hold s T)
         \<and> trail_known desc T (m_solver st) \<and> closed F (set T) (set V) \<and> rest_sat F t (set V))"

definition node_ok :: "('s \<Rightarrow> bool) \<Rightarrow> ('s \<Rightarrow> 's \<Rightarrow> bool) \<Rightarrow> lit list list
    \<Rightarrow> ('s, 'f, 'h, 'c, 'o) dpll \<Rightarrow> var list \<Rightarrow> bool" where
  "node_ok sinv desc stk st C \<longleftrightarrow>
     (let T = concat stk; t = slv_getAssumption (e_solver E) (m_solver st)
      in st_ok sinv stk st \<and> comp_ctx n F T C \<and> sat (fml F t) \<and> (\<forall>s. fml F t s \<longrightarrow> lits_hold s T)
         \<and> var ` set t \<subseteq> var ` set T \<and> (\<exists>s0. desc s0 (m_solver st) \<and> set T \<subseteq> asg (e_solver E) s0))"

lemma st_ok_fields:
  assumes "st_ok sinv stk st"
  shows "sinv (m_solver st)" "fm_inv (m_specs st) stk" "op_inv (m_operation st)"
    "h_inv (m_heuristic st)" "c_inv (entry_ok (m_operation st)) (m_cache st)"
  using assms by (auto simp: st_ok_def)

lemma entry_ok_mono: "op_inv x \<Longrightarrow> le x y \<Longrightarrow> entry_ok x k u \<Longrightarrow> entry_ok y k u"
  unfolding entry_ok_def using le_val [of x y u] by auto

lemma c_inv_le: "op_inv x \<Longrightarrow> le x y \<Longrightarrow> c_inv (entry_ok x) c \<Longrightarrow> c_inv (entry_ok y) c"
  using ca_mono [of "entry_ok x" c "entry_ok y"] entry_ok_mono [of x y] by blast

lemma step_ok_refl: "st_ok sinv stk st \<Longrightarrow> step_ok sinv desc stk st st"
  by (simp add: step_ok_def le_refl)

lemma step_ok_trans:
  "step_ok sinv desc stk st st' \<Longrightarrow> step_ok sinv desc stk st' st'' \<Longrightarrow> step_ok sinv desc stk st st''"
  unfolding step_ok_def using le_trans by (metis (no_types, lifting))

lemma step_ok_st: "step_ok sinv desc stk st st' \<Longrightarrow> st_ok sinv stk st'"
  by (simp add: step_ok_def)

lemma step_val:
  assumes "step_ok sinv desc stk st st'" "st_ok sinv stk st" "valid (m_operation st) u"
  shows "valid (m_operation st') u" "val (m_operation st') u = val (m_operation st) u"
  using assms le_val [of "m_operation st" "m_operation st'" u] by (auto simp: step_ok_def st_ok_def)

text \<open>A value computed for a component makes a valid entry.\<close>

lemma entry_okI:
  assumes "fm_inv f stk" "comp_ctx n F (concat stk) C" "valid x u" "val x u = cval w P F (concat stk) C"
  shows "entry_ok x (key f C) u"
  unfolding entry_ok_def
proof (intro conjI allI impI)
  fix f' stk' C'
  assume *: "fm_inv f' stk'" "comp_ctx n F (concat stk') C'" "key f' C' = key f C"
  have "C = C'" "active F (set (concat stk)) (set C) = active F (set (concat stk')) (set C)"
    using ca_key [OF assms(1) *(1) assms(2) *(2) *(3) [symmetric]] by blast+
  then show "val x u = cval w P F (concat stk') C'"
    using assms(4) cval_cong [OF fm_trail [OF assms(1)] fm_trail [OF *(1)] assms(2)] *(2) by simp
qed (fact assms(3))

section \<open>The loop over the components\<close>

definition decide_spec where
  "decide_spec sinv desc bound decide \<longleftrightarrow>
     (\<forall>stk st C. node_ok sinv desc stk st C \<longrightarrow> length C \<le> bound \<longrightarrow>
        (\<exists>u st'. decide st C = Some (u, st') \<and> step_ok sinv desc stk st st'
           \<and> valid (m_operation st') u \<and> val (m_operation st') u = cval w P F (concat stk) C))"

lemma node_ok_ctx: "node_ok sinv desc stk st C \<Longrightarrow> comp_ctx n F (concat stk) C"
  by (simp add: node_ok_def Let_def)

lemma node_ok_step:
  assumes "node_ok sinv desc stk st C" "step_ok sinv desc stk st st'" "comp_ctx n F (concat stk) C'"
  shows "node_ok sinv desc stk st' C'"
  using assms unfolding node_ok_def Let_def step_ok_def by (metis (no_types, lifting))

lemma step_ok_cache:
  assumes "st_ok sinv stk st" "c_inv (entry_ok (m_operation st)) c"
  shows "step_ok sinv desc stk st (st\<lparr>m_cache := c\<rparr>)"
  using assms by (simp add: step_ok_def st_ok_def le_refl)

lemma componentLoop_ok:
  assumes dec: "decide_spec sinv desc bound decide"
    and "\<forall>C\<in>set cs. node_ok sinv desc stk st C \<and> length C \<le> bound" "st_ok sinv stk st"
  shows "\<exists>tab st'. componentLoop E decide cs st = Some (tab, st') \<and> step_ok sinv desc stk st st'
    \<and> length tab = length cs \<and> (\<forall>u\<in>set tab. valid (m_operation st') u)
    \<and> map (val (m_operation st')) tab = map (cval w P F (concat stk)) cs"
  using assms(2,3)
proof (induction cs arbitrary: st)
  case Nil
  then show ?case by (simp add: step_ok_refl)
next
  case (Cons C cs)
  note st = st_ok_fields [OF Cons.prems(2)]
  have node: "node_ok sinv desc stk st C" "length C \<le> bound" using Cons.prems(1) by auto
  then have ctx: "comp_ctx n F (concat stk) C" by (simp add: node_ok_def Let_def)
  define act where "act = cacheIsActivated E st C"
  obtain cb c where cb: "(if act then ca_searchInCache (e_cache E) (m_cache st) (m_specs st) C
       else (\<lparr>tmp_e = \<lparr>bptr = (0, 0), bdata = [], info1 = 0, fc = None\<rparr>, tmp_hashValue = 0, tmp_defined = False\<rparr>,
             m_cache st)) = (cb, c)" by fastforce
  have search: "c_inv (entry_ok (m_operation st)) c \<and> (act \<longrightarrow>
      (if tmp_defined cb then fc (tmp_e cb) \<noteq> None \<and> entry_ok (m_operation st) (key (m_specs st) C) (the (fc (tmp_e cb)))
       else tmp_for cb (key (m_specs st) C)))"
    using cb ca_search [OF st(5,2) ctx] st(5) by (cases act) auto
  let ?st1 = "st\<lparr>m_cache := c\<rparr>"
  have step1: "step_ok sinv desc stk st ?st1" using step_ok_cache Cons.prems(2) search by blast
  have IH: "\<exists>tab st'. componentLoop E decide cs st0 = Some (tab, st') \<and> step_ok sinv desc stk st0 st'
      \<and> length tab = length cs \<and> (\<forall>u\<in>set tab. valid (m_operation st') u)
      \<and> map (val (m_operation st')) tab = map (cval w P F (concat stk)) cs"
    if "step_ok sinv desc stk st st0" for st0
  proof (rule Cons.IH)
    show "\<forall>C\<in>set cs. node_ok sinv desc stk st0 C \<and> length C \<le> bound"
      using Cons.prems(1) node_ok_step [OF _ that] node_ok_ctx by (meson list.set_intros(2))
    show "st_ok sinv stk st0" using that by (rule step_ok_st)
  qed
  show ?case
  proof (cases "act \<and> tmp_defined cb")
    case True
    obtain tab st' where rest: "componentLoop E decide cs ?st1 = Some (tab, st')"
      "step_ok sinv desc stk ?st1 st'" "length tab = length cs" "\<forall>u\<in>set tab. valid (m_operation st') u"
      "map (val (m_operation st')) tab = map (cval w P F (concat stk)) cs"
      using IH [OF step1] by blast
    let ?u = "the (fc (tmp_e cb))"
    have u: "valid (m_operation st) ?u" "val (m_operation st) ?u = cval w P F (concat stk) C"
      using search True st(2) ctx unfolding entry_ok_def by auto
    have step: "step_ok sinv desc stk st st'" using step1 rest(2) by (rule step_ok_trans)
    show ?thesis
      using rest step step_val [OF step Cons.prems(2) u(1)] u(2) True cb
      by (auto simp: act_def Let_def)
  next
    case False
    have node1: "node_ok sinv desc stk ?st1 C" using node_ok_step [OF node(1) step1 ctx] .
    obtain u st2 where d: "decide ?st1 C = Some (u, st2)" "step_ok sinv desc stk ?st1 st2"
      "valid (m_operation st2) u" "val (m_operation st2) u = cval w P F (concat stk) C"
      using dec node1 node(2) unfolding decide_spec_def by blast
    define st3 where "st3 = (if act then st2\<lparr>m_cache := ca_addInCache (e_cache E) (m_cache st2) cb u\<rparr> else st2)"
    have st2: "st_ok sinv stk st2" using d(2) by (rule step_ok_st)
    have step2: "step_ok sinv desc stk st st2" using step1 d(2) by (rule step_ok_trans)
    have "step_ok sinv desc stk st2 st3"
    proof (cases act)
      case True
      have "entry_ok (m_operation st2) (key (m_specs st) C) u"
        by (rule entry_okI [OF st(2) ctx d(3,4)])
      then show ?thesis
        using True False search ca_add [OF st_ok_fields(5) [OF st2]] step_ok_cache [OF st2]
        by (auto simp: st3_def)
    qed (simp add: st3_def step_ok_refl st2)
    then have step3: "step_ok sinv desc stk st st3" using step2 step_ok_trans by blast
    obtain tab st' where rest: "componentLoop E decide cs st3 = Some (tab, st')"
      "step_ok sinv desc stk st3 st'" "length tab = length cs" "\<forall>u\<in>set tab. valid (m_operation st') u"
      "map (val (m_operation st')) tab = map (cval w P F (concat stk)) cs"
      using IH [OF step3] by blast
    have u: "valid (m_operation st') u" "val (m_operation st') u = cval w P F (concat stk) C"
      using step_val [OF rest(2) step_ok_st [OF step3]] d(3,4) by (auto simp: st3_def)
    have "componentLoop E decide (C # cs) st = Some (u # tab, st')"
      using False cb d(1) rest(1) unfolding componentLoop.simps act_def [symmetric] Let_def
      by (auto simp: st3_def)
    then show ?thesis
      using rest u step_ok_trans [OF step3 rest(2)] by auto
  qed
qed

section \<open>The branches of a decision node\<close>

definition branch_val :: "'o \<Rightarrow> 'u DataBranch \<Rightarrow> 'a" where
  "branch_val x b = val x (d b) * branch_weight w P (unitLits b) (freeVars b)"

definition rec_spec where
  "rec_spec sinv desc bound rec \<longleftrightarrow>
     (\<forall>stk st V. call_ok sinv desc stk st V \<longrightarrow>
        card (set V - var ` set (slv_getAssumption (e_solver E) (m_solver st))) < bound \<longrightarrow>
        (\<exists>b st'. rec st V = Some (b, st') \<and> step_ok sinv desc stk st st'
           \<and> valid (m_operation st') (d b) \<and> branch_ok n P b
           \<and> branch_val (m_operation st') b =
               pcount w P (fml F (slv_getAssumption (e_solver E) (m_solver st))) (set V)))"

text \<open>
  The situation inside a node for component \<open>C\<close>: \<open>t\<close> are the assumptions of the node, \<open>a\<close> the
  literals assumed on top of them.
\<close>

definition inner_ok where
  "inner_ok sinv desc stk C t sN st a \<longleftrightarrow> st_ok sinv stk st
     \<and> slv_getAssumption (e_solver E) (m_solver st) = t @ a
     \<and> (\<forall>s0. desc s0 sN \<longrightarrow> desc s0 (m_solver st))
     \<and> slv_getAssumption (e_solver E) sN = t
     \<and> comp_ctx n F (concat stk) C \<and> sat (fml F t) \<and> (\<forall>s. fml F t s \<longrightarrow> lits_hold s (concat stk))
     \<and> var ` set t \<subseteq> var ` set (concat stk)
     \<and> (\<exists>s0. desc s0 sN \<and> set (concat stk) \<subseteq> asg (e_solver E) s0)"

lemma node_inner:
  "node_ok sinv desc stk st C \<Longrightarrow>
     inner_ok sinv desc stk C (slv_getAssumption (e_solver E) (m_solver st)) (m_solver st) st []"
  by (simp add: node_ok_def inner_ok_def Let_def)

lemma rest_sat_extend:
  assumes "sat (fml F t)" "V \<inter> var ` set t = {}" "var ` set a \<subseteq> V" "distinct (map var a)"
  shows "rest_sat F (t @ a) V"
proof -
  obtain s where s: "fml F t s" using assms(1) by (auto simp: sat_def)
  have out: "assign_of a s v = s v" if "v \<notin> V" for v
    using that assms(3) by (auto simp: assign_of_def)
  have "lits_hold (assign_of a s) t"
    using s assms(2) out by (force simp: fml_def lits_hold_def lit_holds_def)
  moreover have "clause_holds (assign_of a s) c" if c: "c \<in> set F" "clause_vars c \<inter> V = {}" for c
  proof -
    have "clause_holds (assign_of a s) c = clause_holds s c"
      by (rule clause_holds_cong) (use c(2) out in blast)
    with s c(1) show ?thesis by (simp add: fml_def cnf_holds_def)
  qed
  ultimately show ?thesis
    unfolding rest_sat_def using lits_hold_assign_of [OF assms(4)]
    by (intro exI [of _ "assign_of a s"]) simp
qed

lemma inner_facts:
  assumes "inner_ok sinv desc stk C t sN st a" "var ` set a \<subseteq> set C" "distinct (map var a)"
  shows "rest_sat F (t @ a) (set C)" "set C \<inter> var ` set t = {}"
    "closed F (set (concat stk)) (set C)" "\<forall>v\<in>set C. 1 \<le> v \<and> v \<le> n"
proof -
  have ctx: "comp_ctx n F (concat stk) C" and sub: "var ` set t \<subseteq> var ` set (concat stk)"
    and sat: "sat (fml F t)" using assms(1) by (auto simp: inner_ok_def)
  show cl: "closed F (set (concat stk)) (set C)" "\<forall>v\<in>set C. 1 \<le> v \<and> v \<le> n"
    using ctx by (auto simp: comp_ctx_def)
  have "v \<notin> var ` set (concat stk)" if "v \<in> set C" for v using ctx that unfolding comp_ctx_def by blast
  then show dj: "set C \<inter> var ` set t = {}" using sub by blast
  show "rest_sat F (t @ a) (set C)" by (rule rest_sat_extend [OF sat dj assms(2,3)])
qed

lemma inner_call_ok:
  assumes "inner_ok sinv desc stk C t sN st a" "var ` set a \<subseteq> set C" "distinct (map var a)"
  shows "call_ok sinv desc stk st C"
proof -
  note f = inner_facts [OF assms]
  have i: "st_ok sinv stk st" "slv_getAssumption (e_solver E) (m_solver st) = t @ a"
    "comp_ctx n F (concat stk) C" "\<forall>s. fml F t s \<longrightarrow> lits_hold s (concat stk)"
    "var ` set t \<subseteq> var ` set (concat stk)"
    using assms(1) by (auto simp: inner_ok_def)
  obtain s0 where s0: "desc s0 (m_solver st)" "set (concat stk) \<subseteq> asg (e_solver E) s0"
    using assms(1) unfolding inner_ok_def by blast
  have tk: "trail_known desc (concat stk) (m_solver st)"
    unfolding trail_known_def known_def using s0 by blast
  have imp: "\<forall>s. fml F (t @ a) s \<longrightarrow> lits_hold s (concat stk)" using i(4) by (simp add: fml_def)
  have vars: "var ` set (t @ a) \<subseteq> var ` set (concat stk) \<union> set C" using i(5) assms(2) by auto
  have "\<forall>v\<in>set C. 1 \<le> v \<and> v \<le> n \<and> v \<notin> var ` set (concat stk)" "sorted C" "distinct C"
    using i(3) unfolding comp_ctx_def by blast+
  with f(1,3) i(1) tk imp vars show ?thesis unfolding call_ok_def Let_def i(2) by blast
qed

lemma inner_solve_pre:
  assumes "inner_ok sinv desc stk C t sN st a" "var ` set a \<subseteq> set C" "distinct (map var a)"
  shows "solve_pre (e_solver E) n F desc (m_solver st) C"
proof -
  note f = inner_facts [OF assms]
  obtain s0 where s0: "desc s0 (m_solver st)" "set (concat stk) \<subseteq> asg (e_solver E) s0"
    using assms(1) unfolding inner_ok_def by blast
  have "closed F (asg (e_solver E) s0 \<union> set (t @ a)) (set C)"
    by (rule closed_mono [OF f(3)]) (use s0(2) in blast)
  moreover have "slv_getAssumption (e_solver E) (m_solver st) = t @ a"
    using assms(1) by (simp add: inner_ok_def)
  ultimately show ?thesis
    unfolding solve_pre_def known_def using f(1,4) s0(1) by metis
qed

lemma inner_step:
  assumes "inner_ok sinv desc stk C t sN st a" "step_ok sinv desc stk st st'"
  shows "inner_ok sinv desc stk C t sN st' a"
  using assms unfolding inner_ok_def step_ok_def by (metis (no_types, lifting))

lemma inner_solver:
  assumes "inner_ok sinv desc stk C t sN st a" "sinv s" "slv_getAssumption (e_solver E) s = t @ a'"
    "\<And>s0. desc s0 sN \<Longrightarrow> desc s0 s"
  shows "inner_ok sinv desc stk C t sN (st\<lparr>m_solver := s\<rparr>) a'"
  using assms by (simp add: inner_ok_def st_ok_def)

lemma inner_push:
  assumes S: "solver_contract (e_solver E) n F sinv desc"
    and i: "inner_ok sinv desc stk C t sN st a" and l: "1 \<le> var l" "var l \<le> n"
  shows "inner_ok sinv desc stk C t sN
    (st\<lparr>m_solver := slv_pushAssumption (e_solver E) (m_solver st) l\<rparr>) (a @ [l])"
proof (rule inner_solver [OF i])
  have s: "sinv (m_solver st)" "slv_getAssumption (e_solver E) (m_solver st) = t @ a"
    using i by (auto simp: inner_ok_def st_ok_def)
  note p = solver_push [OF S s(1) l]
  show "sinv (slv_pushAssumption (e_solver E) (m_solver st) l)" using p(1) .
  show "slv_getAssumption (e_solver E) (slv_pushAssumption (e_solver E) (m_solver st) l) = t @ a @ [l]"
    using p(2) s(2) by simp
  show "desc s0 (slv_pushAssumption (e_solver E) (m_solver st) l)" if "desc s0 sN" for s0
    using p(3) i that by (simp add: inner_ok_def)
qed

lemma inner_pop:
  assumes S: "solver_contract (e_solver E) n F sinv desc"
    and i: "inner_ok sinv desc stk C t sN st (a @ a')"
  shows "inner_ok sinv desc stk C t sN
    (st\<lparr>m_solver := slv_popAssumption (e_solver E) (m_solver st) (length a')\<rparr>) a"
proof (rule inner_solver [OF i])
  have s: "sinv (m_solver st)" "slv_getAssumption (e_solver E) (m_solver st) = t @ a @ a'"
    using i by (auto simp: inner_ok_def st_ok_def)
  have le: "length a' \<le> length (slv_getAssumption (e_solver E) (m_solver st))" using s(2) by simp
  note p = solver_pop [OF S s(1) le]
  show "sinv (slv_popAssumption (e_solver E) (m_solver st) (length a'))" using p(1) .
  show "slv_getAssumption (e_solver E) (slv_popAssumption (e_solver E) (m_solver st) (length a')) = t @ a"
    using p(2) s(2) by simp
  show "desc s0 (slv_popAssumption (e_solver E) (m_solver st) (length a'))" if d0: "desc s0 sN" for s0
  proof (rule p(3))
    show "desc s0 (m_solver st)" using i d0 by (simp add: inner_ok_def)
    have "length (slv_getAssumption (e_solver E) s0) \<le> length t"
      using solver_desc_length [OF S d0] i by (simp add: inner_ok_def)
    then show "length (slv_getAssumption (e_solver E) s0) + length a'
        \<le> length (slv_getAssumption (e_solver E) (m_solver st))"
      using s(2) by simp
  qed
qed

definition before_prev :: "lit list \<Rightarrow> lit option \<Rightarrow> lit list" where
  "before_prev ns prev = (case prev of None \<Rightarrow> ns | Some l \<Rightarrow> ns @ [l])"

definition after_prev :: "lit list \<Rightarrow> lit option \<Rightarrow> lit list" where
  "after_prev ns prev = (case prev of None \<Rightarrow> ns | Some l \<Rightarrow> ns @ [neg l])"

lemma enterBranch_ok:
  assumes S: "solver_contract (e_solver E) n F sinv desc"
    and i: "inner_ok sinv desc stk C t sN st (before_prev ns prev)"
    and v: "var ` set (after_prev ns prev) \<subseteq> set C" "distinct (map var (after_prev ns prev))"
    and e: "enterBranch E nbLits prev C st = (go, st1)"
  shows "inner_ok sinv desc stk C t sN st1 (after_prev ns prev)" "m_operation st1 = m_operation st"
    "\<not> go \<Longrightarrow> \<not> sat (fml F (t @ after_prev ns prev))" "prev = None \<Longrightarrow> go"
proof -
  have "inner_ok sinv desc stk C t sN st1 (after_prev ns prev) \<and> m_operation st1 = m_operation st
    \<and> (\<not> go \<longrightarrow> \<not> sat (fml F (t @ after_prev ns prev))) \<and> (prev = None \<longrightarrow> go)"
  proof (cases prev)
    case None
    with e i show ?thesis by (simp add: enterBranch_def before_prev_def after_prev_def)
  next
    case (Some l)
    have "var l \<in> set C" using v(1) Some by (simp add: after_prev_def)
    then have l: "1 \<le> var (neg l)" "var (neg l) \<le> n"
      using inner_facts(4) [OF i] v Some by (auto simp: after_prev_def before_prev_def)
    let ?s1 = "slv_popAssumption (e_solver E) (m_solver st) 1"
    let ?s2 = "slv_pushAssumption (e_solver E) ?s1 (neg l)"
    have "inner_ok sinv desc stk C t sN (st\<lparr>m_solver := ?s1\<rparr>) ns"
      using inner_pop [OF S, of stk C t sN st ns "[l]"] i Some by (simp add: before_prev_def)
    from inner_push [OF S this l]
    have i2: "inner_ok sinv desc stk C t sN (st\<lparr>m_solver := ?s2\<rparr>) (after_prev ns prev)"
      using Some by (simp add: after_prev_def)
    show ?thesis
    proof (cases "nbLits > 1")
      case False
      with e i2 Some show ?thesis by (auto simp: enterBranch_def Let_def)
    next
      case True
      obtain b s' where b: "slv_solve (e_solver E) ?s2 C = (b, s')" by fastforce
      have pre: "solve_pre (e_solver E) n F desc ?s2 C" using inner_solve_pre [OF i2 v] by simp
      have s2: "sinv ?s2" "slv_getAssumption (e_solver E) ?s2 = t @ after_prev ns prev"
        "\<And>s0. desc s0 sN \<Longrightarrow> desc s0 ?s2"
        using i2 by (auto simp: inner_ok_def st_ok_def)
      note sol = solver_solve [OF S s2(1) b pre]
      have "inner_ok sinv desc stk C t sN (st\<lparr>m_solver := ?s2\<rparr>\<lparr>m_solver := s'\<rparr>) (after_prev ns prev)"
        by (rule inner_solver [OF i2 sol(1)]) (use sol(2,3) s2 in auto)
      moreover have "(go, st1) = (b, st\<lparr>m_solver := s'\<rparr>)"
        using e True b Some by (simp add: enterBranch_def Let_def)
      ultimately show ?thesis using sol(4) s2(2) Some by simp
    qed
  qed
  then show "inner_ok sinv desc stk C t sN st1 (after_prev ns prev)" "m_operation st1 = m_operation st"
    "\<not> go \<Longrightarrow> \<not> sat (fml F (t @ after_prev ns prev))" "prev = None \<Longrightarrow> go" by auto
qed

lemma fml_snoc: "fml F (t @ a @ [l]) = (\<lambda>s. fml F (t @ a) s \<and> lit_holds s l)"
  by (auto simp: fml_def)

lemma rec_branch:
  assumes R: "rec_spec sinv desc bound rec" and i: "inner_ok sinv desc stk C t sN st a"
    and a: "var ` set a \<subseteq> set C" "distinct (map var a)" "a \<noteq> []" and len: "length C \<le> bound"
  shows "\<exists>b st'. rec st C = Some (b, st') \<and> inner_ok sinv desc stk C t sN st' a
    \<and> step_ok sinv desc stk st st' \<and> valid (m_operation st') (d b) \<and> branch_ok n P b
    \<and> branch_val (m_operation st') b = pcount w P (fml F (t @ a)) (set C)"
proof -
  have A: "slv_getAssumption (e_solver E) (m_solver st) = t @ a" using i by (simp add: inner_ok_def)
  obtain l where l: "l \<in> set a" using a(3) by (cases a) auto
  have "set C - var ` set (t @ a) \<subset> set C" using l a(1) by auto
  then have "card (set C - var ` set (t @ a)) < card (set C)" by (intro psubset_card_mono) auto
  also have "\<dots> \<le> bound" using len card_length [of C] by linarith
  finally have m: "card (set C - var ` set (t @ a)) < bound" .
  obtain b st' where "rec st C = Some (b, st')" "step_ok sinv desc stk st st'"
    "valid (m_operation st') (d b)" "branch_ok n P b"
    "branch_val (m_operation st') b = pcount w P (fml F (t @ a)) (set C)"
    using R inner_call_ok [OF i a(1,2)] m A unfolding rec_spec_def by metis
  then show ?thesis using inner_step [OF i] by blast
qed

lemma branch_val_step:
  assumes "le (m_operation st) (m_operation st')" "st_ok sinv stk st" "valid (m_operation st) (d b)"
  shows "valid (m_operation st') (d b)" "branch_val (m_operation st') b = branch_val (m_operation st) b"
  using assms le_val [of "m_operation st" "m_operation st'" "d b"] by (auto simp: st_ok_def branch_val_def)

lemma branchLoop_ok:
  assumes S: "solver_contract (e_solver E) n F sinv desc" and R: "rec_spec sinv desc bound rec"
    and len: "length C \<le> bound"
    and "inner_ok sinv desc stk C t sN st (before_prev ns prev)"
    and "var ` set (after_prev ns prev @ lits) \<subseteq> set C" "distinct (map var (after_prev ns prev @ lits))"
    and "after_prev ns prev @ lits \<noteq> []" "var ` set lits \<subseteq> P"
  shows "\<exists>bs st' a'. branchLoop E rec C nbLits lits prev st = Some (bs, st')
    \<and> inner_ok sinv desc stk C t sN st' a' \<and> le (m_operation st) (m_operation st')
    \<and> (prev = None \<longrightarrow> bs \<noteq> [])
    \<and> (\<forall>b\<in>set bs. valid (m_operation st') (d b) \<and> branch_ok n P b)
    \<and> sum_list (map (branch_val (m_operation st')) bs) =
        pcount w P (fml F (t @ after_prev ns prev)) (set C)"
  using assms(4-)
proof (induction lits arbitrary: st ns prev)
  case Nil
  obtain go st1 where e: "enterBranch E nbLits prev C st = (go, st1)" by fastforce
  note en = enterBranch_ok [OF S Nil.prems(1) _ _ e]
  have v: "var ` set (after_prev ns prev) \<subseteq> set C" "distinct (map var (after_prev ns prev))"
    using Nil.prems by auto
  show ?case
  proof (cases go)
    case False
    then show ?thesis using en [OF v] e by (auto simp: pcount_unsat le_refl)
  next
    case True
    have ne: "after_prev ns prev \<noteq> []" using Nil.prems(4) by simp
    obtain b st' where b: "rec st1 C = Some (b, st')" "inner_ok sinv desc stk C t sN st' (after_prev ns prev)"
      "step_ok sinv desc stk st1 st'" "valid (m_operation st') (d b)" "branch_ok n P b"
      "branch_val (m_operation st') b = pcount w P (fml F (t @ after_prev ns prev)) (set C)"
      using rec_branch [OF R en(1) [OF v] v ne len] by blast
    have "le (m_operation st) (m_operation st')" using b(3) en(2) [OF v] by (simp add: step_ok_def)
    moreover have "branchLoop E rec C nbLits [] prev st = Some ([b], st')" using e True b(1) by simp
    ultimately show ?thesis using b(2,4-6) by (intro exI [of _ "[b]"]) auto
  qed
next
  case (Cons l lits)
  obtain go st1 where e: "enterBranch E nbLits prev C st = (go, st1)" by fastforce
  have v: "var ` set (after_prev ns prev) \<subseteq> set C" "distinct (map var (after_prev ns prev))"
    "var l \<in> set C" "var l \<in> P" "var l \<notin> var ` set (after_prev ns prev)"
    using Cons.prems by auto
  note en = enterBranch_ok [OF S Cons.prems(1) v(1,2) e]
  show ?case
  proof (cases go)
    case False
    then show ?thesis using en e by (auto simp: pcount_unsat le_refl)
  next
    case True
    let ?a = "after_prev ns prev"
    let ?st2 = "st1\<lparr>m_solver := slv_pushAssumption (e_solver E) (m_solver st1) l\<rparr>"
    have r: "1 \<le> var l" "var l \<le> n" using inner_facts(4) [OF en(1) v(1,2)] v(3) by auto
    have i2: "inner_ok sinv desc stk C t sN ?st2 (?a @ [l])" by (rule inner_push [OF S en(1) r])
    have v2: "var ` set (?a @ [l]) \<subseteq> set C" "distinct (map var (?a @ [l]))" "?a @ [l] \<noteq> []"
      using v by auto
    obtain b st3 where b: "rec ?st2 C = Some (b, st3)" "inner_ok sinv desc stk C t sN st3 (?a @ [l])"
      "step_ok sinv desc stk ?st2 st3" "valid (m_operation st3) (d b)" "branch_ok n P b"
      "branch_val (m_operation st3) b = pcount w P (fml F (t @ ?a @ [l])) (set C)"
      using rec_branch [OF R i2 v2 len] by blast
    have "\<exists>bs st' a'. branchLoop E rec C nbLits lits (Some l) st3 = Some (bs, st')
      \<and> inner_ok sinv desc stk C t sN st' a' \<and> le (m_operation st3) (m_operation st')
      \<and> (Some l = None \<longrightarrow> bs \<noteq> []) \<and> (\<forall>b\<in>set bs. valid (m_operation st') (d b) \<and> branch_ok n P b)
      \<and> sum_list (map (branch_val (m_operation st')) bs) =
          pcount w P (fml F (t @ after_prev ?a (Some l))) (set C)"
    proof (rule Cons.IH)
      show "inner_ok sinv desc stk C t sN st3 (before_prev ?a (Some l))"
        using b(2) by (simp add: before_prev_def)
      show "var ` set (after_prev ?a (Some l) @ lits) \<subseteq> set C"
        "distinct (map var (after_prev ?a (Some l) @ lits))" "after_prev ?a (Some l) @ lits \<noteq> []"
        "var ` set lits \<subseteq> P"
        using Cons.prems by (auto simp: after_prev_def [of ?a])
    qed
    then obtain bs st' a' where bs: "branchLoop E rec C nbLits lits (Some l) st3 = Some (bs, st')"
      "inner_ok sinv desc stk C t sN st' a'" "le (m_operation st3) (m_operation st')"
      "\<forall>b\<in>set bs. valid (m_operation st') (d b) \<and> branch_ok n P b"
      "sum_list (map (branch_val (m_operation st')) bs) = pcount w P (fml F (t @ ?a @ [neg l])) (set C)"
      by (auto simp: after_prev_def [of ?a])
    have st3: "st_ok sinv stk st3" using b(2) by (simp add: inner_ok_def)
    note bv = branch_val_step [OF bs(3) st3 b(4)]
    have "le (m_operation st) (m_operation st3)" using b(3) en(2) by (simp add: step_ok_def)
    then have l3: "le (m_operation st) (m_operation st')" using bs(3) le_trans by blast
    have sum: "sum_list (map (branch_val (m_operation st')) (b # bs)) = pcount w P (fml F (t @ ?a)) (set C)"
      using bs(5) b(6) bv(2) pcount_branch [OF v(3,4), of w "fml F (t @ ?a)"] by (simp add: fml_snoc)
    have "branchLoop E rec C nbLits (l # lits) prev st = Some (b # bs, st')"
      using e True b(1) bs(1) by (simp add: Let_def)
    then show ?thesis using bs(2,4) l3 sum bv(1) b(5) by (intro exI [of _ "b # bs"] exI [of _ st'] exI [of _ a']) simp
  qed
qed

lemma inner_step_ok:
  assumes "inner_ok sinv desc stk C t (m_solver st) st' []"
    "le (m_operation st) (m_operation st')"
  shows "step_ok sinv desc stk st st'"
  using assms by (simp add: inner_ok_def step_ok_def)

lemma inner_cache_mono:
  assumes "inner_ok sinv desc stk C t sN st a" "le (m_operation st) x" "op_inv x"
  shows "inner_ok sinv desc stk C t sN (st\<lparr>m_operation := x\<rparr>) a"
  using assms c_inv_le [of "m_operation st" x] by (auto simp: inner_ok_def st_ok_def)

lemma node_value:
  assumes "inner_ok sinv desc stk C t sN st []"
  shows "pcount w P (fml F t) (set C) = cval w P F (concat stk) C"
proof (rule pcount_residual)
  have ctx: "comp_ctx n F (concat stk) C" using assms by (simp add: inner_ok_def)
  show "set C \<inter> var ` set t = {}" "closed F (set (concat stk)) (set C)"
    using inner_facts [OF assms] by auto
  show "set C \<inter> var ` set (concat stk) = {}" using ctx unfolding comp_ctx_def by blast
qed (use assms in \<open>auto simp: inner_ok_def\<close>)

lemma computeDecisionNode_ok:
  assumes S: "solver_contract (e_solver E) n F sinv desc" and R: "rec_spec sinv desc bound rec"
    and len: "length C \<le> bound" and node: "node_ok sinv desc stk st C"
  shows "\<exists>u st'. computeDecisionNode E rec st C = Some (u, st') \<and> step_ok sinv desc stk st st'
    \<and> valid (m_operation st') u \<and> val (m_operation st') u = cval w P F (concat stk) C"
proof -
  define t where "t = slv_getAssumption (e_solver E) (m_solver st)"
  have i0: "inner_ok sinv desc stk C t (m_solver st) st []"
    using node_inner [OF node] by (simp add: t_def)
  have st: "st_ok sinv stk st" and ctx: "comp_ctx n F (concat stk) C"
    using i0 by (auto simp: inner_ok_def)
  note sf = st_ok_fields [OF st]
  obtain lits h s where sel: "heu_selectLitSet (e_heuristic E) (m_heuristic st) (m_solver st)
      (m_specs st) C = (lits, h, s)" by (metis prod.exhaust)
  note hs = heu_select [OF sf(4,2) ctx sel]
  let ?st1 = "st\<lparr>m_heuristic := h, m_solver := s\<rparr>"
  have s: "sinv s" "slv_getAssumption (e_solver E) s = t" "\<And>s0. desc s0 (m_solver st) \<Longrightarrow> desc s0 s"
    using hs solver_decay [OF S sf(1)] sf(1) by (auto simp: t_def)
  have i1: "inner_ok sinv desc stk C t (m_solver st) ?st1 []"
    using i0 s hs by (simp add: inner_ok_def st_ok_def)
  show ?thesis
  proof (cases "lits = []")
    case True
    obtain u x where top: "op_manageTop (e_operation E) (m_operation ?st1) (m_solver ?st1) C = (u, x)"
      by fastforce
    have C: "distinct C" "\<forall>v\<in>set C. 1 \<le> v \<and> v \<le> n \<and> v \<notin> P"
      using ctx hs True unfolding comp_ctx_def by blast+
    have t: "op_inv x" "le (m_operation ?st1) x" "valid x u" "val x u = 1"
      using op_mtop [OF _ C top] sf(3) by auto
    have "computeDecisionNode E rec st C = Some (u, ?st1\<lparr>m_operation := x\<rparr>)"
      using True sel top no_skolemize by (simp add: computeDecisionNode_def)
    moreover have "step_ok sinv desc stk st (?st1\<lparr>m_operation := x\<rparr>)"
      using inner_step_ok [OF inner_cache_mono [OF i1 t(2,1)]] t(2) by simp
    moreover have "cval w P F (concat stk) C = 1"
      using node_value [OF i0] hs True i0 by (simp add: pcount_empty inner_ok_def)
    ultimately show ?thesis using t(3,4) by auto
  next
    case False
    let ?st2 = "?st1\<lparr>m_nbDecisionNode := m_nbDecisionNode ?st1 + 1\<rparr>"
    have i2: "inner_ok sinv desc stk C t (m_solver st) ?st2 []"
      using i1 by (simp add: inner_ok_def st_ok_def)
    obtain bs st3 a where bs: "branchLoop E rec C (length lits) lits None ?st2 = Some (bs, st3)"
      "inner_ok sinv desc stk C t (m_solver st) st3 a" "le (m_operation ?st2) (m_operation st3)" "bs \<noteq> []"
      "\<forall>b\<in>set bs. valid (m_operation st3) (d b) \<and> branch_ok n P b"
      "sum_list (map (branch_val (m_operation st3)) bs) = pcount w P (fml F t) (set C)"
      using branchLoop_ok [OF S R len, of stk t "m_solver st" ?st2 "[]" None lits "length lits"]
        i2 hs False by (auto simp: before_prev_def after_prev_def)
    let ?s = "slv_popAssumption (e_solver E) (m_solver st3) (length a)"
    have A3: "slv_getAssumption (e_solver E) (m_solver st3) = t @ a" using bs(2) by (simp add: inner_ok_def)
    have i4: "inner_ok sinv desc stk C t (m_solver st) (st3\<lparr>m_solver := ?s\<rparr>) []"
      using inner_pop [OF S, of stk C t "m_solver st" st3 "[]" a] bs(2) by simp
    obtain u x where or: "op_manageDeterministicOr (e_operation E) (m_operation st3) bs = (u, x)"
      by fastforce
    have st3: "op_inv (m_operation st3)" using bs(2) by (simp add: inner_ok_def st_ok_def)
    note o = op_or [OF st3 bs(4,5) or]
    have "computeDecisionNode E rec st C = Some (u, st3\<lparr>m_solver := ?s, m_operation := x\<rparr>)"
      using False sel bs(1) or s(2) A3
      by (simp add: computeDecisionNode_def sizeAssumption_def Let_def)
    moreover have "step_ok sinv desc stk st (st3\<lparr>m_solver := ?s, m_operation := x\<rparr>)"
      using inner_step_ok [OF inner_cache_mono [OF i4, of x]] o bs(3) le_trans [of "m_operation st" "m_operation st3" x]
      by simp
    moreover have "val x u = cval w P F (concat stk) C"
      using o bs(6) node_value [OF i0] by (simp add: branch_val_def [abs_def])
    ultimately show ?thesis using o by auto
  qed
qed

section \<open>The body of a call\<close>

lemma components_ok:
  assumes c: "computeConnectedComponent E st V = ((cs, fs), st')"
    and st: "st_ok sinv stk st" and V: "distinct V" "\<forall>v\<in>set V. 1 \<le> v \<and> v \<le> n"
      "closed F (set (concat stk)) (set V)"
  shows "step_ok sinv desc stk st st'" "comps_ok F (set (concat stk)) V cs fs"
    "m_operation st' = m_operation st" "m_solver st' = m_solver st"
proof -
  define st0 where "st0 = updateSplitWatch st"
  have f: "m_solver st0 = m_solver st" "m_specs st0 = m_specs st" "m_operation st0 = m_operation st"
    "m_heuristic st0 = m_heuristic st" "m_cache st0 = m_cache st"
    by (auto simp: st0_def updateSplitWatch_def Let_def)
  have fm: "fm_inv (m_specs st0) stk" using st f by (simp add: st_ok_def)
  obtain f' where f': "fm_inv f' stk \<and> comps_ok F (set (concat stk)) V cs fs"
    "m_specs st' = f'" "m_solver st' = m_solver st" "m_operation st' = m_operation st"
    "m_heuristic st' = m_heuristic st" "m_cache st' = m_cache st"
  proof (cases "m_connectedComponent st0 \<or> m_nbCallCall st0 mod 500 = 0")
    case True
    obtain r f' where r: "fm_components (e_specs E) (m_specs st0) V = (r, f')" by fastforce
    with c True f have "r = (cs, fs)" "m_specs st' = f'" "m_solver st' = m_solver st"
      "m_operation st' = m_operation st" "m_heuristic st' = m_heuristic st" "m_cache st' = m_cache st"
      by (auto simp: computeConnectedComponent_def Let_def st0_def [symmetric] split: if_splits)
    with r fm_comps [OF fm V] show ?thesis using that by blast
  next
    case False
    obtain r f' where r: "fm_trivialComponents (e_specs E) (m_specs st0) V = (r, f')" by fastforce
    with c False f have "r = (cs, fs)" "m_specs st' = f'" "m_solver st' = m_solver st"
      "m_operation st' = m_operation st" "m_heuristic st' = m_heuristic st" "m_cache st' = m_cache st"
      by (auto simp: computeConnectedComponent_def Let_def st0_def [symmetric])
    with r fm_trivial [OF fm V] show ?thesis using that by blast
  qed
  show "comps_ok F (set (concat stk)) V cs fs" "m_operation st' = m_operation st"
    "m_solver st' = m_solver st" using f' by auto
  show "step_ok sinv desc stk st st'" using f' st by (simp add: step_ok_def st_ok_def le_refl)
qed

lemma expelNoDecisionLit_filter:
  "\<forall>l\<in>set us. 1 \<le> var l \<and> var l \<le> n \<Longrightarrow> expelNoDecisionLit E us = filter (\<lambda>l. var l \<in> P) us"
  using no_skolemize dec_var not_projected
  by (auto simp: expelNoDecisionLit_def intro!: filter_cong intro: filter_True [symmetric])

lemma expelNoDecisionVar_filter:
  "\<forall>v\<in>set fs. 1 \<le> v \<and> v \<le> n \<Longrightarrow> expelNoDecisionVar E fs = filter (\<lambda>v. v \<in> P) fs"
  using dec_var not_projected
  by (auto simp: expelNoDecisionVar_def intro!: filter_cong intro: filter_True [symmetric])

lemma branch_weight_filter:
  "branch_weight w P (filter (\<lambda>l. var l \<in> P) us) (filter (\<lambda>v. v \<in> P) fs) = branch_weight w P us fs"
proof -
  have "map (\<lambda>l. if var l \<in> P then lit_weight w l else 1) (filter (\<lambda>l. var l \<in> P) us) =
      map (lit_weight w) (filter (\<lambda>l. var l \<in> P) us)" by simp
  moreover have "map (\<lambda>v. if v \<in> P then w v True + w v False else 1) (filter (\<lambda>v. v \<in> P) fs) =
      map (\<lambda>v. w v True + w v False) (filter (\<lambda>v. v \<in> P) fs)" by simp
  ultimately show ?thesis unfolding branch_weight_def by (simp only: prod_list_filter)
qed

lemma call_facts:
  assumes "call_ok sinv desc stk st V" "slv_getAssumption (e_solver E) (m_solver st) = t"
  shows "st_ok sinv stk st" "sorted V" "distinct V" "\<forall>v\<in>set V. 1 \<le> v \<and> v \<le> n"
    "set V \<inter> var ` set (concat stk) = {}" "var ` set t \<subseteq> var ` set (concat stk) \<union> set V"
    "\<And>s. fml F t s \<Longrightarrow> lits_hold s (concat stk)" "trail_known desc (concat stk) (m_solver st)"
    "closed F (set (concat stk)) (set V)" "rest_sat F t (set V)"
  using assms unfolding call_ok_def Let_def by blast+

lemma call_solve_pre:
  assumes "call_ok sinv desc stk st V"
  shows "solve_pre (e_solver E) n F desc (m_solver st) V"
proof -
  note c = call_facts [OF assms refl]
  obtain U where U: "known (e_solver E) desc (m_solver st) U"
    "set (concat stk) \<subseteq> U \<union> set (slv_getAssumption (e_solver E) (m_solver st))"
    using c(8) unfolding trail_known_def by blast
  then show ?thesis unfolding solve_pre_def using c(4,10) closed_mono [OF c(9) U(2)] by blast
qed

text \<open>What the call knows once the solver has answered yes and the units are on the trail.\<close>

lemma solved_facts:
  assumes S: "solver_contract (e_solver E) n F sinv desc" and call: "call_ok sinv desc stk st V"
    and sol: "solved (e_solver E) F desc (m_solver st) s"
    and t: "slv_getAssumption (e_solver E) (m_solver st) = t"
    and us: "us = whichAreUnits (e_solver E) s V"
  shows "var ` set us \<subseteq> set V" "distinct (map var us)" "trail_ok n (us @ concat stk)"
    "set (us @ concat stk) \<subseteq> asg (e_solver E) s"
    "\<And>\<sigma>. fml F t \<sigma> \<Longrightarrow> lits_hold \<sigma> (us @ concat stk)"
    "var ` set t \<subseteq> var ` set (us @ concat stk)" "closed F (set (us @ concat stk)) (set V)"
    "\<And>l. l \<in> asg (e_solver E) s \<Longrightarrow> var l \<in> set V \<Longrightarrow> var l \<in> var ` set (us @ concat stk)"
proof -
  note c = call_facts [OF call t]
  note u = whichAreUnits_filter [OF solver_lit_own [OF S], where s = s and V = V]
  have s: "\<And>l \<sigma>. l \<in> asg (e_solver E) s \<Longrightarrow> fml F t \<sigma> \<Longrightarrow> lit_holds \<sigma> l"
    "set t \<subseteq> asg (e_solver E) s"
    "\<And>s0. desc s0 (m_solver st) \<Longrightarrow> asg (e_solver E) s0 \<subseteq> asg (e_solver E) s"
    using sol t unfolding solved_def by blast+
  show V: "var ` set us \<subseteq> set V" using u(1) us by auto
  show dus: "distinct (map var us)" using u(2) [OF c(3)] us by simp
  have tr: "trail_ok n (concat stk)" using c(1) fm_trail by (auto simp: st_ok_def)
  have dj: "var ` set us \<inter> var ` set (concat stk) = {}" using V c(5) by blast
  have "\<forall>l\<in>set us. 1 \<le> var l \<and> var l \<le> n" using V c(4) by blast
  then show "trail_ok n (us @ concat stk)" using dus tr dj by (auto simp: trail_ok_def)
  obtain U where U: "known (e_solver E) desc (m_solver st) U" "set (concat stk) \<subseteq> U \<union> set t"
    using c(8) t unfolding trail_known_def by blast
  have "U \<subseteq> asg (e_solver E) s" using U(1) s(3) unfolding known_def by blast
  then show A: "set (us @ concat stk) \<subseteq> asg (e_solver E) s" using U(2) s(2) u(1) us by auto
  show "lits_hold \<sigma> (us @ concat stk)" if "fml F t \<sigma>" for \<sigma>
    using s(1) that A unfolding lits_hold_def by blast
  show un: "var l \<in> var ` set (us @ concat stk)" if "l \<in> asg (e_solver E) s" "var l \<in> set V" for l
    using that u(1) us by auto
  show "var ` set t \<subseteq> var ` set (us @ concat stk)"
  proof
    fix v assume v: "v \<in> var ` set t"
    then obtain l where l: "l \<in> set t" "v = var l" by blast
    from c(6) v have "v \<in> var ` set (concat stk) \<or> v \<in> set V" by blast
    then show "v \<in> var ` set (us @ concat stk)"
    proof
      assume "v \<in> set V"
      with l un [of l] s(2) show ?thesis by blast
    qed auto
  qed
  show "closed F (set (us @ concat stk)) (set V)" by (rule closed_mono [OF c(9)]) auto
qed

lemma finish_call:
  assumes st: "st_ok sinv (us # stk) st" and A: "slv_getAssumption (e_solver E) (m_solver st) = t"
    and d: "\<And>s0. desc s0 s \<Longrightarrow> desc s0 (m_solver st)" and le: "le x (m_operation st)"
    and op: "op_inv y" "le (m_operation st) y"
    and s: "slv_getAssumption (e_solver E) s = t" "m_solver st0 = s" "m_operation st0 = x"
  shows "step_ok sinv desc stk st0
    (st\<lparr>m_specs := fm_postUpdate (e_specs E) (m_specs st) us, m_operation := y\<rparr>)"
  using st A d s op le_trans [OF le op(2)] fm_post [of "m_specs st" us stk]
    c_inv_le [of "m_operation st" y "m_cache st"]
  by (simp add: step_ok_def st_ok_def)

lemma finish_branch:
  assumes V: "\<forall>v\<in>set V. 1 \<le> v \<and> v \<le> n" and us: "var ` set us \<subseteq> set V" "distinct (map var us)"
    and fs: "set fs \<subseteq> set V" "distinct fs" "var ` set us \<inter> set fs = {}"
  shows "branch_ok n P \<lparr>d = u, unitLits = expelNoDecisionLit E us, freeVars = expelNoDecisionVar E fs\<rparr>"
    "branch_val x \<lparr>d = u, unitLits = expelNoDecisionLit E us, freeVars = expelNoDecisionVar E fs\<rparr> =
       val x u * branch_weight w P us fs"
proof -
  have r: "\<forall>l\<in>set us. 1 \<le> var l \<and> var l \<le> n" "\<forall>v\<in>set fs. 1 \<le> v \<and> v \<le> n" using V us fs by blast+
  have "distinct (map var (filter (\<lambda>l. var l \<in> P) us))" using us(2) by (simp add: distinct_map_filter)
  then show "branch_ok n P \<lparr>d = u, unitLits = expelNoDecisionLit E us, freeVars = expelNoDecisionVar E fs\<rparr>"
    unfolding branch_ok_def expelNoDecisionLit_filter [OF r(1)] expelNoDecisionVar_filter [OF r(2)]
    using r fs by auto
  show "branch_val x \<lparr>d = u, unitLits = expelNoDecisionLit E us, freeVars = expelNoDecisionVar E fs\<rparr> =
       val x u * branch_weight w P us fs"
    by (simp add: branch_val_def expelNoDecisionLit_filter [OF r(1)] expelNoDecisionVar_filter [OF r(2)]
        branch_weight_filter)
qed

lemma compute_body_ok:
  assumes S: "solver_contract (e_solver E) n F sinv desc" and D: "decide_spec sinv desc bound decide"
    and call: "call_ok sinv desc stk st V"
    and bound: "card (set V - var ` set (slv_getAssumption (e_solver E) (m_solver st))) \<le> bound"
  shows "\<exists>b st'. compute_body E decide st V = Some (b, st') \<and> step_ok sinv desc stk st st'
    \<and> valid (m_operation st') (d b) \<and> branch_ok n P b
    \<and> branch_val (m_operation st') b =
        pcount w P (fml F (slv_getAssumption (e_solver E) (m_solver st))) (set V)"
proof -
  define t where "t = slv_getAssumption (e_solver E) (m_solver st)"
  note c = call_facts [OF call t_def [symmetric]]
  note sf = st_ok_fields [OF c(1)]
  define st1 where "st1 = st\<lparr>m_nbCallCall := m_nbCallCall st + 1 + 1\<rparr>"
  have st1: "m_solver st1 = m_solver st" "m_specs st1 = m_specs st" "m_operation st1 = m_operation st"
    "m_heuristic st1 = m_heuristic st" "m_cache st1 = m_cache st" by (simp_all add: st1_def)
  obtain isSat s where sol: "slv_solve (e_solver E) (m_solver st) V = (isSat, s)" by fastforce
  note ss = solver_solve [OF S sf(1) sol call_solve_pre [OF call]]
  have A: "slv_getAssumption (e_solver E) s = t" using ss(2) t_def by simp
  show ?thesis
  proof (cases isSat)
    case False
    obtain u x where bot: "op_manageBottom (e_operation E) (m_operation st) = (u, x)" by fastforce
    note o = op_bottom [OF sf(3) bot]
    have "compute_body E decide st V =
        Some (\<lparr>d = u, unitLits = [], freeVars = []\<rparr>, st1\<lparr>m_solver := s, m_operation := x\<rparr>)"
      using False sol bot by (simp add: compute_body_def st1_def Let_def)
    moreover have "step_ok sinv desc stk st (st1\<lparr>m_solver := s, m_operation := x\<rparr>)"
      using c(1) st1 ss A o c_inv_le [of "m_operation st" x "m_cache st"] sf(3)
      by (simp add: step_ok_def st_ok_def t_def)
    moreover have "pcount w P (fml F t) (set V) = 0"
      using False ss(4) by (simp add: t_def pcount_unsat)
    ultimately show ?thesis using o
      by (intro exI conjI) (auto simp: branch_ok_def branch_val_def t_def)
  next
    case True
    have sat: "sat (fml F t)" using True ss(4) by (simp add: t_def)
    define us where "us = whichAreUnits (e_solver E) s V"
    note f = solved_facts [OF S call ss(5) [OF True] t_def [symmetric] us_def]
    obtain us' fm where pre: "fm_preUpdate (e_specs E) (m_specs st) us = (us', fm)" by fastforce
    have fm: "us' = us" "fm_inv fm (us # stk)" using fm_pre [OF sf(2) f(3) pre] by auto
    define st2 where "st2 = st1\<lparr>m_solver := s, m_specs := fm\<rparr>"
    have st2: "st_ok sinv (us # stk) st2" using c(1) st1 ss(1) fm(2) by (simp add: st2_def st_ok_def)
    obtain cs fs st3 where comp: "computeConnectedComponent E st2 V = ((cs, fs), st3)"
      by (metis prod.exhaust)
    have cl: "closed F (set (concat (us # stk))) (set V)" using f(7) by simp
    note co = components_ok [OF comp st2 c(3,4) cl]
    have co2: "comps_ok F (set (us @ concat stk)) V cs fs" using co(2) by simp
    have ctx: "comp_ctx n F (us @ concat stk) C" if "C \<in> set cs" for C
    proof (rule comps_ctx [OF co2 f(7) that c(2,4) f(4)])
      show "\<And>l k. l \<in> asg (e_solver E) s \<Longrightarrow> k \<in> asg (e_solver E) s \<Longrightarrow> var l = var k \<Longrightarrow> l = k"
        by (rule asg_inj)
      show "\<forall>c\<in>set F. sat_by (asg (e_solver E) s) c \<or> 2 \<le> card (clause_vars c - var ` asg (e_solver E) s)"
        using ss(5) [OF True] by (simp add: solved_def)
    qed (rule f(8))
    note pc = pcount_call [OF co2 f(7) ctx c(5) f(1,2,6,5) sat, where w = w and P = P]
    have fsV: "set fs \<subseteq> set V" "var ` set us \<inter> set fs = {}" using comps_okD(5) [OF co2] by auto
    note fb = finish_branch [OF c(4) f(1,2) fsV(1) comps_okD(1) [OF co2] fsV(2)]
    have frame: "m_operation st3 = m_operation st" "m_solver st3 = s"
      using co(3,4) st1 by (simp_all add: st2_def)
    have st3: "st_ok sinv (us # stk) st3" using co(1) by (simp add: step_ok_def)
    define st4 where "st4 = st3\<lparr>m_nbSplit := m_nbSplit st3 + (if length cs > 1 then of_nat (length cs) else 0)\<rparr>"
    have st4: "st_ok sinv (us # stk) st4" "m_operation st4 = m_operation st" "m_solver st4 = s"
      using st3 frame by (simp_all add: st4_def st_ok_def)
    have body: "compute_body E decide st V =
      (if length cs \<noteq> 0
       then Option.bind (componentLoop E decide cs st4) (\<lambda>(tab, st4).
              let st5 = st4\<lparr>m_specs := fm_postUpdate (e_specs E) (m_specs st4) us\<rparr>;
                  (u, ops) = op_manageDecomposableAnd (e_operation E) (m_operation st5) tab
              in Some (\<lparr>d = u, unitLits = expelNoDecisionLit E us, freeVars = expelNoDecisionVar E fs\<rparr>,
                       st5\<lparr>m_operation := ops\<rparr>))
       else let st5 = st3\<lparr>m_specs := fm_postUpdate (e_specs E) (m_specs st3) us\<rparr>;
                (u, ops) = op_createTop (e_operation E) (m_operation st5)
            in Some (\<lparr>d = u, unitLits = expelNoDecisionLit E us, freeVars = expelNoDecisionVar E fs\<rparr>,
                     st5\<lparr>m_operation := ops\<rparr>))"
      using True sol pre fm(1) comp unfolding st4_def
      by (simp add: compute_body_def Let_def us_def [symmetric] st1_def st2_def
          split del: if_split)
    show ?thesis
    proof (cases "length cs \<noteq> 0")
      case False
      obtain u x where top: "op_createTop (e_operation E) (m_operation st3) = (u, x)" by fastforce
      note o = op_top [OF st_ok_fields(3) [OF st3] top]
      have "step_ok sinv desc stk st
        (st3\<lparr>m_specs := fm_postUpdate (e_specs E) (m_specs st3) us, m_operation := x\<rparr>)"
        by (rule finish_call [OF st3 _ _ _ _ _ t_def [symmetric] refl refl])
           (use o frame A ss(3) le_refl in auto)
      then show ?thesis
        using body False top o pc fb(1) [where u = u] fb(2) [where u = u and x = x] by (auto simp: t_def [symmetric])
    next
      case True
      have node: "\<forall>C\<in>set cs. node_ok sinv desc (us # stk) st4 C \<and> length C \<le> bound"
      proof
        fix C assume C: "C \<in> set cs"
        have "distinct C" "set C \<subseteq> set V - var ` set (us @ concat stk)"
          using C comps_okD(2,5) [OF co2] by blast+
        then have "length C = card (set C)" "set C \<subseteq> set V - var ` set t"
          using f(6) by (simp add: distinct_card, blast)
        then have "length C \<le> bound" using bound card_mono [of "set V - var ` set t" "set C"]
          by (simp add: t_def)
        moreover have "node_ok sinv desc (us # stk) st4 C"
          unfolding node_ok_def Let_def concat.simps st4(3) A
          using st4(1) ctx [OF C] sat f(4,5,6) solver_refl [OF S ss(1)] by blast
        ultimately show "node_ok sinv desc (us # stk) st4 C \<and> length C \<le> bound" by simp
      qed
      obtain tab st5 where loop: "componentLoop E decide cs st4 = Some (tab, st5)"
        "step_ok sinv desc (us # stk) st4 st5" "length tab = length cs"
        "\<forall>u\<in>set tab. valid (m_operation st5) u"
        "map (val (m_operation st5)) tab = map (cval w P F (concat (us # stk))) cs"
        using componentLoop_ok [OF D node st4(1)] by blast
      obtain u x where an: "op_manageDecomposableAnd (e_operation E) (m_operation st5) tab = (u, x)"
        by fastforce
      have st5: "st_ok sinv (us # stk) st5" using loop(2) by (simp add: step_ok_def)
      have ne: "tab \<noteq> []" using True loop(3) by auto
      have le: "length tab \<le> n" using comps_length [OF co2 c(4)] loop(3) by simp
      note o = op_and [OF st_ok_fields(3) [OF st5] ne le loop(4) an]
      have "step_ok sinv desc stk st
        (st5\<lparr>m_specs := fm_postUpdate (e_specs E) (m_specs st5) us, m_operation := x\<rparr>)"
      proof (rule finish_call [OF st5 _ _ _ _ _ t_def [symmetric] refl refl])
        show "slv_getAssumption (e_solver E) (m_solver st5) = t"
          "\<And>s0. desc s0 (m_solver st) \<Longrightarrow> desc s0 (m_solver st5)"
          "le (m_operation st) (m_operation st5)" "op_inv x" "le (m_operation st5) x"
          using loop(2) st4 A ss(3) o by (auto simp: step_ok_def)
      qed
      moreover have "val x u * branch_weight w P us fs = pcount w P (fml F t) (set V)"
        using pc o loop(5) by simp
      ultimately show ?thesis
        using body True loop(1) an o fb(1) [where u = u] fb(2) [where u = u and x = x] by (auto simp: t_def [symmetric])
    qed
  qed
qed

theorem compute_rec_ok:
  assumes S: "solver_contract (e_solver E) n F sinv desc"
  shows "rec_spec sinv desc fuel (compute_rec E fuel)"
proof (induction fuel)
  case 0
  then show ?case by (simp add: rec_spec_def)
next
  case (Suc fuel)
  have D: "decide_spec sinv desc fuel (computeDecisionNode E (compute_rec E fuel))"
    unfolding decide_spec_def using computeDecisionNode_ok [OF S Suc] by blast
  show ?case
    unfolding rec_spec_def compute_rec.simps using compute_body_ok [OF S D] by (auto simp: less_Suc_eq_le)
qed

end

section \<open>The warm start\<close>

lemma setAssumption_ok:
  assumes S: "solver_contract S n F sinv desc" and s: "sinv s"
    and l: "\<forall>l\<in>set ls. 1 \<le> var l \<and> var l \<le> n"
  shows "sinv (setAssumption S s ls)" "slv_getAssumption S (setAssumption S s ls) = ls"
proof -
  have push: "sinv (foldl (slv_pushAssumption S) s0 ls) \<and>
      slv_getAssumption S (foldl (slv_pushAssumption S) s0 ls) = slv_getAssumption S s0 @ ls"
    if "sinv s0" for s0
    using that l
  proof (induction ls arbitrary: s0)
    case (Cons l ls)
    then show ?case using solver_push [OF S Cons.prems(1), of l] by simp
  qed simp
  let ?s = "slv_popAssumption S s (length (slv_getAssumption S s))"
  have "sinv ?s" "slv_getAssumption S ?s = []" using solver_pop [OF S s order_refl] by auto
  with push [of ?s] show "sinv (setAssumption S s ls)" "slv_getAssumption S (setAssumption S s ls) = ls"
    by (simp_all add: setAssumption_def)
qed

lemma randomQuery_vars:
  assumes "V \<noteq> []" "randomQuery rnd i k V q = (q', k')" "var ` set q \<subseteq> set V"
  shows "var ` set q' \<subseteq> set V"
  using assms(2,3)
proof (induction i arbitrary: k q)
  case (Suc i)
  have "V ! (rnd k mod length V) \<in> set V" using assms(1) by simp
  with Suc show ?case by (auto simp: Let_def split: if_splits)
qed auto

lemma warmStartLoop_ok:
  assumes S: "solver_contract S n F sinv desc" and V: "V \<noteq> []" "\<forall>v\<in>set V. 1 \<le> v \<and> v \<le> n"
    and "sinv s" "warmStartLoop S rnd i sz k V nb s = (nb', s')"
  shows "sinv s'"
  using assms(4,5)
proof (induction i arbitrary: k nb s)
  case (Suc i)
  obtain q k' where q: "randomQuery rnd sz k V [] = (q, k')" by fastforce
  have "var ` set q \<subseteq> set V" using randomQuery_vars [OF V(1) q] by simp
  then have ql: "\<forall>l\<in>set q. 1 \<le> var l \<and> var l \<le> n" using V(2) by blast
  obtain res s1 where r: "slv_solveAll S (setAssumption S s q) = (res, s1)" by fastforce
  have "sinv (slv_restart S s1)"
    using setAssumption_ok(1) [OF S Suc.prems(1) ql] solver_solveAll(1) [OF S _ r] solver_restart(1) [OF S]
    by blast
  with Suc.IH Suc.prems(2) q r show ?case by (simp add: Let_def)
qed simp

lemma warmStart_ok:
  assumes S: "solver_contract S n F sinv desc" and V: "V \<noteq> []" "\<forall>v\<in>set V. 1 \<le> v \<and> v \<le> n"
    and s: "sinv s" and w: "warmStart S rnd iter sz V s = (b, s')"
  shows "sinv s'" "b \<longleftrightarrow> sat (fml F (slv_getAssumption S s))" "b \<Longrightarrow> slv_getAssumption S s' = []"
proof -
  obtain b1 s1 where a: "slv_solveAll S s = (b1, s1)" by fastforce
  note sa = solver_solveAll [OF S s a]
  obtain nb s2 where l: "warmStartLoop S rnd iter sz 0 V 0 s1 = (nb, s2)" by fastforce
  have s2: "sinv s2" by (rule warmStartLoop_ok [OF S V sa(1) l])
  note se = setAssumption_ok [OF S s2, of "[]"]
  have "sinv s' \<and> (b \<longleftrightarrow> b1) \<and> (b \<longrightarrow> slv_getAssumption S s' = [])"
    using w a l sa(1) se solver_restart [OF S]
    by (cases b1) (auto simp: warmStart_def)
  then show "sinv s'" "b \<longleftrightarrow> sat (fml F (slv_getAssumption S s))" "b \<Longrightarrow> slv_getAssumption S s' = []"
    using sa(3) by auto
qed

section \<open>The stamps\<close>

definition stamps_ok :: "nat \<Rightarrow> ('s, 'f, 'h, 'c, 'o) dpll \<Rightarrow> bool" where
  "stamps_ok n st \<longleftrightarrow> length (m_stampVar st) = n + 1
     \<and> (\<forall>i\<in>set (m_stampVar st). i \<le> m_stampIdx st) \<and> m_stampIdx st < - 1"

lemma foldl_stamp:
  "length (foldl (\<lambda>m v. m[v := idx]) m vs) = length m"
  "v < length m \<Longrightarrow> foldl (\<lambda>m v. m[v := idx]) m vs ! v = (if v \<in> set vs then idx else m ! v)"
proof -
  show "length (foldl (\<lambda>m v. m[v := idx]) m vs) = length m" for m
    by (induction vs arbitrary: m) auto
  show "v < length m \<Longrightarrow> foldl (\<lambda>m v. m[v := idx]) m vs ! v = (if v \<in> set vs then idx else m ! v)"
    by (induction vs arbitrary: m) (auto simp: nth_list_update)
qed

lemma stampVars_mem:
  assumes "stamps_ok n st" "v \<le> n"
  shows "m_stampVar (stampVars st V) ! v = m_stampIdx (stampVars st V) \<longleftrightarrow> v \<in> set V"
proof -
  have "m_stampVar st ! v \<le> m_stampIdx st" "m_stampIdx st < - 1" using assms by (auto simp: stamps_ok_def)
  then have "m_stampVar st ! v \<noteq> m_stampIdx st + 1"
    by (rule word_stamp_fresh)
  moreover have "v < length (m_stampVar st)" using assms by (simp add: stamps_ok_def)
  ultimately show ?thesis by (simp add: stampVars_def Let_def foldl_stamp(2))
qed

section \<open>The entry points\<close>

text \<open>A set of variables that can be counted over under an assumption: the assumed literals outside
  of it leave it closed, and no clause falls outside.\<close>

definition count_ok :: "nat \<Rightarrow> cnf \<Rightarrow> var list \<Rightarrow> lit list \<Rightarrow> bool" where
  "count_ok n F V as \<longleftrightarrow> sorted V \<and> distinct V \<and> (\<forall>v\<in>set V. 1 \<le> v \<and> v \<le> n) \<and> trail_ok n as
     \<and> closed F (set (filter (\<lambda>l. var l \<notin> set V) as)) (set V) \<and> rest_sat F as (set V)"

context dpll_parts
begin

lemma branch_finish:
  assumes st: "st_ok sinv stk st" and b: "valid (m_operation st) (d b)" "branch_ok n P b"
    and op: "op_manageBranch (e_operation E) (m_operation st) b = (u, x)"
  shows "st_ok sinv stk (st\<lparr>m_operation := x\<rparr>)" "valid x u" "val x u = branch_val (m_operation st) b"
    "le (m_operation st) x"
  using op_branch [OF st_ok_fields(3) [OF st] b op] st c_inv_le [of "m_operation st" x "m_cache st"]
  by (auto simp: st_ok_def branch_val_def)

text \<open>\<^verbatim>\<open>compute\<close> without the warm start, as \<^verbatim>\<open>count\<close> calls it.\<close>

lemma compute_cold_ok:
  assumes S: "solver_contract (e_solver E) n F sinv desc" and call: "call_ok sinv desc stk st V"
    and fuel: "length V < fuel" and unsat: "m_isUnsat (e_problem E) \<Longrightarrow> \<not> sat (fml F [])"
  shows "\<exists>u st'. compute E rnd fuel False st V = Some (u, st') \<and> st_ok sinv stk st'
    \<and> valid (m_operation st') u
    \<and> val (m_operation st') u =
        pcount w P (fml F (slv_getAssumption (e_solver E) (m_solver st))) (set V)"
proof -
  note c = call_facts [OF call refl]
  show ?thesis
  proof (cases "m_isUnsat (e_problem E)")
    case True
    obtain u x where bot: "op_manageBottom (e_operation E) (m_operation st) = (u, x)" by fastforce
    note o = op_bottom [OF st_ok_fields(3) [OF c(1)] bot]
    have "\<not> sat (fml F (slv_getAssumption (e_solver E) (m_solver st)))"
      using unsat [OF True] by (auto simp: sat_def fml_def)
    then show ?thesis
      using True bot o c(1) c_inv_le [of "m_operation st" x "m_cache st"]
      by (simp add: compute_def pcount_unsat st_ok_def)
  next
    case False
    have "card (set V - var ` set (slv_getAssumption (e_solver E) (m_solver st))) \<le> card (set V)"
      by (intro card_mono) auto
    also have "\<dots> \<le> length V" by (rule card_length)
    finally obtain b st' where r: "compute_rec E fuel st V = Some (b, st')" "step_ok sinv desc stk st st'"
      "valid (m_operation st') (d b)" "branch_ok n P b"
      "branch_val (m_operation st') b =
         pcount w P (fml F (slv_getAssumption (e_solver E) (m_solver st))) (set V)"
      using compute_rec_ok [OF S, of fuel] call fuel unfolding rec_spec_def by (meson order_le_less_trans)
    obtain u x where op: "op_manageBranch (e_operation E) (m_operation st') b = (u, x)" by fastforce
    note f = branch_finish [OF step_ok_st [OF r(2)] r(3,4) op]
    have "m_solver (st\<lparr>m_solver := m_solver st\<rparr>) = m_solver st" "st\<lparr>m_solver := m_solver st\<rparr> = st" by simp_all
    then show ?thesis using False r(1,5) op f by (simp add: compute_def)
  qed
qed

text \<open>\<^verbatim>\<open>run\<close>: the warm start first, then the whole formula.\<close>

lemma run_ok:
  assumes S: "solver_contract (e_solver E) n F sinv desc" and st: "st_ok sinv [] st"
    and A: "slv_getAssumption (e_solver E) (m_solver st) = []" and nv: "m_nbVar (e_problem E) = n"
    and P: "P \<inter> {1..n} \<noteq> {}" and fuel: "n < fuel"
    and unsat: "m_isUnsat (e_problem E) \<Longrightarrow> \<not> sat (fml F [])"
  shows "\<exists>u st'. run E rnd fuel st = Some (u, st') \<and> st_ok sinv [] st' \<and> valid (m_operation st') u
    \<and> val (m_operation st') u = pcount w P (fml F []) {1..n}"
proof -
  let ?V = "[1 ..< n + 1]" and ?D = "filter (\<lambda>v. e_isDecisionVariable E ! v) [1 ..< n + 1]"
  have V: "set ?V = {1..n}" "sorted ?V" "distinct ?V"
    by (auto simp del: upt_Suc)
  have D: "?D \<noteq> []" "\<forall>v\<in>set ?D. 1 \<le> v \<and> v \<le> n" using P dec_var by (auto simp: filter_empty_conv)
  have bottom: "\<exists>u st'. (let (u, ops) = op_manageBottom (e_operation E) (m_operation st1)
      in Some (u, st1\<lparr>m_operation := ops\<rparr>)) = Some (u, st') \<and> st_ok sinv [] st' \<and> valid (m_operation st') u
      \<and> val (m_operation st') u = pcount w P (fml F []) {1..n}"
    if st1: "st_ok sinv [] st1" and un: "\<not> sat (fml F [])" for st1
  proof -
    obtain u x where bot: "op_manageBottom (e_operation E) (m_operation st1) = (u, x)" by fastforce
    note o = op_bottom [OF st_ok_fields(3) [OF st1] bot]
    show ?thesis
      using bot o st1 un c_inv_le [of "m_operation st1" x "m_cache st1"]
      by (simp add: pcount_unsat st_ok_def)
  qed
  show ?thesis
  proof (cases "m_isUnsat (e_problem E)")
    case True
    then show ?thesis using bottom [OF st unsat] by (simp add: run_def compute_def)
  next
    case False
    obtain isSat s where ws: "warmStart (e_solver E) rnd 29 11 ?D (m_solver st) = (isSat, s)" by fastforce
    note ok = warmStart_ok [OF S D st_ok_fields(1) [OF st] ws]
    let ?st1 = "st\<lparr>m_solver := s\<rparr>"
    have st1: "st_ok sinv [] ?st1" using st ok(1) by (simp add: st_ok_def)
    show ?thesis
    proof (cases isSat)
      case False
      have e: "run E rnd fuel st = (let (u, ops) = op_manageBottom (e_operation E) (m_operation ?st1)
          in Some (u, ?st1\<lparr>m_operation := ops\<rparr>))"
        using \<open>\<not> m_isUnsat (e_problem E)\<close> False ws nv by (simp add: run_def compute_def)
      have "\<not> sat (fml F [])" using False ok(2) A by simp
      then show ?thesis unfolding e by (rule bottom [OF st1])
    next
      case True
      have A1: "slv_getAssumption (e_solver E) (m_solver ?st1) = []" using ok(3) True by simp
      have vars: "clause_vars c \<subseteq> {1..n} \<and> clause_vars c \<noteq> {}" if "c \<in> set F" for c
        using fm_cnf_ok [OF st_ok_fields(2) [OF st]] that by (auto simp: cnf_ok_def clause_ok_def clause_vars_def)
      then have "clause_vars c \<inter> {1..n} \<noteq> {}" if "c \<in> set F" for c using that by blast
      then have rs: "rest_sat F [] (set ?V)" unfolding rest_sat_def V(1) by auto
      have cl: "closed F {} (set ?V)" using vars unfolding closed_def V(1) by auto
      have tk: "trail_known desc [] (m_solver ?st1)"
        unfolding trail_known_def known_def by auto
      have "call_ok sinv desc [] ?st1 ?V"
        unfolding call_ok_def Let_def A1 using st1 rs cl tk V(2,3) by (auto simp del: upt_Suc)
      moreover have "card (set ?V - var ` set (slv_getAssumption (e_solver E) (m_solver ?st1))) < fuel"
        unfolding A1 V(1) using fuel by simp
      ultimately obtain b st' where r: "compute_rec E fuel ?st1 ?V = Some (b, st')"
        "step_ok sinv desc [] ?st1 st'" "valid (m_operation st') (d b)" "branch_ok n P b"
        "branch_val (m_operation st') b = pcount w P (fml F []) {1..n}"
        using compute_rec_ok [OF S, of fuel] unfolding rec_spec_def A1 [symmetric] V(1) [symmetric] by blast
      obtain u x where op: "op_manageBranch (e_operation E) (m_operation st') b = (u, x)" by fastforce
      note f = branch_finish [OF step_ok_st [OF r(2)] r(3,4) op]
      have "run E rnd fuel st = Some (u, st'\<lparr>m_operation := x\<rparr>)"
        using False True ws r(1) op nv by (simp add: run_def compute_def del: upt_Suc)
      then show ?thesis using f r(5) by simp
    qed
  qed
qed

text \<open>\<^verbatim>\<open>count\<close>: counting over \<open>V\<close> under an assumption; the assumed literals outside \<open>V\<close> are the
  trail of the call.\<close>

lemma initAssumption_ok:
  assumes S: "solver_contract S n F sinv desc" and s: "sinv s"
    and l: "\<forall>l\<in>set ls. 1 \<le> var l \<and> var l \<le> n"
  shows "sinv (initAssumption S s ls)" "slv_getAssumption S (initAssumption S s ls) = ls"
proof -
  let ?s1 = "slv_restart S s"
  let ?s2 = "slv_popAssumption S ?s1 (length (slv_getAssumption S ?s1))"
  have "sinv ?s2" using solver_pop(1) [OF S solver_restart(1) [OF S s] order_refl] .
  from setAssumption_ok [OF S this l]
  show "sinv (initAssumption S s ls)" "slv_getAssumption S (initAssumption S s ls) = ls"
    by (simp_all add: initAssumption_def Let_def)
qed

lemma count_correct:
  assumes C: "counting_operation (e_operation E) n P w op_inv le valid val"
    and S: "solver_contract (e_solver E) n F sinv desc" and st: "st_ok sinv [] st"
    and stamps: "stamps_ok n st" and ok: "count_ok n F V as" and fuel: "length V < fuel"
    and unsat: "m_isUnsat (e_problem E) \<Longrightarrow> \<not> sat (fml F [])"
  shows "\<exists>st'. count E rnd fuel st V as = Some (pcount w P (fml F as) (set V), st') \<and> st_ok sinv [] st'"
proof -
  let ?s = "initAssumption (e_solver E) (m_solver st) as"
  define st1 where "st1 = stampVars (st\<lparr>m_solver := ?s\<rparr>) V"
  have "\<forall>l\<in>set as. 1 \<le> var l \<and> var l \<le> n" using ok by (simp add: count_ok_def trail_ok_def)
  note i = initAssumption_ok [OF S st_ok_fields(1) [OF st] this]
  have st1: "m_solver st1 = ?s" "m_specs st1 = m_specs st" "m_operation st1 = m_operation st"
    "m_heuristic st1 = m_heuristic st" "m_cache st1 = m_cache st"
    by (simp_all add: st1_def stampVars_def Let_def)
  define sh where "sh = filter (\<lambda>l. var l \<notin> set V) as"
  have "m_stampVar st1 ! var l \<noteq> m_stampIdx st1 \<longleftrightarrow> var l \<notin> set V" if "l \<in> set as" for l
  proof -
    have "stamps_ok n (st\<lparr>m_solver := ?s\<rparr>)" using stamps by (simp add: stamps_ok_def)
    moreover have "var l \<le> n" using ok that by (simp add: count_ok_def trail_ok_def)
    ultimately show ?thesis unfolding st1_def using stampVars_mem by blast
  qed
  then have sh': "filter (\<lambda>l. m_stampVar st1 ! var l \<noteq> m_stampIdx st1) as = sh"
    unfolding sh_def by (intro filter_cong) auto
  have tr: "trail_ok n (sh @ concat [])"
    using ok by (auto simp: count_ok_def trail_ok_def sh_def distinct_map_filter)
  obtain sh2 f where pre: "fm_preUpdate (e_specs E) (m_specs st1) sh = (sh2, f)" by fastforce
  have fm: "sh2 = sh" "fm_inv f [sh]"
    using fm_pre [OF _ tr pre] st_ok_fields(2) [OF st] st1(2) by auto
  let ?st2 = "st1\<lparr>m_specs := f\<rparr>"
  have st2: "st_ok sinv [sh] ?st2" using st st1 i fm(2) by (simp add: st_ok_def)
  have A2: "slv_getAssumption (e_solver E) (m_solver ?st2) = as" using i st1 by simp
  have "trail_known desc (concat [sh]) (m_solver ?st2)"
    unfolding trail_known_def known_def A2 by (intro exI [of _ "{}"]) (auto simp: sh_def)
  moreover have "\<forall>s. fml F as s \<longrightarrow> lits_hold s (concat [sh])"
    by (auto simp: fml_def lits_hold_def sh_def)
  moreover have "var ` set as \<subseteq> var ` set (concat [sh]) \<union> set V" by (auto simp: sh_def)
  moreover have "\<forall>v\<in>set V. 1 \<le> v \<and> v \<le> n \<and> v \<notin> var ` set (concat [sh])"
    using ok by (auto simp: count_ok_def sh_def)
  ultimately have call: "call_ok sinv desc [sh] ?st2 V"
    using ok st2 unfolding call_ok_def Let_def A2 by (simp add: count_ok_def sh_def)
  obtain u st3 where r: "compute E rnd fuel False ?st2 V = Some (u, st3)" "st_ok sinv [sh] st3"
    "valid (m_operation st3) u" "val (m_operation st3) u = pcount w P (fml F as) (set V)"
    using compute_cold_ok [OF S call fuel unsat, of rnd] A2 by auto
  let ?st4 = "st3\<lparr>m_specs := fm_postUpdate (e_specs E) (m_specs st3) sh\<rparr>"
  have st4: "st_ok sinv [] ?st4" using r(2) fm_post by (simp add: st_ok_def)
  obtain x y where cnt: "op_count (e_operation E) (m_operation st3) u = (x, y)" by fastforce
  have o: "x = pcount w P (fml F as) (set V)" "op_inv y" "le (m_operation st3) y"
    using counting_operation.op_cnt [OF C _ r(3) cnt] r(2,4) by (auto simp: st_ok_def)
  have "st_ok sinv [] (?st4\<lparr>m_operation := y\<rparr>)"
    using st4 o(2,3) c_inv_le [of "m_operation st3" y "m_cache st3"] by (simp add: st_ok_def)
  moreover have "count E rnd fuel st V as = Some (x, ?st4\<lparr>m_operation := y\<rparr>)"
    using sh' pre fm(1) r(1) cnt by (simp add: count_def st1_def Let_def)
  ultimately show ?thesis using o(1) by blast
qed

text \<open>The two entry points from a state whose cache is empty.\<close>

lemma start_ok:
  assumes "sinv (m_solver st)" "fm_inv (m_specs st) []" "op_inv (m_operation st)" "h_inv (m_heuristic st)"
    and "\<And>G. c_inv G (m_cache st)"
  shows "st_ok sinv [] st"
  using assms by (simp add: st_ok_def)

lemma run_start:
  assumes "solver_contract (e_solver E) n F sinv desc"
    and "sinv (m_solver st)" "fm_inv (m_specs st) []" "op_inv (m_operation st)" "h_inv (m_heuristic st)"
    and "\<And>G. c_inv G (m_cache st)" "slv_getAssumption (e_solver E) (m_solver st) = []"
    and "m_nbVar (e_problem E) = n" "P \<inter> {1..n} \<noteq> {}" "n < fuel"
    and "m_isUnsat (e_problem E) \<Longrightarrow> \<not> sat (fml F [])"
  shows "\<exists>u st'. run E rnd fuel st = Some (u, st') \<and> op_inv (m_operation st') \<and> valid (m_operation st') u
    \<and> val (m_operation st') u = pcount w P (fml F []) {1..n}"
  using run_ok [OF assms(1) start_ok [where sinv = sinv and st = st, OF assms(2-6)] assms(7-11), of rnd] st_ok_fields(3) by blast

lemma count_start:
  assumes "counting_operation (e_operation E) n P w op_inv le valid val"
    and "solver_contract (e_solver E) n F sinv desc"
    and "sinv (m_solver st)" "fm_inv (m_specs st) []" "op_inv (m_operation st)" "h_inv (m_heuristic st)"
    and "\<And>G. c_inv G (m_cache st)" "stamps_ok n st" "count_ok n F V as" "length V < fuel"
    and "m_isUnsat (e_problem E) \<Longrightarrow> \<not> sat (fml F [])"
  shows "\<exists>st'. count E rnd fuel st V as = Some (pcount w P (fml F as) (set V), st')"
  using count_correct [OF assms(1,2) start_ok [where sinv = sinv and st = st, OF assms(3-7)] assms(8-11), of rnd] by blast

end

end
