(* ===== verification/Counting.thy ===== *)
theory Counting
  imports Contracts
begin

text \<open>
  \<^verbatim>\<open>src/src/methods/CountingOperation.hpp\<close>: the operation that counts. Its results are the counts
  themselves and it keeps no state of its own, so the state is the unit type.
\<close>

section \<open>The operation\<close>

definition manageDeterministOr :: "'a::comm_semiring_1 problem \<Rightarrow> 'a DataBranch list \<Rightarrow> 'a" where
  "manageDeterministOr p elts =
     foldl (\<lambda>ret e. ret + d e * computeWeightUnitFree p (unitLits e) (freeVars e)) 0 elts"

definition manageDecomposableAnd :: "'a::comm_semiring_1 list \<Rightarrow> 'a" where
  "manageDecomposableAnd elts =
     (if length elts = 1 then elts ! 0
      else if length elts = 2 then elts ! 0 * elts ! 1
      else foldl (\<lambda>ret e. ret * e) 1 elts)"

definition manageBranch :: "'a::comm_semiring_1 problem \<Rightarrow> 'a DataBranch \<Rightarrow> 'a" where
  "manageBranch p e = d e * computeWeightUnitFree p (unitLits e) (freeVars e)"

definition countingOperation ::
  "'a::comm_semiring_1 problem \<Rightarrow> (unit, 's, 'a, 'a) operation_if" where
  "countingOperation p =
     \<lparr>op_createTop = \<lambda>x. (1, x), op_manageBottom = \<lambda>x. (0, x), op_manageTop = \<lambda>x s C. (1, x),
      op_manageSolution = \<lambda>x s C. (1, x, s), op_manageBranch = \<lambda>x e. (manageBranch p e, x),
      op_manageDeterministicOr = \<lambda>x elts. (manageDeterministOr p elts, x),
      op_manageDecomposableAnd = \<lambda>x elts. (manageDecomposableAnd elts, x),
      op_count = \<lambda>x result. (result, x)\<rparr>"

text \<open>Counting a result under an assumption is not possible: only a compiled form can be queried.\<close>

definition count_under :: "'a \<Rightarrow> lit list \<Rightarrow> error + 'a" where
  "count_under result assum =
     Inl (BadBehaviourException ''This operation is not allowed in this context.'')"

section \<open>What it computes\<close>

lemma manageDeterministOr_sum:
  "manageDeterministOr p elts =
     sum_list (map (\<lambda>e. d e * computeWeightUnitFree p (unitLits e) (freeVars e)) elts)"
  by (simp add: manageDeterministOr_def foldl_add)

lemma manageDecomposableAnd_prod: "manageDecomposableAnd elts = prod_list elts"
proof -
  have "foldl (\<lambda>ret e. ret * e) 1 elts = prod_list elts"
    using foldl_mult [of "\<lambda>x. x" 1 elts] by simp
  then show ?thesis
    by (auto simp: manageDecomposableAnd_def length_Suc_conv numeral_2_eq_2)
qed

text \<open>The weight of a branch whose literals are decision literals.\<close>

lemma computeWeight_branch_ok:
  assumes "weights_ok p" "branch_ok (m_nbVar p) P b"
  shows "computeWeightUnitFree p (unitLits b) (freeVars b) =
    branch_weight (weight_of p) P (unitLits b) (freeVars b)"
proof -
  have "filter (\<lambda>l. var l \<in> P) (unitLits b) = unitLits b" "filter (\<lambda>v. v \<in> P) (freeVars b) = freeVars b"
    "\<forall>v\<in>set (freeVars b). v \<le> m_nbVar p"
    using assms(2) by (auto simp: branch_ok_def)
  with computeWeight_branch_weight [OF assms(1), of "freeVars b" P "unitLits b"] show ?thesis by simp
qed

interpretation cnt: counting_operation "countingOperation p" "m_nbVar p" P "weight_of p"
    "\<lambda>_. weights_ok p" "\<lambda>_ _. True" "\<lambda>_ _. True" "\<lambda>_ u. u"
  for p :: "'a::comm_semiring_1 problem" and P
  by unfold_locales
    (auto simp: countingOperation_def manageDeterministOr_sum manageDecomposableAnd_prod manageBranch_def
        computeWeight_branch_ok cong: map_cong intro!: arg_cong [where f = sum_list] map_cong)

end
