(* ===== verification/Nnf.thy ===== *)
theory Nnf
  imports Contracts
begin

text \<open>
  The decision-DNNF graphs of \<^verbatim>\<open>src/src/methods/nnf\<close>: the nodes, the page allocator and the node
  constructors of \<^verbatim>\<open>NodeManager\<close>, and the queries that walk the graph, memoised by stamps.

  A node pointer is the rank of the node in the order of allocation; \<open>m_blocks\<close> keeps the memory
  block (page, offset, size) of each node. \<open>m_width\<close> is the width of the unsigned type \<^verbatim>\<open>U\<close>, the
  template argument that stores literals, variables and sizes (8, 16 or 32 bits): a number stored
  in a \<^verbatim>\<open>U\<close> is taken modulo \<open>2 ^ m_width\<close>.
\<close>

section \<open>Nodes\<close>

datatype TypeNode = TypeIteNode | TypeUnaryNode | TypeDecAndNode | TypeTrueNode | TypeFalseNode

datatype ValueVar = isTrue | isFalse | isNotAssigned

record Branch =
  br_d :: nat
  nbUnits :: nat
  nbFree :: nat

datatype 'a node =
    TrueNode (header_stamp: "28 word") (nbModels: 'a)
  | FalseNode (header_stamp: "28 word") (nbModels: 'a)
  | UnaryNode (header_stamp: "28 word") (nbModels: 'a) "Branch" "nat list"
  | IteNode (header_stamp: "28 word") (nbModels: 'a) "Branch" "Branch" "nat list"
  | DecAndNode (header_stamp: "28 word") (nbModels: 'a) nat "nat list"

text \<open>Write the two mutable fields of a node.\<close>

fun mark :: "28 word \<Rightarrow> 'a \<Rightarrow> 'a node \<Rightarrow> 'a node" where
  "mark s v (TrueNode _ _) = TrueNode s v"
| "mark s v (FalseNode _ _) = FalseNode s v"
| "mark s v (UnaryNode _ _ b data) = UnaryNode s v b data"
| "mark s v (IteNode _ _ l r data) = IteNode s v l r data"
| "mark s v (DecAndNode _ _ nbSons sons) = DecAndNode s v nbSons sons"

section \<open>The node manager\<close>

record 'a nodeManager =
  m_width :: nat
  m_nodes :: "'a node list"
  m_blocks :: "(nat \<times> nat \<times> nat) list"
  m_memoryPages :: nat
  m_posInMemoryPage :: nat
  m_globalStamp :: "32 word"

definition PAGE_SIZE :: nat where "PAGE_SIZE = 2 ^ 24"

definition getMemory :: "nat \<Rightarrow> 'a nodeManager \<Rightarrow> (nat \<times> nat) \<times> 'a nodeManager" where
  "getMemory nbBytes nm =
     (let nm' = (if m_posInMemoryPage nm + nbBytes \<ge> PAGE_SIZE
                 then nm\<lparr>m_posInMemoryPage := 0, m_memoryPages := m_memoryPages nm + 1\<rparr>
                 else nm)
      in ((m_memoryPages nm' - 1, m_posInMemoryPage nm'),
          nm'\<lparr>m_posInMemoryPage := m_posInMemoryPage nm' + nbBytes\<rparr>))"

text \<open>Placement \<^verbatim>\<open>new\<close>: get the memory of a node and construct it there.\<close>

definition newNode ::
  "nat \<Rightarrow> 'a node \<Rightarrow> 'a nodeManager \<Rightarrow> nat \<times> 'a nodeManager" where
  "newNode nbBytes nd nm =
     (let ((page, pos), nm') = getMemory nbBytes nm
      in (length (m_nodes nm'),
          nm'\<lparr>m_nodes := m_nodes nm' @ [nd], m_blocks := m_blocks nm' @ [(page, pos, nbBytes)]\<rparr>))"

text \<open>\<open>sz\<close> gives the sizes of the node classes, which the compiler chooses.\<close>

definition nodeManagerTyped :: "(TypeNode \<Rightarrow> nat) \<Rightarrow> nat \<Rightarrow> 'a::zero nodeManager" where
  "nodeManagerTyped sz W =
     (let nm0 = \<lparr>m_width = W, m_nodes = [], m_blocks = [], m_memoryPages = 1, m_posInMemoryPage = 0,
                 m_globalStamp = 0\<rparr>;
          (trueNode, nm1) = newNode (sz TypeTrueNode) (TrueNode 0 0) nm0;
          (falseNode, nm2) = newNode (sz TypeFalseNode) (FalseNode 0 0) nm1
      in nm2)"

text \<open>The factory picks the width of \<^verbatim>\<open>U\<close> from the number of variables.\<close>

definition nodeWidth :: "nat \<Rightarrow> nat" where
  "nodeWidth nbVar =
     (if nbVar < push_bit 7 1 then 8 else if nbVar < push_bit 15 1 then 16 else 32)"

definition makeNodeManager :: "(TypeNode \<Rightarrow> nat) \<Rightarrow> nat \<Rightarrow> 'a::zero nodeManager" where
  "makeNodeManager sz nbVar = nodeManagerTyped sz (nodeWidth nbVar)"

definition makeTrueNode :: "'a nodeManager \<Rightarrow> nat" where "makeTrueNode nm = 0"
definition makeFalseNode :: "'a nodeManager \<Rightarrow> nat" where "makeFalseNode nm = 1"

definition toU :: "nat \<Rightarrow> nat \<Rightarrow> nat" where "toU W x = x mod 2 ^ W"

definition branchData :: "nat \<Rightarrow> nat DataBranch \<Rightarrow> nat list" where
  "branchData W b = map (\<lambda>l. toU W (intern l)) (unitLits b) @ map (toU W) (freeVars b)"

definition branchOf :: "nat \<Rightarrow> nat DataBranch \<Rightarrow> Branch" where
  "branchOf W b = \<lparr>br_d = d b, nbUnits = toU W (length (unitLits b)),
                   nbFree = toU W (length (freeVars b))\<rparr>"

definition makeBinaryDeterministicOrNode ::
  "(TypeNode \<Rightarrow> nat) \<Rightarrow> nat DataBranch \<Rightarrow> nat DataBranch \<Rightarrow> 'a::zero nodeManager
     \<Rightarrow> nat \<times> 'a nodeManager" where
  "makeBinaryDeterministicOrNode sz left right nm =
     newNode (sz TypeIteNode + (sumFreeUnit left + sumFreeUnit right) * (m_width nm div 8))
       (IteNode 0 0 (branchOf (m_width nm) left) (branchOf (m_width nm) right)
          (branchData (m_width nm) left @ branchData (m_width nm) right)) nm"

definition makeUnaryNode ::
  "(TypeNode \<Rightarrow> nat) \<Rightarrow> nat DataBranch \<Rightarrow> 'a::zero nodeManager
     \<Rightarrow> nat \<times> 'a nodeManager" where
  "makeUnaryNode sz branch nm =
     newNode (sz TypeUnaryNode + (m_width nm div 8) * sumFreeUnit branch)
       (UnaryNode 0 0 (branchOf (m_width nm) branch) (branchData (m_width nm) branch)) nm"

definition makeDecomposableAndNode ::
  "(TypeNode \<Rightarrow> nat) \<Rightarrow> nat list \<Rightarrow> 'a::zero nodeManager
     \<Rightarrow> nat \<times> 'a nodeManager" where
  "makeDecomposableAndNode sz sons nm =
     (if length sons = 1 then (sons ! 0, nm)
      else newNode (sz TypeDecAndNode + length sons * 8)
             (DecAndNode 0 0 (toU (m_width nm) (length sons)) sons) nm)"

section \<open>Counting the models of a graph\<close>

definition isUnsatLit :: "ValueVar \<Rightarrow> nat \<Rightarrow> bool" where
  "isUnsatLit val l =
     (if val = isNotAssigned then False
      else (val = isTrue \<and> l AND 1 \<noteq> 0) \<or> (val = isFalse \<and> l AND 1 = 0))"

text \<open>The loop over the unit literals leaves with None when one is false.\<close>

fun unitsLoop :: "ValueVar list \<Rightarrow> 'a::comm_semiring_1 problem \<Rightarrow> nat list \<Rightarrow> 'a \<Rightarrow> 'a option" where
  "unitsLoop fixedValue p [] computeWeight = Some computeWeight"
| "unitsLoop fixedValue p (l # units) computeWeight =
     (if isUnsatLit (fixedValue ! drop_bit 1 l) l then None
      else unitsLoop fixedValue p units (computeWeight * m_weightLit p ! l))"

definition freeLoop :: "ValueVar list \<Rightarrow> 'a::comm_semiring_1 problem \<Rightarrow> nat list \<Rightarrow> 'a \<Rightarrow> 'a" where
  "freeLoop fixedValue p frees computeWeight = foldl
     (\<lambda>cw v. cw * (case fixedValue ! v of
         isFalse \<Rightarrow> m_weightLit p ! (push_bit 1 v OR 1)
       | isTrue \<Rightarrow> m_weightLit p ! push_bit 1 (v)
       | isNotAssigned \<Rightarrow> m_weightVar p ! v))
     computeWeight frees"

definition branch_computeNbModels ::
  "('a::comm_semiring_1 node list \<Rightarrow> nat \<Rightarrow> ('a \<times> 'a node list) option)
     \<Rightarrow> ValueVar list \<Rightarrow> 'a problem \<Rightarrow> Branch \<Rightarrow> nat list \<Rightarrow> 'a node list
     \<Rightarrow> ('a \<times> 'a node list) option" where
  "branch_computeNbModels rec fixedValue p b data h =
     (case unitsLoop fixedValue p (take (nbUnits b) data) 1 of
        None \<Rightarrow> Some (0, h)
      | Some cw \<Rightarrow> Option.bind (rec h (br_d b)) (\<lambda>(c, h').
          Some (c * freeLoop fixedValue p (take (nbFree b) (drop (nbUnits b) data)) cw, h')))"

fun andLoop ::
  "('h \<Rightarrow> nat \<Rightarrow> ('a::comm_semiring_1 \<times> 'h) option) \<Rightarrow> nat list \<Rightarrow> 'a \<Rightarrow> 'h \<Rightarrow> ('a \<times> 'h) option" where
  "andLoop rec [] acc h = Some (acc, h)"
| "andLoop rec (s # sons) acc h = Option.bind (rec h s) (\<lambda>(c, h').
     let acc' = acc * c in if acc' = 0 then Some (acc', h') else andLoop rec sons acc' h')"

text \<open>
  The functions \<^verbatim>\<open>computeNbModels\<close> of the five node classes, dispatched on the type of the node.
  The fuel bounds the depth of the recursion.
\<close>

fun nodeNbModels ::
  "ValueVar list \<Rightarrow> 'a::comm_semiring_1 problem \<Rightarrow> 32 word \<Rightarrow> nat \<Rightarrow> 'a node list \<Rightarrow> nat
     \<Rightarrow> ('a \<times> 'a node list) option" where
  "nodeNbModels fixedValue p gs 0 h a = None"
| "nodeNbModels fixedValue p gs (Suc k) h a =
     (let rec = nodeNbModels fixedValue p gs k;
          store = (\<lambda>(v, h'). Some (v, h'[a := mark (ucast gs) v (h' ! a)]))
      in case h ! a of
           TrueNode s nb \<Rightarrow> Some (1, h)
         | FalseNode s nb \<Rightarrow> Some (0, h)
         | UnaryNode s nb b data \<Rightarrow>
             if ucast s = gs then Some (nb, h)
             else Option.bind (branch_computeNbModels rec fixedValue p b data h) store
         | IteNode s nb l r data \<Rightarrow>
             if ucast s = gs then Some (nb, h)
             else Option.bind (branch_computeNbModels rec fixedValue p l data h) (\<lambda>(v, h1).
                    Option.bind (branch_computeNbModels rec fixedValue p r
                        (drop (nbUnits l + nbFree l) data) h1) (\<lambda>(v', h2). store (v + v', h2)))
         | DecAndNode s nb nbSons sons \<Rightarrow>
             if ucast s = gs then Some (nb, h)
             else Option.bind (andLoop rec (take nbSons sons) 1 h) store)"

definition nm_computeNbModels ::
  "nat \<Rightarrow> nat \<Rightarrow> ValueVar list \<Rightarrow> 'a::comm_semiring_1 problem \<Rightarrow> 'a nodeManager
     \<Rightarrow> ('a \<times> 'a nodeManager) option" where
  "nm_computeNbModels fuel a fixedValue p nm =
     (let gs = m_globalStamp nm + 1
      in map_option (\<lambda>(v, h). (v, nm\<lparr>m_nodes := h, m_globalStamp := gs\<rparr>))
           (nodeNbModels fixedValue p gs fuel (m_nodes nm) a))"

section \<open>The value of a graph\<close>

text \<open>
  The specification: the values of all nodes in the order of allocation, for weights \<open>lw\<close> of the
  encoded literals and \<open>vw\<close> of the free variables. No stamp is involved.
\<close>

definition brValue ::
  "(nat \<Rightarrow> 'a::comm_semiring_1) \<Rightarrow> (nat \<Rightarrow> 'a) \<Rightarrow> 'a list \<Rightarrow> Branch \<Rightarrow> nat list \<Rightarrow> 'a" where
  "brValue lw vw vs b data =
     vs ! br_d b * prod_list (map (\<lambda>l. lw l) (take (nbUnits b) data))
     * prod_list (map (\<lambda>v. vw v) (take (nbFree b) (drop (nbUnits b) data)))"

fun nodeValue ::
  "(nat \<Rightarrow> 'a::comm_semiring_1) \<Rightarrow> (nat \<Rightarrow> 'a) \<Rightarrow> 'a list \<Rightarrow> 'b node \<Rightarrow> 'a" where
  "nodeValue lw vw vs (TrueNode _ _) = 1"
| "nodeValue lw vw vs (FalseNode _ _) = 0"
| "nodeValue lw vw vs (UnaryNode _ _ b data) = brValue lw vw vs b data"
| "nodeValue lw vw vs (IteNode _ _ l r data) =
     brValue lw vw vs l data + brValue lw vw vs r (drop (nbUnits l + nbFree l) data)"
| "nodeValue lw vw vs (DecAndNode _ _ nbSons sons) = prod_list (map ((!) vs) (take nbSons sons))"

definition graphValues ::
  "(nat \<Rightarrow> 'a::comm_semiring_1) \<Rightarrow> (nat \<Rightarrow> 'a) \<Rightarrow> 'b node list \<Rightarrow> 'a list" where
  "graphValues lw vw h = foldl (\<lambda>vs nd. vs @ [nodeValue lw vw vs nd]) [] h"

fun children :: "'a node \<Rightarrow> nat set" where
  "children (TrueNode _ _) = {}"
| "children (FalseNode _ _) = {}"
| "children (UnaryNode _ _ b data) = {br_d b}"
| "children (IteNode _ _ l r data) = {br_d l, br_d r}"
| "children (DecAndNode _ _ nbSons sons) = set (take nbSons sons)"

definition heap_ok :: "'a node list \<Rightarrow> bool" where
  "heap_ok h \<longleftrightarrow> (\<forall>i<length h. \<forall>c\<in>children (h ! i). c < i)"

text \<open>Two graphs that differ in stamps and stored counts only.\<close>

definition same_graph :: "'a::zero node list \<Rightarrow> 'a node list \<Rightarrow> bool" where
  "same_graph h h' \<longleftrightarrow> map (mark 0 0) h = map (mark 0 0) h'"

definition memo_ok :: "32 word \<Rightarrow> 'a list \<Rightarrow> 'a node list \<Rightarrow> bool" where
  "memo_ok gs vs h \<longleftrightarrow> (\<forall>i<length h. ucast (header_stamp (h ! i)) = gs \<longrightarrow> nbModels (h ! i) = vs ! i)"

lemma graphValues_snoc:
  "graphValues lw vw (h @ [nd]) = graphValues lw vw h @ [nodeValue lw vw (graphValues lw vw h) nd]"
  by (simp add: graphValues_def)

lemma length_graphValues [simp]: "length (graphValues lw vw h) = length h"
  by (induction h rule: rev_induct) (auto simp: graphValues_snoc graphValues_def)

lemma graphValues_append_nth:
  "a < length h \<Longrightarrow> graphValues lw vw (h @ h') ! a = graphValues lw vw h ! a"
  by (induction h' rule: rev_induct) (auto simp: graphValues_snoc append_assoc [symmetric] nth_append
      simp del: append_assoc)

lemma nodeValue_cong:
  "(\<And>c. c \<in> children nd \<Longrightarrow> vs ! c = vs' ! c) \<Longrightarrow> nodeValue lw vw vs nd = nodeValue lw vw vs' nd"
  by (cases nd) (auto simp: brValue_def intro!: arg_cong [where f = prod_list] map_cong)

lemma graphValues_nth:
  assumes "heap_ok h" "a < length h"
  shows "graphValues lw vw h ! a = nodeValue lw vw (graphValues lw vw h) (h ! a)"
proof -
  have "graphValues lw vw h ! a = graphValues lw vw (take (Suc a) h) ! a"
    using graphValues_append_nth [of a "take (Suc a) h" lw vw "drop (Suc a) h"] assms(2) by simp
  also have "\<dots> = nodeValue lw vw (graphValues lw vw (take a h)) (h ! a)"
    using assms(2) by (simp add: take_Suc_conv_app_nth graphValues_snoc nth_append)
  also have "\<dots> = nodeValue lw vw (graphValues lw vw h) (h ! a)"
  proof (rule nodeValue_cong)
    fix c assume "c \<in> children (h ! a)"
    then have "c < a" using assms by (auto simp: heap_ok_def)
    then show "graphValues lw vw (take a h) ! c = graphValues lw vw h ! c"
      using graphValues_append_nth [of c "take a h" lw vw "drop a h"] assms(2) by simp
  qed
  finally show ?thesis .
qed

lemma nodeValue_mark [simp]: "nodeValue lw vw vs (mark s v nd) = nodeValue lw vw vs nd"
  by (cases nd) auto

lemma children_mark [simp]: "children (mark s v nd) = children nd"
  by (cases nd) auto

lemma mark_mark [simp]: "mark s v (mark s' v' nd) = mark s v nd"
  by (cases nd) auto

lemma mark_fields [simp]: "header_stamp (mark s v nd) = s" "nbModels (mark s v nd) = v"
  by (cases nd; simp)+

lemma same_graph_refl [simp]: "same_graph h h"
  by (simp add: same_graph_def)

lemma same_graph_trans: "same_graph h h' \<Longrightarrow> same_graph h' h'' \<Longrightarrow> same_graph h h''"
  by (simp add: same_graph_def)

lemma same_graph_length: "same_graph h h' \<Longrightarrow> length h = length h'"
  unfolding same_graph_def by (metis length_map)

lemma same_graph_nth: "same_graph h h' \<Longrightarrow> a < length h \<Longrightarrow> mark 0 0 (h ! a) = mark 0 0 (h' ! a)"
  using same_graph_length [of h h'] unfolding same_graph_def by (metis nth_map)

lemma same_graph_children: "same_graph h h' \<Longrightarrow> a < length h \<Longrightarrow> children (h ! a) = children (h' ! a)"
  using same_graph_nth [of h h' a] children_mark by metis

lemma same_graph_heap_ok: "same_graph h h' \<Longrightarrow> heap_ok h \<longleftrightarrow> heap_ok h'"
  using same_graph_children [of h h'] same_graph_length [of h h'] by (auto simp: heap_ok_def)

lemma same_graph_mark: "same_graph h (h[a := mark s v (h ! a)])"
  unfolding same_graph_def by (cases "a < length h") (auto intro: nth_equalityI simp: nth_list_update)

lemma graphValues_map_mark: "graphValues lw vw (map (mark s v) h) = graphValues lw vw h"
  by (induction h rule: rev_induct) (auto simp: graphValues_snoc graphValues_def)

lemma same_graph_values: "same_graph h h' \<Longrightarrow> graphValues lw vw h = graphValues lw vw h'"
  unfolding same_graph_def by (metis graphValues_map_mark)

lemma memo_ok_store:
  "memo_ok gs vs h \<Longrightarrow> v = vs ! a \<Longrightarrow> memo_ok gs vs (h[a := mark s v (h ! a)])"
  by (cases "a < length h") (auto simp: memo_ok_def nth_list_update)

section \<open>The memoised count is the value\<close>

definition litValue :: "ValueVar list \<Rightarrow> 'a::comm_semiring_1 problem \<Rightarrow> nat \<Rightarrow> 'a" where
  "litValue fixedValue p l =
     (if isUnsatLit (fixedValue ! drop_bit 1 l) l then 0 else m_weightLit p ! l)"

definition varValue :: "ValueVar list \<Rightarrow> 'a::comm_semiring_1 problem \<Rightarrow> nat \<Rightarrow> 'a" where
  "varValue fixedValue p v =
     (case fixedValue ! v of
        isFalse \<Rightarrow> m_weightLit p ! (push_bit 1 v OR 1)
      | isTrue \<Rightarrow> m_weightLit p ! push_bit 1 v
      | isNotAssigned \<Rightarrow> m_weightVar p ! v)"

lemma unitsLoop_value:
  "(case unitsLoop fv p us cw of None \<Rightarrow> 0 | Some x \<Rightarrow> x) = cw * prod_list (map (litValue fv p) us)"
  by (induction us arbitrary: cw) (auto simp: litValue_def mult.assoc)

lemma freeLoop_value: "freeLoop fv p fs cw = cw * prod_list (map (varValue fv p) fs)"
  unfolding freeLoop_def varValue_def by (rule foldl_mult)

text \<open>The stamps are at most the counter, so no node carries the next one until it wraps.\<close>

definition stamps_old :: "32 word \<Rightarrow> 'a node list \<Rightarrow> bool" where
  "stamps_old gs h \<longleftrightarrow> (\<forall>nd\<in>set h. ucast (header_stamp nd) \<le> gs)"

lemma ucast_ucast_le: "ucast (ucast (gs :: 32 word) :: 28 word) \<le> gs"
  by (simp add: word_le_nat_alt unsigned_ucast_eq unsigned_take_bit_eq)

lemma stamps_old_store:
  "stamps_old gs h \<Longrightarrow> stamps_old gs (h[a := mark (ucast gs) v (h ! a)])"
  unfolding stamps_old_def using set_update_subset_insert [of h a "mark (ucast gs) v (h ! a)"]
    ucast_ucast_le [of gs] by auto

text \<open>A recursive call is good when it returns the value and leaves a memoised graph.\<close>

definition nb_inv :: "32 word \<Rightarrow> 'a::zero list \<Rightarrow> 'a node list \<Rightarrow> 'a node list \<Rightarrow> bool" where
  "nb_inv gs vs h0 h \<longleftrightarrow> same_graph h0 h \<and> memo_ok gs vs h \<and> stamps_old gs h"

definition returns where
  "returns gs vs h0 res v \<longleftrightarrow> (\<exists>h'. res = Some (v, h') \<and> nb_inv gs vs h0 h')"

lemma branch_returns:
  assumes rec: "\<And>h. nb_inv gs vs h0 h \<Longrightarrow> returns gs vs h0 (rec h (br_d b)) (vs ! br_d b)"
    and h: "nb_inv gs vs h0 h"
  shows "returns gs vs h0 (branch_computeNbModels rec fv p b data h)
    (brValue (litValue fv p) (varValue fv p) vs b data)"
proof (cases "unitsLoop fv p (take (nbUnits b) data) 1")
  case None
  then have "prod_list (map (litValue fv p) (take (nbUnits b) data)) = 0"
    using unitsLoop_value [of fv p "take (nbUnits b) data" 1] by simp
  with None h show ?thesis by (simp add: branch_computeNbModels_def returns_def brValue_def)
next
  case (Some cw)
  then have "cw = prod_list (map (litValue fv p) (take (nbUnits b) data))"
    using unitsLoop_value [of fv p "take (nbUnits b) data" 1] by simp
  moreover obtain h' where "rec h (br_d b) = Some (vs ! br_d b, h')" "nb_inv gs vs h0 h'"
    using rec [OF h] by (auto simp: returns_def)
  ultimately show ?thesis
    using Some by (simp add: branch_computeNbModels_def returns_def brValue_def freeLoop_value mult.assoc)
qed

lemma andLoop_returns:
  assumes rec: "\<And>h s. s \<in> set sons \<Longrightarrow> nb_inv gs vs h0 h \<Longrightarrow> returns gs vs h0 (rec h s) (vs ! s)"
    and "nb_inv gs vs h0 h"
  shows "returns gs vs h0 (andLoop rec sons acc h) (acc * prod_list (map ((!) vs) sons))"
  using assms
proof (induction sons arbitrary: acc h)
  case Nil
  then show ?case by (simp add: returns_def)
next
  case (Cons s sons)
  obtain h' where h': "rec h s = Some (vs ! s, h')" "nb_inv gs vs h0 h'"
    using Cons.prems by (force simp: returns_def)
  show ?case
  proof (cases "acc * vs ! s = 0")
    case True
    then have "acc * (vs ! s * x) = 0" for x by (simp add: mult.assoc [symmetric])
    with True h' show ?thesis by (simp add: returns_def)
  next
    case False
    have "returns gs vs h0 (andLoop rec sons (acc * vs ! s) h') (acc * vs ! s * prod_list (map ((!) vs) sons))"
      by (rule Cons.IH) (use Cons.prems h' in auto)
    with False h' show ?thesis by (simp add: Let_def mult.assoc)
  qed
qed

lemma store_returns:
  assumes "returns gs vs h0 res v" "v = vs ! a"
  shows "returns gs vs h0 (Option.bind res (\<lambda>(v, h'). Some (v, h'[a := mark (ucast gs) v (h' ! a)]))) v"
proof -
  obtain h where h: "res = Some (v, h)" "same_graph h0 h" "memo_ok gs vs h" "stamps_old gs h"
    using assms(1) by (auto simp: returns_def nb_inv_def)
  then have "nb_inv gs vs h0 (h[a := mark (ucast gs) v (h ! a)])"
    unfolding nb_inv_def
    using memo_ok_store [OF h(3) assms(2)] stamps_old_store [OF h(4)] same_graph_trans [OF h(2) same_graph_mark]
    by simp
  with h(1) show ?thesis by (simp add: returns_def)
qed

lemma nodeNbModels_ok:
  assumes ok: "heap_ok h0" and vs: "vs = graphValues (litValue fv p) (varValue fv p) h0"
    and "nb_inv gs vs h0 h" "a < length h0" "a < k"
  shows "returns gs vs h0 (nodeNbModels fv p gs k h a) (vs ! a)"
  using assms(3-)
proof (induction k arbitrary: h a)
  case 0
  then show ?case by simp
next
  case (Suc k)
  let ?rec = "nodeNbModels fv p gs k"
  have inv: "same_graph h0 h" "memo_ok gs vs h" using Suc.prems(1) by (auto simp: nb_inv_def)
  have a: "a < length h" using same_graph_length [OF inv(1)] Suc.prems(2) by simp
  have rec: "returns gs vs h0 (?rec h' c) (vs ! c)" if "c \<in> children (h ! a)" "nb_inv gs vs h0 h'" for c h'
  proof (rule Suc.IH [OF that(2)])
    have "c < a" using that(1) ok Suc.prems(2) same_graph_children [OF inv(1)] by (auto simp: heap_ok_def)
    then show "c < length h0" "c < k" using Suc.prems by auto
  qed
  have val: "vs ! a = nodeValue (litValue fv p) (varValue fv p) vs (h ! a)"
    using graphValues_nth [OF ok Suc.prems(2)] vs same_graph_nth [OF inv(1) Suc.prems(2)]
    by (metis nodeValue_mark)
  have hit: "returns gs vs h0 (Some (nbModels (h ! a), h)) (vs ! a)" if "ucast (header_stamp (h ! a)) = gs"
    using that inv(2) a Suc.prems(1) by (auto simp: memo_ok_def returns_def)
  show ?case
  proof (cases "h ! a")
    case (TrueNode s nb)
    then show ?thesis using val Suc.prems(1) by (simp add: returns_def)
  next
    case (FalseNode s nb)
    then show ?thesis using val Suc.prems(1) by (simp add: returns_def)
  next
    case (UnaryNode s nb b data)
    have "returns gs vs h0 (branch_computeNbModels ?rec fv p b data h) (vs ! a)"
      using branch_returns [of gs vs h0 ?rec b h fv p data] rec UnaryNode Suc.prems(1) val by simp
    from store_returns [OF this refl] hit show ?thesis using UnaryNode by (simp add: Let_def)
  next
    case (IteNode s nb l r data)
    let ?r = "drop (nbUnits l + nbFree l) data"
    obtain h1 where h1: "branch_computeNbModels ?rec fv p l data h =
        Some (brValue (litValue fv p) (varValue fv p) vs l data, h1)" "nb_inv gs vs h0 h1"
      using branch_returns [of gs vs h0 ?rec l h fv p data] rec IteNode Suc.prems(1)
      by (auto simp: returns_def)
    obtain h2 where h2: "branch_computeNbModels ?rec fv p r ?r h1 =
        Some (brValue (litValue fv p) (varValue fv p) vs r ?r, h2)" "nb_inv gs vs h0 h2"
      using branch_returns [of gs vs h0 ?rec r h1 fv p ?r] rec IteNode h1(2) by (auto simp: returns_def)
    have "returns gs vs h0 (Some (vs ! a, h2)) (vs ! a)" using h2(2) by (simp add: returns_def)
    from store_returns [OF this refl] hit show ?thesis
      using IteNode h1(1) h2(1) val by (simp add: Let_def)
  next
    case (DecAndNode s nb nbSons sons)
    have "returns gs vs h0 (andLoop ?rec (take nbSons sons) 1 h) (vs ! a)"
      using andLoop_returns [of "take nbSons sons" gs vs h0 ?rec h 1] rec DecAndNode Suc.prems(1) val by simp
    from store_returns [OF this refl] hit show ?thesis using DecAndNode by (simp add: Let_def)
  qed
qed

lemma stamps_old_memo:
  assumes "stamps_old gs h" "gs < - 1"
  shows "memo_ok (gs + 1) vs h"
proof -
  have "ucast (header_stamp (h ! i)) \<noteq> gs + 1" if i: "i < length h" for i
  proof -
    have "ucast (header_stamp (h ! i)) \<le> gs" using assms(1) i by (auto simp: stamps_old_def)
    with word_stamp_fresh assms(2) show ?thesis by blast
  qed
  then show ?thesis by (auto simp: memo_ok_def)
qed

lemma stamps_old_next:
  assumes "stamps_old gs h" "gs < - 1"
  shows "stamps_old (gs + 1) h"
proof -
  have "gs \<le> gs + 1" using word_stamp_fresh [of "gs + 1" gs] assms(2) linear [of gs "gs + 1"] by blast
  with assms(1) show ?thesis unfolding stamps_old_def by (meson order_trans)
qed

theorem nm_computeNbModels_ok:
  assumes "heap_ok (m_nodes nm)" "stamps_old (m_globalStamp nm) (m_nodes nm)"
    "m_globalStamp nm < - 1" "a < length (m_nodes nm)" "a < fuel"
  shows "\<exists>nm'. nm_computeNbModels fuel a fv p nm =
      Some (graphValues (litValue fv p) (varValue fv p) (m_nodes nm) ! a, nm')
    \<and> same_graph (m_nodes nm) (m_nodes nm') \<and> stamps_old (m_globalStamp nm') (m_nodes nm')
    \<and> m_globalStamp nm' = m_globalStamp nm + 1 \<and> m_width nm' = m_width nm
    \<and> m_blocks nm' = m_blocks nm"
proof -
  let ?gs = "m_globalStamp nm + 1" and ?vs = "graphValues (litValue fv p) (varValue fv p) (m_nodes nm)"
  have "nb_inv ?gs ?vs (m_nodes nm) (m_nodes nm)"
    using stamps_old_memo [OF assms(2,3)] stamps_old_next [OF assms(2,3)] by (simp add: nb_inv_def)
  from nodeNbModels_ok [OF assms(1) refl this assms(4,5)] show ?thesis
    by (auto simp: returns_def nb_inv_def nm_computeNbModels_def Let_def)
qed

end
