(* ===== verification/DnnfOperation.thy ===== *)
theory DnnfOperation
  imports Nnf
begin

text \<open>
  \<^verbatim>\<open>src/src/methods/DecisionDNNFOperation.hpp\<close>: the operation that compiles. Its results are nodes
  of a \<^verbatim>\<open>NodeManager\<close>, which is its state. The lemmas show that the nodes it builds have the value
  that the contract of an operation asks for, for any weights, so that one compilation answers
  every later query.
\<close>

section \<open>The operation\<close>

definition dnnf_manageDeterministOr ::
  "(TypeNode \<Rightarrow> nat) \<Rightarrow> 'a::zero nodeManager \<Rightarrow> nat DataBranch list \<Rightarrow> nat \<times> 'a nodeManager" where
  "dnnf_manageDeterministOr sz nm elts =
     (if length elts = 1 then makeUnaryNode sz (elts ! 0) nm
      else foldl (\<lambda>(ret, nm) e.
             makeBinaryDeterministicOrNode sz \<lparr>d = ret, unitLits = [], freeVars = []\<rparr> e nm)
           (makeBinaryDeterministicOrNode sz (elts ! 0) (elts ! 1) nm) (drop 2 elts))"

definition dnnf_manageTop ::
  "(TypeNode \<Rightarrow> nat) \<Rightarrow> 's solver_if \<Rightarrow> 'a::zero nodeManager \<Rightarrow> 's \<Rightarrow> var list
     \<Rightarrow> nat \<times> 'a nodeManager" where
  "dnnf_manageTop sz S nm s component =
     (let b = \<lparr>d = makeTrueNode nm, unitLits = whichAreUnits S s component, freeVars = []\<rparr>
      in if unitLits b \<noteq> [] then makeUnaryNode sz b nm else (d b, nm))"

text \<open>\<^verbatim>\<open>manageSolution\<close>, used for Skolem functions: one model of the component.\<close>

definition modelLits :: "'s solver_if \<Rightarrow> 's \<Rightarrow> var list \<Rightarrow> lit list" where
  "modelLits S s component = concat (map (\<lambda>v.
     let x = slv_getModelVar S s v
     in if x = l_True then [makeLitTrue v] else if x = l_False then [makeLitFalse v] else []) component)"

definition dnnf_manageSolution ::
  "(TypeNode \<Rightarrow> nat) \<Rightarrow> 's solver_if \<Rightarrow> 'a::zero nodeManager \<Rightarrow> 's \<Rightarrow> var list
     \<Rightarrow> nat \<times> 'a nodeManager \<times> 's" where
  "dnnf_manageSolution sz S nm s component =
     (let units = whichAreUnits S s component;
          (isSat, s') = slv_solve S s component;
          b = \<lparr>d = makeTrueNode nm, unitLits = units @ modelLits S s' component, freeVars = []\<rparr>
      in if unitLits b \<noteq> []
         then let (u, nm') = makeUnaryNode sz b nm in (u, nm', s')
         else (d b, nm, s'))"

text \<open>The two queries: counting the models, and counting under an assumption.\<close>

definition fixedValueOf :: "nat \<Rightarrow> lit list \<Rightarrow> ValueVar list" where
  "fixedValueOf nbVar assum = foldl
     (\<lambda>fv l. if var l \<ge> length fv then fv else fv[var l := (if sign l then isFalse else isTrue)])
     (replicate (nbVar + 1) isNotAssigned) assum"

definition dnnf_count_under ::
  "'a::comm_semiring_1 problem \<Rightarrow> 'a nodeManager \<Rightarrow> nat \<Rightarrow> lit list \<Rightarrow> ('a \<times> 'a nodeManager) option" where
  "dnnf_count_under p nm root assum =
     nm_computeNbModels (length (m_nodes nm)) root (fixedValueOf (m_nbVar p) assum) p nm"

definition dnnf_count ::
  "'a::comm_semiring_1 problem \<Rightarrow> 'a nodeManager \<Rightarrow> nat \<Rightarrow> 'a \<times> 'a nodeManager" where
  "dnnf_count p nm root =
     (case nm_computeNbModels (length (m_nodes nm)) root (replicate (m_nbVar p + 1) isNotAssigned) p nm of
        None \<Rightarrow> (0, nm) | Some r \<Rightarrow> r)"

definition dnnfOperation ::
  "(TypeNode \<Rightarrow> nat) \<Rightarrow> 's solver_if \<Rightarrow> 'a::comm_semiring_1 problem
     \<Rightarrow> ('a nodeManager, 's, 'a, nat) operation_if" where
  "dnnfOperation sz S p =
     \<lparr>op_createTop = \<lambda>nm. (makeTrueNode nm, nm), op_manageBottom = \<lambda>nm. (makeFalseNode nm, nm),
      op_manageTop = dnnf_manageTop sz S, op_manageSolution = dnnf_manageSolution sz S,
      op_manageBranch = \<lambda>nm e. makeUnaryNode sz e nm,
      op_manageDeterministicOr = dnnf_manageDeterministOr sz,
      op_manageDecomposableAnd = \<lambda>nm elts. makeDecomposableAndNode sz elts nm,
      op_count = dnnf_count p\<rparr>"

section \<open>The values of the nodes it builds\<close>

definition litW :: "'a::comm_semiring_1 weight \<Rightarrow> var set \<Rightarrow> nat \<Rightarrow> 'a" where
  "litW w P l = (if var (Lit l) \<in> P then lit_weight w (Lit l) else 1)"

definition varW :: "'a::comm_semiring_1 weight \<Rightarrow> var set \<Rightarrow> nat \<Rightarrow> 'a" where
  "varW w P v = (if v \<in> P then w v True + w v False else 1)"

abbreviation nmValues :: "'b weight \<Rightarrow> var set \<Rightarrow> 'a nodeManager \<Rightarrow> 'b::comm_semiring_1 list" where
  "nmValues w P nm \<equiv> graphValues (litW w P) (varW w P) (m_nodes nm)"

text \<open>The literals and variables stored in a node are those of the problem.\<close>

definition data_fits :: "nat \<Rightarrow> Branch \<Rightarrow> nat list \<Rightarrow> bool" where
  "data_fits n b data \<longleftrightarrow> (\<forall>l\<in>set (take (nbUnits b) data). 2 \<le> l \<and> l < 2 * (n + 1))
     \<and> (\<forall>v\<in>set (take (nbFree b) (drop (nbUnits b) data)). 1 \<le> v \<and> v \<le> n)"

fun node_fits :: "nat \<Rightarrow> 'a node \<Rightarrow> bool" where
  "node_fits n (UnaryNode _ _ b data) = data_fits n b data"
| "node_fits n (IteNode _ _ l r data) =
     (data_fits n l data \<and> data_fits n r (drop (nbUnits l + nbFree l) data))"
| "node_fits n _ = True"

definition nm_ok :: "nat \<Rightarrow> 'a nodeManager \<Rightarrow> bool" where
  "nm_ok n nm \<longleftrightarrow> heap_ok (m_nodes nm) \<and> (\<forall>nd\<in>set (m_nodes nm). node_fits n nd)
     \<and> 2 \<le> length (m_nodes nm)
     \<and> (\<exists>s v. m_nodes nm ! 0 = TrueNode s v) \<and> (\<exists>s v. m_nodes nm ! 1 = FalseNode s v)
     \<and> 2 * n + 1 < 2 ^ m_width nm"

text \<open>The stamps of the nodes are at most the counter, which has not reached its last value.\<close>

definition nm_stamps :: "'a nodeManager \<Rightarrow> bool" where
  "nm_stamps nm \<longleftrightarrow> stamps_old (m_globalStamp nm) (m_nodes nm) \<and> m_globalStamp nm < - 1"

definition nm_le :: "nat \<Rightarrow> 'a::zero nodeManager \<Rightarrow> 'a nodeManager \<Rightarrow> bool" where
  "nm_le n nm nm' \<longleftrightarrow> (\<exists>h. same_graph (m_nodes nm @ h) (m_nodes nm')) \<and> (nm_ok n nm \<longrightarrow> nm_ok n nm')
     \<and> (nm_stamps nm \<longrightarrow> nm_stamps nm')"

lemma nm_le_stamps: "nm_le n nm nm' \<Longrightarrow> nm_stamps nm \<Longrightarrow> nm_stamps nm'"
  by (simp add: nm_le_def)

lemma nm_le_refl [simp]: "nm_le n nm nm"
  unfolding nm_le_def using same_graph_refl [of "m_nodes nm"] by (auto intro: exI [of _ "[]"])

lemma same_graph_append: "same_graph h h' \<Longrightarrow> same_graph (h @ k) (h' @ k)"
  by (simp add: same_graph_def)

lemma nm_le_trans: "nm_le n x y \<Longrightarrow> nm_le n y z \<Longrightarrow> nm_le n x z"
proof -
  assume a: "nm_le n x y" "nm_le n y z"
  then obtain h k where h: "same_graph (m_nodes x @ h) (m_nodes y)" and k: "same_graph (m_nodes y @ k) (m_nodes z)"
    unfolding nm_le_def by blast
  have "same_graph (m_nodes x @ (h @ k)) (m_nodes z)"
    using same_graph_trans [OF same_graph_append [OF h] k] by simp
  then have "\<exists>h. same_graph (m_nodes x @ h) (m_nodes z)" by (rule exI)
  then show ?thesis using a by (simp add: nm_le_def)
qed

lemma nm_le_values:
  assumes "nm_le n x y" "u < length (m_nodes x)"
  shows "u < length (m_nodes y)" "nmValues w P y ! u = nmValues w P x ! u"
proof -
  obtain h where h: "same_graph (m_nodes x @ h) (m_nodes y)" using assms(1) by (auto simp: nm_le_def)
  show "u < length (m_nodes y)" using same_graph_length [OF h] assms(2) by simp
  show "nmValues w P y ! u = nmValues w P x ! u"
    using same_graph_values [OF h, of "litW w P" "varW w P"] graphValues_append_nth [OF assms(2)] by metis
qed

lemma newNode_frame:
  assumes "newNode k nd nm = (u, nm')"
  shows "m_nodes nm' = m_nodes nm @ [nd]" "u = length (m_nodes nm)" "m_width nm' = m_width nm"
    "m_globalStamp nm' = m_globalStamp nm"
  using assms by (auto simp: newNode_def getMemory_def Let_def split: if_splits)

lemma newNode_ok:
  assumes "newNode k nd nm = (u, nm')" "nm_ok n nm" "node_fits n nd" "header_stamp nd = 0"
    "\<And>c. c \<in> children nd \<Longrightarrow> c < length (m_nodes nm)"
  shows "nm_ok n nm'" "nm_le n nm nm'" "u < length (m_nodes nm')"
    "nmValues w P nm' ! u = nodeValue (litW w P) (varW w P) (nmValues w P nm) nd"
proof -
  note f = newNode_frame [OF assms(1)]
  show ok: "nm_ok n nm'"
    using assms(2,3,5) unfolding nm_ok_def heap_ok_def f(1,3) by (auto simp: nth_append less_Suc_eq)
  have "same_graph (m_nodes nm @ [nd]) (m_nodes nm')" by (simp add: f(1))
  moreover have "nm_stamps nm \<Longrightarrow> nm_stamps nm'" using assms(4) by (simp add: nm_stamps_def stamps_old_def f(1,4))
  ultimately show "nm_le n nm nm'" using ok unfolding nm_le_def by blast
  show "u < length (m_nodes nm')" using f by simp
  show "nmValues w P nm' ! u = nodeValue (litW w P) (varW w P) (nmValues w P nm) nd"
    using f by (simp add: graphValues_snoc nth_append)
qed

text \<open>Nothing is lost when a branch is stored in the narrow type.\<close>

lemma branch_fits:
  assumes "branch_ok n Q b" "2 * n + 1 < 2 ^ W"
  shows "branchOf W b = \<lparr>br_d = d b, nbUnits = length (unitLits b), nbFree = length (freeVars b)\<rparr>"
    "branchData W b = map intern (unitLits b) @ freeVars b"
proof -
  have u: "length (unitLits b) \<le> n"
  proof -
    have "length (unitLits b) = card (set (map var (unitLits b)))"
      using assms(1) unfolding branch_ok_def by (metis distinct_card length_map)
    also have "\<dots> \<le> card {1..n}" using assms(1) by (intro card_mono) (auto simp: branch_ok_def)
    finally show ?thesis by simp
  qed
  have f: "length (freeVars b) \<le> n"
  proof -
    have "length (freeVars b) = card (set (freeVars b))"
      using assms(1) by (simp add: branch_ok_def distinct_card)
    also have "\<dots> \<le> card {1..n}" using assms(1) by (intro card_mono) (auto simp: branch_ok_def)
    finally show ?thesis by simp
  qed
  show "branchOf W b = \<lparr>br_d = d b, nbUnits = length (unitLits b), nbFree = length (freeVars b)\<rparr>"
    using u f assms(2) by (simp add: branchOf_def toU_def)
  have "toU W (intern l) = intern l" if "l \<in> set (unitLits b)" for l
  proof -
    have "var l < n + 1" using assms(1) that by (auto simp: branch_ok_def)
    then have "intern l < 2 * (n + 1)" using intern_bound by blast
    then show ?thesis using assms(2) by (simp add: toU_def)
  qed
  moreover have "toU W v = v" if "v \<in> set (freeVars b)" for v
    using assms that by (auto simp: branch_ok_def toU_def)
  ultimately show "branchData W b = map intern (unitLits b) @ freeVars b"
    by (simp add: branchData_def map_idI)
qed

lemma brValue_branch:
  assumes "branch_ok n Q b" "2 * n + 1 < 2 ^ W"
  shows "brValue (litW w P) (varW w P) vs (branchOf W b) (branchData W b @ rest) =
    vs ! d b * branch_weight w P (unitLits b) (freeVars b)"
proof -
  have "prod_list (map (litW w P \<circ> intern) (unitLits b)) =
      prod_list (map (\<lambda>l. if var l \<in> P then lit_weight w l else 1) (unitLits b))"
    by (rule arg_cong [where f = prod_list]) (simp add: litW_def intern_def)
  moreover have "prod_list (map (varW w P) (freeVars b)) =
      prod_list (map (\<lambda>v. if v \<in> P then w v True + w v False else 1) (freeVars b))"
    by (rule arg_cong [where f = prod_list]) (simp add: varW_def)
  ultimately show ?thesis
    unfolding brValue_def branch_fits [OF assms] branch_weight_def
    by (simp add: mult.assoc)
qed

lemma drop_branchData:
  assumes "branch_ok n Q b" "2 * n + 1 < 2 ^ W"
  shows "drop (nbUnits (branchOf W b) + nbFree (branchOf W b)) (branchData W b @ rest) = rest"
  unfolding branch_fits [OF assms] by simp

lemma data_fits_branch:
  assumes "branch_ok n Q b" "2 * n + 1 < 2 ^ W"
  shows "data_fits n (branchOf W b) (branchData W b @ rest)"
  unfolding data_fits_def branch_fits [OF assms] using assms(1)
  by (auto simp: branch_ok_def intern_bound [symmetric] intern_def var_div2)

lemma makeUnaryNode_ok:
  assumes "makeUnaryNode sz b nm = (u, nm')" "nm_ok n nm" "branch_ok n Q b" "d b < length (m_nodes nm)"
  shows "nm_ok n nm'" "nm_le n nm nm'" "u < length (m_nodes nm')"
    "nmValues w P nm' ! u = nmValues w P nm ! d b * branch_weight w P (unitLits b) (freeVars b)"
proof -
  have W: "2 * n + 1 < 2 ^ m_width nm" using assms(2) by (simp add: nm_ok_def)
  have fits: "node_fits n (UnaryNode 0 0 (branchOf (m_width nm) b) (branchData (m_width nm) b))"
    using data_fits_branch [OF assms(3) W, of "[]"] by simp
  note n = newNode_ok [OF assms(1) [unfolded makeUnaryNode_def] assms(2) fits node.sel(3)]
  have c: "c < length (m_nodes nm)"
    if "c \<in> children (UnaryNode 0 0 (branchOf (m_width nm) b) (branchData (m_width nm) b))" for c
    using that assms(4) by (simp add: branchOf_def)
  show "nm_ok n nm'" "nm_le n nm nm'" "u < length (m_nodes nm')" using n(1-3) c by blast+
  show "nmValues w P nm' ! u = nmValues w P nm ! d b * branch_weight w P (unitLits b) (freeVars b)"
    using n(4) [OF c, of w P] brValue_branch [OF assms(3) W, where w = w and P = P and rest = "[]"] by simp
qed

lemma makeBinary_ok:
  assumes "makeBinaryDeterministicOrNode sz l r nm = (u, nm')" "nm_ok n nm" "branch_ok n P l" "branch_ok n P r"
    "d l < length (m_nodes nm)" "d r < length (m_nodes nm)"
  shows "nm_ok n nm'" "nm_le n nm nm'" "u < length (m_nodes nm')"
    "nmValues w P nm' ! u = nmValues w P nm ! d l * branch_weight w P (unitLits l) (freeVars l)
       + nmValues w P nm ! d r * branch_weight w P (unitLits r) (freeVars r)"
proof -
  have W: "2 * n + 1 < 2 ^ m_width nm" using assms(2) by (simp add: nm_ok_def)
  let ?W = "m_width nm"
  have fits: "node_fits n (IteNode 0 0 (branchOf ?W l) (branchOf ?W r) (branchData ?W l @ branchData ?W r))"
    using data_fits_branch [OF assms(3) W] data_fits_branch [OF assms(4) W, of "[]"]
      drop_branchData [OF assms(3) W] by simp
  note n = newNode_ok [OF assms(1) [unfolded makeBinaryDeterministicOrNode_def] assms(2) fits node.sel(4)]
  have c: "c < length (m_nodes nm)"
    if "c \<in> children (IteNode 0 0 (branchOf ?W l) (branchOf ?W r) (branchData ?W l @ branchData ?W r))" for c
    using that assms(5,6) by (auto simp: branchOf_def)
  show "nm_ok n nm'" "nm_le n nm nm'" "u < length (m_nodes nm')" using n(1-3) c by blast+
  show "nmValues w P nm' ! u = nmValues w P nm ! d l * branch_weight w P (unitLits l) (freeVars l)
       + nmValues w P nm ! d r * branch_weight w P (unitLits r) (freeVars r)"
    using n(4) [OF c, of w P] brValue_branch [OF assms(3) W, where w = w and P = P]
      brValue_branch [OF assms(4) W, where w = w and P = P and rest = "[]"] drop_branchData [OF assms(3) W]
    by simp
qed

lemma makeAnd_ok:
  assumes "makeDecomposableAndNode sz sons nm = (u, nm')" "nm_ok n nm" "sons \<noteq> []" "length sons \<le> n"
    "\<forall>s\<in>set sons. s < length (m_nodes nm)"
  shows "nm_ok n nm'" "nm_le n nm nm'" "u < length (m_nodes nm')"
    "nmValues w P nm' ! u = prod_list (map ((!) (nmValues w P nm)) sons)"
proof -
  have "nm_ok n nm' \<and> nm_le n nm nm' \<and> u < length (m_nodes nm')
    \<and> nmValues w P nm' ! u = prod_list (map ((!) (nmValues w P nm)) sons)"
  proof (cases "length sons = 1")
    case True
    then obtain s where "sons = [s]" by (auto simp: length_Suc_conv)
    with assms show ?thesis by (auto simp: makeDecomposableAndNode_def)
  next
    case False
    have W: "2 * n + 1 < 2 ^ m_width nm" using assms(2) by (simp add: nm_ok_def)
    then have sz: "toU (m_width nm) (length sons) = length sons" using assms(4) by (simp add: toU_def)
    have e: "newNode (sz TypeDecAndNode + length sons * 8) (DecAndNode 0 0 (length sons) sons) nm = (u, nm')"
      using assms(1) False sz by (simp add: makeDecomposableAndNode_def)
    have c: "c < length (m_nodes nm)" if "c \<in> children (DecAndNode 0 0 (length sons) sons)" for c
      using that assms(5) by simp
    show ?thesis using newNode_ok [OF e assms(2) _ _ c] by simp
  qed
  then show "nm_ok n nm'" "nm_le n nm nm'" "u < length (m_nodes nm')"
    "nmValues w P nm' ! u = prod_list (map ((!) (nmValues w P nm)) sons)" by auto
qed

definition branchValue :: "'b weight \<Rightarrow> var set \<Rightarrow> 'a nodeManager \<Rightarrow> nat DataBranch \<Rightarrow> 'b::comm_semiring_1" where
  "branchValue w P nm b = nmValues w P nm ! d b * branch_weight w P (unitLits b) (freeVars b)"

lemma branch_ok_empty [simp]: "branch_ok n P \<lparr>d = u, unitLits = [], freeVars = []\<rparr>"
  by (simp add: branch_ok_def)

lemma branch_weight_empty [simp]: "branch_weight w P [] [] = 1"
  by (simp add: branch_weight_def)

lemma orFold_ok:
  assumes "foldl (\<lambda>(ret, nm) e. makeBinaryDeterministicOrNode sz \<lparr>d = ret, unitLits = [], freeVars = []\<rparr> e nm)
      (u0, nm0) elts = (u, nm')"
    and "nm_ok n nm0" "u0 < length (m_nodes nm0)" "\<forall>b\<in>set elts. d b < length (m_nodes nm0) \<and> branch_ok n P b"
  shows "nm_ok n nm' \<and> nm_le n nm0 nm' \<and> u < length (m_nodes nm')
    \<and> nmValues w P nm' ! u = nmValues w P nm0 ! u0 + sum_list (map (branchValue w P nm0) elts)"
  using assms
proof (induction elts arbitrary: u0 nm0)
  case Nil
  then show ?case by simp
next
  case (Cons e elts)
  obtain u1 nm1 where m: "makeBinaryDeterministicOrNode sz \<lparr>d = u0, unitLits = [], freeVars = []\<rparr> e nm0 = (u1, nm1)"
    by fastforce
  have e: "branch_ok n P e" "d e < length (m_nodes nm0)" using Cons.prems(4) by auto
  have u0: "d \<lparr>d = u0, unitLits = [], freeVars = []\<rparr> < length (m_nodes nm0)" using Cons.prems(3) by simp
  note b = makeBinary_ok [OF m Cons.prems(2) branch_ok_empty e(1) u0 e(2)]
  have "\<forall>b\<in>set elts. d b < length (m_nodes nm1) \<and> branch_ok n P b"
    using Cons.prems(4) nm_le_values(1) [OF b(2)] by auto
  with Cons.IH [OF _ b(1,3)] Cons.prems(1) m
  have IH: "nm_ok n nm' \<and> nm_le n nm1 nm' \<and> u < length (m_nodes nm')
    \<and> nmValues w P nm' ! u = nmValues w P nm1 ! u1 + sum_list (map (branchValue w P nm1) elts)" by simp
  have "sum_list (map (branchValue w P nm1) elts) = sum_list (map (branchValue w P nm0) elts)"
    using Cons.prems(4) nm_le_values(2) [OF b(2), where w = w and P = P]
    by (intro arg_cong [where f = sum_list] map_cong) (auto simp: branchValue_def)
  moreover have "nmValues w P nm1 ! u1 = nmValues w P nm0 ! u0 + branchValue w P nm0 e"
    using b(4) [of w] by (simp add: branchValue_def)
  ultimately show ?case using IH nm_le_trans [OF b(2)] by (simp add: add.assoc)
qed

lemma dnnf_or_ok:
  assumes "dnnf_manageDeterministOr sz nm elts = (u, nm')" "nm_ok n nm" "elts \<noteq> []"
    and b: "\<forall>b\<in>set elts. d b < length (m_nodes nm) \<and> branch_ok n P b"
  shows "nm_ok n nm' \<and> nm_le n nm nm' \<and> u < length (m_nodes nm')
    \<and> nmValues w P nm' ! u = sum_list (map (branchValue w P nm) elts)"
proof (cases "length elts = 1")
  case True
  then obtain e where e: "elts = [e]" by (auto simp: length_Suc_conv)
  then have "makeUnaryNode sz e nm = (u, nm')" using assms(1) by (simp add: dnnf_manageDeterministOr_def)
  from makeUnaryNode_ok(1-3) [OF this assms(2), of P]
    makeUnaryNode_ok(4) [OF this assms(2), where Q = P and P = P and w = w] b e show ?thesis
    by (simp add: branchValue_def)
next
  case False
  with assms(3) obtain l r rest where e: "elts = l # r # rest" by (cases elts rule: list.exhaust; cases "tl elts") auto
  obtain u1 nm1 where m: "makeBinaryDeterministicOrNode sz l r nm = (u1, nm1)" by fastforce
  have lr: "branch_ok n P l" "branch_ok n P r" "d l < length (m_nodes nm)" "d r < length (m_nodes nm)"
    using b e by auto
  note k = makeBinary_ok [OF m assms(2) lr]
  have "\<forall>b\<in>set rest. d b < length (m_nodes nm1) \<and> branch_ok n P b"
    using b e nm_le_values(1) [OF k(2)] by auto
  moreover have "foldl (\<lambda>(ret, nm) e. makeBinaryDeterministicOrNode sz
      \<lparr>d = ret, unitLits = [], freeVars = []\<rparr> e nm) (u1, nm1) rest = (u, nm')"
    using assms(1) e m by (simp add: dnnf_manageDeterministOr_def)
  ultimately have f: "nm_ok n nm' \<and> nm_le n nm1 nm' \<and> u < length (m_nodes nm')
    \<and> nmValues w P nm' ! u = nmValues w P nm1 ! u1 + sum_list (map (branchValue w P nm1) rest)"
    using orFold_ok [OF _ k(1,3)] by blast
  have "sum_list (map (branchValue w P nm1) rest) = sum_list (map (branchValue w P nm) rest)"
    using b e nm_le_values(2) [OF k(2), where w = w and P = P]
    by (intro arg_cong [where f = sum_list] map_cong) (auto simp: branchValue_def)
  moreover have "nmValues w P nm1 ! u1 = branchValue w P nm l + branchValue w P nm r"
    using k(4) [of w] by (simp add: branchValue_def)
  ultimately show ?thesis using f nm_le_trans [OF k(2)] e by (simp add: add.assoc)
qed

lemma nm_ok_base:
  assumes "nm_ok n nm"
  shows "nmValues w P nm ! 0 = 1" "nmValues w P nm ! 1 = 0" "0 < length (m_nodes nm)" "1 < length (m_nodes nm)"
proof -
  have h: "heap_ok (m_nodes nm)" "0 < length (m_nodes nm)" "1 < length (m_nodes nm)"
    using assms by (auto simp: nm_ok_def)
  then show "0 < length (m_nodes nm)" "1 < length (m_nodes nm)" by auto
  show "nmValues w P nm ! 0 = 1" "nmValues w P nm ! 1 = 0"
    using graphValues_nth [OF h(1,2), of "litW w P" "varW w P"]
      graphValues_nth [OF h(1,3), of "litW w P" "varW w P"] assms
    by (auto simp: nm_ok_def)
qed

interpretation dnnf: operation "dnnfOperation sz S p" "m_nbVar p" P w
    "\<lambda>nm. nm_ok (m_nbVar p) nm \<and> lit_own S \<and> nm_stamps nm" "nm_le (m_nbVar p)"
    "\<lambda>nm u. u < length (m_nodes nm)" "\<lambda>nm u. nmValues w P nm ! u"
  for sz and S :: "'s solver_if" and p :: "'a::comm_semiring_1 problem" and P and w :: "'a weight"
proof (unfold_locales, goal_cases)
  case (2 x y z)
  then show ?case by (rule nm_le_trans)
next
  case (3 x y u)
  then show ?case using nm_le_values by blast
next
  case (4 x u y)
  then show ?case using nm_ok_base [of "m_nbVar p" x]
    by (auto simp: dnnfOperation_def makeTrueNode_def)
next
  case (5 x u y)
  then show ?case using nm_ok_base [of "m_nbVar p" x]
    by (auto simp: dnnfOperation_def makeFalseNode_def)
next
  case (6 x C s u y)
  let ?us = "whichAreUnits S s C"
  let ?b = "\<lparr>d = 0, unitLits = ?us, freeVars = []\<rparr>"
  note base = nm_ok_base(1) [of "m_nbVar p" x w P] nm_ok_base(3) [of "m_nbVar p" x]
  have us: "set ?us = {l \<in> asg S s. var l \<in> set C}" "distinct (map var ?us)"
    using whichAreUnits_filter [where S = S and s = s and V = C] 6 by auto
  have b: "branch_ok (m_nbVar p) UNIV ?b" using us 6(3) by (auto simp: branch_ok_def)
  have bw: "branch_weight w P ?us [] = 1"
  proof -
    have "map (\<lambda>l. if var l \<in> P then lit_weight w l else 1) ?us = map (\<lambda>_. 1) ?us"
      using us(1) 6(3) by (intro map_cong) auto
    then show ?thesis by (simp add: branch_weight_def map_replicate_const)
  qed
  show ?case
  proof (cases "?us = []")
    case True
    then show ?thesis using 6 base by (auto simp: dnnfOperation_def dnnf_manageTop_def makeTrueNode_def Let_def)
  next
    case False
    then have "makeUnaryNode sz ?b x = (u, y)"
      using 6 by (simp add: dnnfOperation_def dnnf_manageTop_def makeTrueNode_def Let_def)
    from makeUnaryNode_ok(1-3) [OF this _ b] makeUnaryNode_ok(4) [OF this _ b, where P = P and w = w]
      6(1) base bw nm_le_stamps [OF makeUnaryNode_ok(2) [OF this _ b]] show ?thesis by simp
  qed
next
  case (7 x bs u y)
  then show ?case
    using dnnf_or_ok [of sz x bs u y "m_nbVar p" P w] nm_le_stamps [of "m_nbVar p" x y] by (simp add: dnnfOperation_def branchValue_def [abs_def])
next
  case (8 x us u y)
  then show ?case using makeAnd_ok(1-3) [of sz us x u y "m_nbVar p"]
      makeAnd_ok(4) [of sz us x u y "m_nbVar p" w P] nm_le_stamps [of "m_nbVar p" x y] by (simp add: dnnfOperation_def)
next
  case (9 x b u y)
  then show ?case using makeUnaryNode_ok(1-3) [of sz b x u y "m_nbVar p" P]
      makeUnaryNode_ok(4) [of sz b x u y "m_nbVar p" P, where P = P and w = w]
      nm_le_stamps [of "m_nbVar p" x y] by (simp add: dnnfOperation_def)
qed simp

section \<open>Queries\<close>

text \<open>Two weightings that agree on the literals of the problem give the same values.\<close>

lemma brValue_fits_cong:
  assumes "data_fits n b data" "\<And>l. 2 \<le> l \<Longrightarrow> l < 2 * (n + 1) \<Longrightarrow> lw l = lw' l"
    "\<And>v. 1 \<le> v \<Longrightarrow> v \<le> n \<Longrightarrow> vw v = vw' v"
  shows "brValue lw vw vs b data = brValue lw' vw' vs b data"
proof -
  have "map lw (take (nbUnits b) data) = map lw' (take (nbUnits b) data)"
    "map vw (take (nbFree b) (drop (nbUnits b) data)) = map vw' (take (nbFree b) (drop (nbUnits b) data))"
    using assms by (auto simp: data_fits_def intro!: map_cong)
  then show ?thesis unfolding brValue_def by (simp del: map_eq_conv)
qed

lemma graphValues_fits_cong:
  assumes "\<forall>nd\<in>set h. node_fits n nd" "\<And>l. 2 \<le> l \<Longrightarrow> l < 2 * (n + 1) \<Longrightarrow> lw l = lw' l"
    "\<And>v. 1 \<le> v \<Longrightarrow> v \<le> n \<Longrightarrow> vw v = vw' v"
  shows "graphValues lw vw h = graphValues lw' vw' h"
  using assms(1)
proof (induction h rule: rev_induct)
  case Nil
  then show ?case by (simp add: graphValues_def)
next
  case (snoc nd h)
  have "nodeValue lw vw vs nd = nodeValue lw' vw' vs nd" for vs
    using snoc.prems brValue_fits_cong [OF _ assms(2,3)] by (cases nd) auto
  with snoc show ?case by (simp add: graphValues_snoc)
qed

lemma fixedValueOf_nth:
  assumes "distinct (map var as)" "v \<le> n"
  shows "fixedValueOf n as ! v =
    (if makeLit v False \<in> set as then isTrue else if makeLit v True \<in> set as then isFalse
     else isNotAssigned)"
proof -
  let ?f = "\<lambda>fv l. if var l \<ge> length fv then fv else fv[var l := (if sign l then isFalse else isTrue)]"
  have "v < length fv \<Longrightarrow> length (foldl ?f fv as) = length fv \<and> foldl ?f fv as ! v =
    (if makeLit v False \<in> set as then isTrue else if makeLit v True \<in> set as then isFalse else fv ! v)" for fv
    using assms(1)
  proof (induction as arbitrary: fv)
    case (Cons l as)
    have ne: "makeLit v b \<notin> set as" if "var l = v" for b
      using Cons.prems(2) that by (metis distinct.simps(2) image_eqI list.set_map list.simps(9) var_makeLit)
    have l: "makeLit v b = l \<longleftrightarrow> var l = v \<and> sign l = b" for b by (auto simp: lit_eq_iff)
    show ?case
    proof (cases "var l \<ge> length fv")
      case True
      then show ?thesis using Cons l by auto
    next
      case False
      let ?fv = "fv[var l := (if sign l then isFalse else isTrue)]"
      have "v < length ?fv" "distinct (map var as)" using Cons.prems by auto
      from Cons.IH [OF this] show ?thesis using False ne l Cons.prems(1)
        by (auto simp: nth_list_update)
    qed
  qed simp
  from this [of "replicate (n + 1) isNotAssigned"] show ?thesis
    using assms(2) by (simp add: fixedValueOf_def del: replicate_Suc)
qed

lemma distinct_var_signs:
  assumes "distinct (map var as)"
  shows "makeLit v True \<notin> set as \<or> makeLit v False \<notin> set as"
proof (rule ccontr)
  assume "\<not> ?thesis"
  then have "makeLit v True \<in> set as" "makeLit v False \<in> set as" by auto
  moreover have "inj_on var (set as)" using assms by (simp add: distinct_map)
  ultimately have "makeLit v True = makeLit v False" by (metis inj_onD var_makeLit)
  then show False by simp
qed

lemma isUnsatLit_fixed:
  assumes "distinct (map var as)" "l < 2 * (n + 1)"
  shows "isUnsatLit (fixedValueOf n as ! drop_bit 1 l) l \<longleftrightarrow> neg (Lit l) \<in> set as"
proof -
  let ?v = "var (Lit l)"
  have v: "drop_bit 1 l = ?v" by (simp add: var_def)
  have "?v \<le> n" using assms(2) by (simp add: var_div2)
  note f = fixedValueOf_nth [OF assms(1) this]
  have one: "makeLit ?v True \<notin> set as \<or> makeLit ?v False \<notin> set as"
    by (rule distinct_var_signs [OF assms(1)])
  have s: "l AND 1 = (if sign (Lit l) then 1 else 0)"
    by (auto simp: sign_odd and_one_eq odd_iff_mod_2_eq_one)
  have "neg (Lit l) = makeLit ?v (\<not> sign (Lit l))" by (simp add: lit_eq_iff)
  then show ?thesis unfolding v isUnsatLit_def f s using one by (cases "sign (Lit l)") auto
qed

lemma litValue_cond:
  assumes as: "distinct (map var as)" and w: "\<And>v. 1 \<le> v \<Longrightarrow> v \<le> m_nbVar p \<Longrightarrow> v \<notin> P \<Longrightarrow>
      m_weightLit p ! (2 * v) = 1 \<and> m_weightLit p ! (2 * v + 1) = 1"
    and sub: "var ` set as \<subseteq> P" and l: "2 \<le> l" "l < 2 * (m_nbVar p + 1)"
  shows "litValue (fixedValueOf (m_nbVar p) as) p l = litW (cond_weight as (weight_of p)) P l"
proof -
  have un: "isUnsatLit (fixedValueOf (m_nbVar p) as ! drop_bit 1 l) l \<longleftrightarrow> neg (Lit l) \<in> set as"
    by (rule isUnsatLit_fixed [OF as l(2)])
  have lw: "lit_weight (cond_weight as (weight_of p)) (Lit l) =
      (if neg (Lit l) \<in> set as then 0 else m_weightLit p ! l)"
  proof -
    have "neg (Lit l) = makeLit (var (Lit l)) (\<not> sign (Lit l))" by (simp add: lit_eq_iff)
    then show ?thesis
      using lit_weight_weight_of [of p "Lit l"] by (simp add: lit_weight_def cond_weight_def intern_def)
  qed
  show ?thesis
  proof (cases "var (Lit l) \<in> P")
    case True
    then show ?thesis using un lw by (simp add: litValue_def litW_def)
  next
    case False
    have "neg (Lit l) \<notin> set as" using False sub by force
    moreover have "m_weightLit p ! l = 1"
    proof -
      have v: "1 \<le> var (Lit l)" "var (Lit l) \<le> m_nbVar p" using l by (auto simp: var_div2)
      have "l = 2 * var (Lit l) \<or> l = 2 * var (Lit l) + 1" by (auto simp: var_div2)
      with w [OF v False] show ?thesis by metis
    qed
    ultimately show ?thesis using un False by (simp add: litValue_def litW_def)
  qed
qed

lemma varValue_cond:
  assumes as: "distinct (map var as)" and wok: "weights_ok p" and w: "\<And>v. 1 \<le> v \<Longrightarrow> v \<le> m_nbVar p \<Longrightarrow> v \<notin> P \<Longrightarrow>
      m_weightVar p ! v = 1"
    and sub: "var ` set as \<subseteq> P" and v: "1 \<le> v" "v \<le> m_nbVar p"
  shows "varValue (fixedValueOf (m_nbVar p) as) p v = varW (cond_weight as (weight_of p)) P v"
proof -
  have or: "push_bit 1 v OR 1 = 2 * v + 1" by (simp add: push_bit_eq_mult or_Suc_0_eq)
  note f = fixedValueOf_nth [OF as v(2)]
  have one: "makeLit v True \<notin> set as \<or> makeLit v False \<notin> set as"
    by (rule distinct_var_signs [OF as])
  have wv: "weight_of p v True = m_weightLit p ! (2 * v)" "weight_of p v False = m_weightLit p ! (2 * v + 1)"
    by (simp_all add: weight_of_def intern_def makeLit_eq)
  show ?thesis
  proof (cases "v \<in> P")
    case True
    then show ?thesis
      unfolding varValue_def varW_def f cond_weight_def wv or
      using one weight_of_sum [OF wok v(2)] by (auto simp: push_bit_eq_mult mult.commute wv)
  next
    case False
    have "makeLit v b \<notin> set as" for b using False sub by (metis image_subset_iff var_makeLit)
    with w [OF v False] False show ?thesis by (simp add: varValue_def varW_def f)
  qed
qed

text \<open>
  Counting under an assumption: the value of the root for the conditioned weights. The weights
  of the variables that are not decision variables must be neutral, since their literals may
  occur in the graph.
\<close>

definition neutral_weights :: "'a::comm_semiring_1 problem \<Rightarrow> var set \<Rightarrow> bool" where
  "neutral_weights p P \<longleftrightarrow> (\<forall>v. 1 \<le> v \<longrightarrow> v \<le> m_nbVar p \<longrightarrow> v \<notin> P \<longrightarrow>
     m_weightLit p ! (2 * v) = 1 \<and> m_weightLit p ! (2 * v + 1) = 1 \<and> m_weightVar p ! v = 1)"

lemma dnnf_count_under_value:
  assumes ok: "nm_ok (m_nbVar p) nm" and st: "stamps_old (m_globalStamp nm) (m_nodes nm)"
      "m_globalStamp nm < - 1" and root: "root < length (m_nodes nm)"
    and p: "weights_ok p" "neutral_weights p P"
    and as: "distinct (map var as)" "var ` set as \<subseteq> P"
  shows "\<exists>nm'. dnnf_count_under p nm root as =
      Some (nmValues (cond_weight as (weight_of p)) P nm ! root, nm')
    \<and> same_graph (m_nodes nm) (m_nodes nm') \<and> stamps_old (m_globalStamp nm') (m_nodes nm')
    \<and> m_globalStamp nm' = m_globalStamp nm + 1 \<and> m_width nm' = m_width nm \<and> m_blocks nm' = m_blocks nm"
proof -
  let ?fv = "fixedValueOf (m_nbVar p) as"
  have "graphValues (litValue ?fv p) (varValue ?fv p) (m_nodes nm) = nmValues (cond_weight as (weight_of p)) P nm"
  proof (rule graphValues_fits_cong [where n = "m_nbVar p"])
    show "\<forall>nd\<in>set (m_nodes nm). node_fits (m_nbVar p) nd" using ok by (simp add: nm_ok_def)
    show "litValue ?fv p l = litW (cond_weight as (weight_of p)) P l" if "2 \<le> l" "l < 2 * (m_nbVar p + 1)" for l
      by (rule litValue_cond [OF as(1) _ as(2) that]) (use p(2) in \<open>auto simp: neutral_weights_def\<close>)
    show "varValue ?fv p v = varW (cond_weight as (weight_of p)) P v" if "1 \<le> v" "v \<le> m_nbVar p" for v
      by (rule varValue_cond [OF as(1) p(1) _ as(2) that]) (use p(2) in \<open>auto simp: neutral_weights_def\<close>)
  qed
  then show ?thesis
    using nm_computeNbModels_ok [OF _ st root root, of ?fv p] ok
    by (simp add: dnnf_count_under_def nm_ok_def)
qed

end
