(* ===== verification/CnfManager.thy ===== *)
theory CnfManager
  imports Contracts
begin

text \<open>
  The formula managers of \<^verbatim>\<open>src/src/formulaManager\<close> that do not change with the assignment:
  \<^verbatim>\<open>FormulaManager\<close> (the current values and the trivial partition), \<^verbatim>\<open>DataOccurrence\<close> (the
  occurrence list of a literal) and \<^verbatim>\<open>CnfManager\<close> (the clauses, their occurrence lists and the
  search for connected components).

  The occurrence lists of all literals share one array in the code, each literal with a block of
  its own; here each literal has its block, and the pointers \<^verbatim>\<open>bin\<close> and \<^verbatim>\<open>notBin\<close> are offsets in
  it. Clause indices and sizes are natural numbers.
\<close>

section \<open>Occurrence lists\<close>

record ClauseInfo =
  isSat :: bool
  nbUnsat :: nat
  xorLitBin :: nat

record DataOccurrence =
  occ_mem :: "nat list"
  bin :: nat
  notBin :: nat
  nbNotBin :: nat
  nbBin :: nat

definition swap_at :: "'a list \<Rightarrow> nat \<Rightarrow> nat \<Rightarrow> 'a list" where
  "swap_at xs i j = xs[i := xs ! j, j := xs ! i]"

definition getBinClauses :: "DataOccurrence \<Rightarrow> nat list" where
  "getBinClauses oc = take (nbBin oc) (drop (bin oc) (occ_mem oc))"

definition getNotBinClauses :: "DataOccurrence \<Rightarrow> nat list" where
  "getNotBinClauses oc = take (nbNotBin oc) (drop (notBin oc) (occ_mem oc))"

text \<open>\<^verbatim>\<open>getClauses\<close>: from \<^verbatim>\<open>bin\<close> to the end of the other clauses.\<close>

definition occ_getClauses :: "DataOccurrence \<Rightarrow> nat list" where
  "occ_getClauses oc = take (notBin oc + nbNotBin oc - bin oc) (drop (bin oc) (occ_mem oc))"

definition cleanNotBin :: "DataOccurrence \<Rightarrow> DataOccurrence" where
  "cleanNotBin oc = oc\<lparr>nbNotBin := 0\<rparr>"

definition cleanBin :: "DataOccurrence \<Rightarrow> DataOccurrence" where
  "cleanBin oc = oc\<lparr>bin := bin oc + nbBin oc, nbBin := 0\<rparr>"

definition clean :: "DataOccurrence \<Rightarrow> DataOccurrence" where
  "clean oc = cleanBin (cleanNotBin oc)"

text \<open>
  The loop of \<^verbatim>\<open>removeSatisfiedBin\<close>: \<open>e\<close> is the position after \<^verbatim>\<open>*end\<close>; satisfied clauses are
  swapped to the front, which is then given up.
\<close>

function removeSatisfiedBin_loop ::
  "ClauseInfo list \<Rightarrow> nat list \<Rightarrow> nat \<Rightarrow> nat \<Rightarrow> nat list \<times> nat" where
  "removeSatisfiedBin_loop info mem b e =
     (if e \<le> b then (mem, b)
      else if \<not> isSat (info ! (mem ! (e - 1))) then removeSatisfiedBin_loop info mem b (e - 1)
      else removeSatisfiedBin_loop info (swap_at mem (e - 1) b) (b + 1) e)"
  by pat_completeness auto
termination by (relation "measure (\<lambda>(info, mem, b, e). e - b)") auto

declare removeSatisfiedBin_loop.simps [simp del]

definition removeSatisfiedBin :: "ClauseInfo list \<Rightarrow> DataOccurrence \<Rightarrow> DataOccurrence" where
  "removeSatisfiedBin info oc =
     (if nbBin oc = 0 then oc
      else let endSize = bin oc + nbBin oc;
               (mem, b) = removeSatisfiedBin_loop info (occ_mem oc) (bin oc) endSize
           in oc\<lparr>occ_mem := mem, bin := b, nbBin := endSize - b\<rparr>)"

function removeSatisfiedNotBin_loop ::
  "ClauseInfo list \<Rightarrow> nat list \<Rightarrow> nat \<Rightarrow> nat \<Rightarrow> nat \<Rightarrow> nat list \<times> nat" where
  "removeSatisfiedNotBin_loop info mem nb0 i n =
     (if n \<le> i then (mem, n)
      else if isSat (info ! (mem ! (nb0 + i)))
      then removeSatisfiedNotBin_loop info (swap_at mem (nb0 + i) (nb0 + (n - 1))) nb0 i (n - 1)
      else removeSatisfiedNotBin_loop info mem nb0 (i + 1) n)"
  by pat_completeness auto
termination by (relation "measure (\<lambda>(info, mem, nb0, i, n). n - i)") auto

declare removeSatisfiedNotBin_loop.simps [simp del]

definition removeSatisfiedNotBin :: "ClauseInfo list \<Rightarrow> DataOccurrence \<Rightarrow> DataOccurrence" where
  "removeSatisfiedNotBin info oc =
     (let (mem, n) = removeSatisfiedNotBin_loop info (occ_mem oc) (notBin oc) 0 (nbNotBin oc)
      in oc\<lparr>occ_mem := mem, nbNotBin := n\<rparr>)"

text \<open>Removing and adding one clause. Removing a clause that is not there fails an assertion.\<close>

fun find_pos :: "nat list \<Rightarrow> nat \<Rightarrow> nat \<Rightarrow> nat \<Rightarrow> nat \<Rightarrow> nat option" where
  "find_pos mem base i 0 idx = None"
| "find_pos mem base i (Suc k) idx =
     (if mem ! (base + i) = idx then Some i else find_pos mem base (i + 1) k idx)"

definition removeBin :: "DataOccurrence \<Rightarrow> nat \<Rightarrow> error + DataOccurrence" where
  "removeBin oc idx =
     (case find_pos (occ_mem oc) (bin oc) 0 (nbBin oc) idx of
        None \<Rightarrow> Inl (Assertion ''we have to remove one element'')
      | Some i \<Rightarrow> Inr (oc\<lparr>occ_mem := swap_at (occ_mem oc) (bin oc + i) (bin oc),
                        bin := bin oc + 1, nbBin := nbBin oc - 1\<rparr>))"

definition removeNotBin :: "DataOccurrence \<Rightarrow> nat \<Rightarrow> error + DataOccurrence" where
  "removeNotBin oc idx =
     (case find_pos (occ_mem oc) (notBin oc) 0 (nbNotBin oc) idx of
        None \<Rightarrow> Inl (Assertion ''we have to remove one element'')
      | Some i \<Rightarrow> Inr (oc\<lparr>occ_mem := swap_at (occ_mem oc) (notBin oc + i) (notBin oc + (nbNotBin oc - 1)),
                        nbNotBin := nbNotBin oc - 1\<rparr>))"

definition addBin :: "DataOccurrence \<Rightarrow> nat \<Rightarrow> DataOccurrence" where
  "addBin oc idx = oc\<lparr>bin := bin oc - 1, occ_mem := (occ_mem oc)[bin oc - 1 := idx], nbBin := nbBin oc + 1\<rparr>"

definition addNotBin :: "DataOccurrence \<Rightarrow> nat \<Rightarrow> DataOccurrence" where
  "addNotBin oc idx = oc\<lparr>occ_mem := (occ_mem oc)[notBin oc + nbNotBin oc := idx], nbNotBin := nbNotBin oc + 1\<rparr>"

definition occ_size :: "DataOccurrence \<Rightarrow> nat" where
  "occ_size oc = nbNotBin oc + nbBin oc"

section \<open>The CNF manager\<close>

record InfoCluster =
  ic_parent :: nat
  ic_size :: nat
  ic_pos :: int

record cnfManager =
  cm_nbVar :: nat
  cm_currentValue :: "lbool list"
  cm_clauses :: cnf
  cm_clausesNotBin :: "nat list"
  cm_maxSizeClause :: nat
  cm_infoClauses :: "ClauseInfo list"
  cm_inCurrentComponent :: "bool list"
  cm_occurrence :: "DataOccurrence list"
  cm_infoCluster :: "InfoCluster list"
  cm_mustUnMark :: "nat list"
  cm_tmpVecVar :: "var list"
  cm_idxComponent :: "nat list"
  cm_markView :: "bool list"

subsection \<open>The constructor\<close>

definition occurrenceIdx :: "cnf \<Rightarrow> nat \<Rightarrow> nat list" where
  "occurrenceIdx clauses i =
     concat (map (\<lambda>k. replicate (count_list (map intern (clauses ! k)) i) k) [0 ..< length clauses])"

text \<open>
  The block of a literal: the binary clauses from the front, the others from the back.
\<close>

definition initOccurrence :: "cnf \<Rightarrow> nat list \<Rightarrow> DataOccurrence" where
  "initOccurrence clauses occList =
     (let (mem, nb, posNotBin) = foldl
        (\<lambda>(mem, nb, posNotBin) idx.
           if length (clauses ! idx) = 2 then (mem[nb := idx], nb + 1, posNotBin)
           else (mem[posNotBin - 1 := idx], nb, posNotBin - 1))
        (replicate (length occList) 0, 0, length occList) occList
      in \<lparr>occ_mem = mem, bin = 0, notBin = posNotBin, nbNotBin = length occList - nb, nbBin = nb\<rparr>)"

definition initInfoClause :: "clause \<Rightarrow> ClauseInfo" where
  "initInfoClause cl =
     \<lparr>isSat = False, nbUnsat = 0,
      xorLitBin = (if length cl = 2 then intern (cl ! 0) XOR intern (cl ! 1) else 0)\<rparr>"

definition initCnfManager :: "'a problem \<Rightarrow> cnfManager" where
  "initCnfManager p =
     (let clauses = m_clauses p; n = m_nbVar p
      in \<lparr>cm_nbVar = n, cm_currentValue = replicate (n + 1) l_Undef, cm_clauses = clauses,
          cm_clausesNotBin = filter (\<lambda>i. length (clauses ! i) > 2) [0 ..< length clauses],
          cm_maxSizeClause = foldl (\<lambda>mx cl. if length cl > mx then length cl else mx) 0 clauses,
          cm_infoClauses = map initInfoClause clauses,
          cm_inCurrentComponent = replicate (n + 1) False,
          cm_occurrence = map (\<lambda>i. initOccurrence clauses (occurrenceIdx clauses i)) [0 ..< push_bit 1 (n + 1)],
          cm_infoCluster = replicate (n + length clauses + 1) \<lparr>ic_parent = 0, ic_size = 0, ic_pos = - 1\<rparr>,
          cm_mustUnMark = [], cm_tmpVecVar = [], cm_idxComponent = replicate (n + 1) 0,
          cm_markView = replicate (length clauses) False\<rparr>)"

subsection \<open>Values and sizes\<close>

definition varIsAssigned :: "'z cnfManager_scheme \<Rightarrow> var \<Rightarrow> bool" where
  "varIsAssigned f v \<longleftrightarrow> cm_currentValue f ! v \<noteq> l_Undef"

definition litIsAssigned :: "'z cnfManager_scheme \<Rightarrow> lit \<Rightarrow> bool" where
  "litIsAssigned f l \<longleftrightarrow> cm_currentValue f ! var l \<noteq> l_Undef"

definition litIsAssignedToTrue :: "'z cnfManager_scheme \<Rightarrow> lit \<Rightarrow> bool" where
  "litIsAssignedToTrue f l \<longleftrightarrow>
     (if sign l then cm_currentValue f ! var l = l_False else cm_currentValue f ! var l = l_True)"

definition assignListLit :: "lit list \<Rightarrow> 'z cnfManager_scheme \<Rightarrow> 'z cnfManager_scheme" where
  "assignListLit lits f = f\<lparr>cm_currentValue :=
     foldl (\<lambda>val l. val[var l := lbool_of_sign (sign l)]) (cm_currentValue f) lits\<rparr>"

definition occ_of :: "'z cnfManager_scheme \<Rightarrow> lit \<Rightarrow> DataOccurrence" where
  "occ_of f l = cm_occurrence f ! intern l"

definition getVecIdxClauseBin :: "'z cnfManager_scheme \<Rightarrow> lit \<Rightarrow> nat list" where
  "getVecIdxClauseBin f l = getBinClauses (occ_of f l)"

definition getVecIdxClauseNotBin :: "'z cnfManager_scheme \<Rightarrow> lit \<Rightarrow> nat list" where
  "getVecIdxClauseNotBin f l = getNotBinClauses (occ_of f l)"

definition getVecIdxClause :: "'z cnfManager_scheme \<Rightarrow> lit \<Rightarrow> nat list" where
  "getVecIdxClause f l = occ_getClauses (occ_of f l)"

definition getNbClauseLit :: "'z cnfManager_scheme \<Rightarrow> lit \<Rightarrow> nat" where
  "getNbClauseLit f l = nbBin (occ_of f l) + nbNotBin (occ_of f l)"

definition getNbOccurrence :: "'z cnfManager_scheme \<Rightarrow> lit \<Rightarrow> nat" where
  "getNbOccurrence f l = getNbClauseLit f l"

definition isFreeVariable :: "'z cnfManager_scheme \<Rightarrow> var \<Rightarrow> bool" where
  "isFreeVariable f v \<longleftrightarrow>
     getNbOccurrence f (makeLitFalse v) = 0 \<and> getNbOccurrence f (makeLitTrue v) = 0"

definition getSize :: "'z cnfManager_scheme \<Rightarrow> nat \<Rightarrow> nat" where
  "getSize f idx = length (cm_clauses f ! idx) - nbUnsat (cm_infoClauses f ! idx)"

definition getNbBinaryClauseLit :: "'z cnfManager_scheme \<Rightarrow> lit \<Rightarrow> nat" where
  "getNbBinaryClauseLit f l =
     foldl (\<lambda>nb idx. if getSize f idx = 2 then nb + 1 else nb) (nbBin (occ_of f l))
       (getVecIdxClauseNotBin f l)"

definition getNbNotBinaryClauseLit :: "'z cnfManager_scheme \<Rightarrow> lit \<Rightarrow> nat" where
  "getNbNotBinaryClauseLit f l = getNbClauseLit f l - getNbBinaryClauseLit f l"

definition getNbClauseVar :: "'z cnfManager_scheme \<Rightarrow> var \<Rightarrow> nat" where
  "getNbClauseVar f v = getNbClauseLit f (makeLitFalse v) + getNbClauseLit f (makeLitTrue v)"

definition getNbBinaryClauseVar :: "'z cnfManager_scheme \<Rightarrow> var \<Rightarrow> nat" where
  "getNbBinaryClauseVar f v =
     getNbBinaryClauseLit f (makeLitFalse v) + getNbBinaryClauseLit f (makeLitTrue v)"

definition getSumSizeClauses :: "'z cnfManager_scheme \<Rightarrow> nat" where
  "getSumSizeClauses f = foldl (\<lambda>sum cl. sum + length cl) 0 (cm_clauses f)"

definition isSatisfiedClause :: "'z cnfManager_scheme \<Rightarrow> nat \<Rightarrow> bool" where
  "isSatisfiedClause f idx = isSat (cm_infoClauses f ! idx)"

fun isSatisfiedClause_lits :: "'z cnfManager_scheme \<Rightarrow> lit list \<Rightarrow> bool" where
  "isSatisfiedClause_lits f [] = False"
| "isSatisfiedClause_lits f (l # c) =
     (if \<not> litIsAssigned f l then isSatisfiedClause_lits f c
      else if sign l \<and> cm_currentValue f ! var l = l_False then True
      else if \<not> sign l \<and> cm_currentValue f ! var l = l_True then True
      else isSatisfiedClause_lits f c)"

definition isNotSatisfiedClauseAndInComponent ::
  "'z cnfManager_scheme \<Rightarrow> nat \<Rightarrow> bool list \<Rightarrow> bool" where
  "isNotSatisfiedClauseAndInComponent f idx inCurrentComponent =
     (if isSat (cm_infoClauses f ! idx) then False
      else inCurrentComponent ! var (cm_clauses f ! idx ! 0))"

subsection \<open>Connected components\<close>

text \<open>\<^verbatim>\<open>computeTrivialConnectedComponent\<close>: all the constrained variables make one component.\<close>

definition computeTrivialConnectedComponent ::
  "'z cnfManager_scheme \<Rightarrow> var list \<Rightarrow> var list list \<times> var list" where
  "computeTrivialConnectedComponent f setOfVar =
     (let (connected, freeVar) = foldl
        (\<lambda>(connected, freeVar) v.
           if varIsAssigned f v then (connected, freeVar)
           else if isFreeVariable f v then (connected, freeVar @ [v])
           else (connected @ [v], freeVar))
        ([], []) setOfVar
      in (if connected = [] then [] else [connected], freeVar))"

abbreviation ic_par :: "InfoCluster list \<Rightarrow> nat \<Rightarrow> nat" where
  "ic_par ic v \<equiv> ic_parent (ic ! v)"

definition set_parent :: "InfoCluster list \<Rightarrow> nat \<Rightarrow> nat \<Rightarrow> InfoCluster list" where
  "set_parent ic v r = ic[v := (ic ! v)\<lparr>ic_parent := r\<rparr>]"

definition set_size :: "InfoCluster list \<Rightarrow> nat \<Rightarrow> nat \<Rightarrow> InfoCluster list" where
  "set_size ic v s = ic[v := (ic ! v)\<lparr>ic_size := s\<rparr>]"

definition set_pos :: "InfoCluster list \<Rightarrow> nat \<Rightarrow> int \<Rightarrow> InfoCluster list" where
  "set_pos ic v p = ic[v := (ic ! v)\<lparr>ic_pos := p\<rparr>]"

text \<open>
  The loop that climbs to the root and halves the path. The fuel is the number of nodes; a path
  is shorter than that, since sizes grow along it.
\<close>

fun findRoot :: "nat \<Rightarrow> InfoCluster list \<Rightarrow> nat \<Rightarrow> nat \<times> InfoCluster list" where
  "findRoot 0 ic r = (r, ic)"
| "findRoot (Suc k) ic r =
     (if r = ic_par ic r then (r, ic)
      else let ic' = set_parent ic r (ic_par ic (ic_par ic r)) in findRoot k ic' (ic_par ic' r))"

text \<open>One clause of the occurrence list of the variable whose root is \<open>rootV\<close>.\<close>

definition visitClause ::
  "nat \<Rightarrow> nat \<Rightarrow> nat \<times> InfoCluster list \<times> bool list \<times> nat list
     \<Rightarrow> nat \<times> InfoCluster list \<times> bool list \<times> nat list" where
  "visitClause nbVar idx st =
     (let (rootV, ic, markView, mustUnMark) = st
      in if \<not> markView ! idx
         then let ic1 = set_parent ic (idx + nbVar + 1) rootV
              in (rootV, set_size ic1 rootV (ic_size (ic1 ! rootV) + 1), markView[idx := True],
                  mustUnMark @ [idx])
         else
           let (rootW, ic1) = findRoot (length ic) ic (ic_par ic (idx + nbVar + 1))
           in if rootV = rootW then (rootV, ic1, markView, mustUnMark)
              else if ic_size (ic1 ! rootV) < ic_size (ic1 ! rootW)
              then let ic2 = set_size ic1 rootW (ic_size (ic1 ! rootW) + ic_size (ic1 ! rootV))
                   in (rootW, set_parent ic2 rootV (ic_par ic2 rootW), markView, mustUnMark)
              else let ic2 = set_size ic1 rootV (ic_size (ic1 ! rootV) + ic_size (ic1 ! rootW))
                   in (rootV, set_parent ic2 rootW (ic_par ic2 rootV), markView, mustUnMark))"

definition visitVar ::
  "'z cnfManager_scheme \<Rightarrow> InfoCluster list \<times> bool list \<times> nat list \<Rightarrow> var
     \<Rightarrow> InfoCluster list \<times> bool list \<times> nat list" where
  "visitVar f st v =
     (if varIsAssigned f v then st
      else let l = makeLit v False
           in snd (fold (visitClause (cm_nbVar f)) (getVecIdxClause f l @ getVecIdxClause f (neg l)) (v, st)))"

text \<open>The second loop puts a variable in the component of its root.\<close>

definition collectVar ::
  "'z cnfManager_scheme \<Rightarrow> var list list \<times> var list \<times> nat list \<times> InfoCluster list \<Rightarrow> var
     \<Rightarrow> var list list \<times> var list \<times> nat list \<times> InfoCluster list" where
  "collectVar f st v =
     (let (varCo, freeVar, rootSet, ic) = st
      in if varIsAssigned f v then st
         else if ic_par ic v = v \<and> ic_size (ic ! v) = 1 then (varCo, freeVar @ [v], rootSet, ic)
         else let (rootV, ic1) = findRoot (length ic) ic (ic_par ic v);
                  (varCo1, rootSet1, ic2) =
                    (if ic_pos (ic1 ! rootV) = - 1
                     then (varCo @ [[]], rootSet @ [rootV], set_pos ic1 rootV (int (length varCo)))
                     else (varCo, rootSet, ic1));
                  k = nat (ic_pos (ic2 ! rootV))
              in (varCo1[k := varCo1 ! k @ [v]], freeVar, rootSet1, ic2))"

definition cnf_computeConnectedComponent ::
  "'z cnfManager_scheme \<Rightarrow> var list \<Rightarrow> (var list list \<times> var list) \<times> 'z cnfManager_scheme" where
  "cnf_computeConnectedComponent f setOfVar =
     (let ic0 = foldl (\<lambda>ic v. set_size (set_parent ic v v) v 1) (cm_infoCluster f) setOfVar;
          (ic1, markView, mustUnMark) =
            foldl (visitVar f) (ic0, cm_markView f, cm_mustUnMark f) setOfVar;
          (varCo, freeVar, rootSet, ic2) = foldl (collectVar f) ([], [], [], ic1) setOfVar
      in ((varCo, freeVar),
          f\<lparr>cm_infoCluster := foldl (\<lambda>ic v. set_pos ic v (- 1)) ic2 rootSet,
            cm_markView := foldl (\<lambda>mk idx. mk[idx := False]) markView mustUnMark,
            cm_mustUnMark := []\<rparr>))"

text \<open>
  \<^verbatim>\<open>computeConnectedComponentTargeted\<close>: a depth first search from the targeted variables. The
  state is \<^verbatim>\<open>m_idxComponent\<close>, the stack of variables and the marked clauses; the fuel bounds the
  number of variables taken from the stack.
\<close>

definition connectedToLit ::
  "'z cnfManager_scheme \<Rightarrow> nat \<Rightarrow> lit \<Rightarrow> nat list \<times> var list \<times> bool list \<times> nat list
     \<Rightarrow> nat list \<times> var list \<times> bool list \<times> nat list" where
  "connectedToLit f nbComponent l st = fold
     (\<lambda>idx (cmp, stack, markView, mustUnMark).
        if markView ! idx then (cmp, stack, markView, mustUnMark)
        else let (cmp', stack') = fold
               (\<lambda>ll (cmp, stack).
                  if cm_currentValue f ! var ll \<noteq> l_Undef \<or> cmp ! var ll \<noteq> 0 then (cmp, stack)
                  else (cmp[var ll := nbComponent], stack @ [var ll]))
               (cm_clauses f ! idx) (cmp, stack)
             in (cmp', stack', markView[idx := True], mustUnMark @ [idx]))
     (getVecIdxClauseNotBin f l @ getVecIdxClauseBin f l) st"

fun targetedLoop ::
  "nat \<Rightarrow> 'z cnfManager_scheme \<Rightarrow> nat \<Rightarrow> nat \<Rightarrow> nat list \<times> var list \<times> bool list \<times> nat list
     \<Rightarrow> (nat \<times> nat list \<times> var list \<times> bool list \<times> nat list) option" where
  "targetedLoop 0 f nbComponent cpt st = None"
| "targetedLoop (Suc k) f nbComponent cpt (cmp, stack, markView, mustUnMark) =
     (if stack = [] then Some (cpt, cmp, stack, markView, mustUnMark)
      else let l = makeLit (last stack) False;
               st0 = (cmp, butlast stack, markView, mustUnMark);
               st1 = (if getNbOccurrence f l \<noteq> 0 then connectedToLit f nbComponent l st0 else st0);
               st2 = (if getNbOccurrence f (neg l) \<noteq> 0 then connectedToLit f nbComponent (neg l) st1 else st1)
           in targetedLoop k f nbComponent (cpt + 1) st2)"

definition targetedVar ::
  "nat \<Rightarrow> 'z cnfManager_scheme \<Rightarrow> bool list \<Rightarrow> var
     \<Rightarrow> (nat \<times> nat list \<times> bool list \<times> nat list) option
     \<Rightarrow> (nat \<times> nat list \<times> bool list \<times> nat list) option" where
  "targetedVar fuel f isProjected v st = Option.bind st (\<lambda>(nbComponent, cmp, markView, mustUnMark).
     if varIsAssigned f v \<or> cmp ! v \<noteq> 0 \<or> \<not> isProjected ! v
     then Some (nbComponent, cmp, markView, mustUnMark)
     else Option.bind
            (targetedLoop fuel f (nbComponent + 1) 0 (cmp[v := nbComponent + 1], [v], markView, mustUnMark))
            (\<lambda>(cpt, cmp1, stack, markView1, mustUnMark1).
               if cpt = 1 then Some (nbComponent, cmp1[v := 0], markView1, mustUnMark1)
               else Some (nbComponent + 1, cmp1, markView1, mustUnMark1)))"

definition computeConnectedComponentTargeted ::
  "nat \<Rightarrow> 'z cnfManager_scheme \<Rightarrow> var list \<Rightarrow> bool list
     \<Rightarrow> ((var list list \<times> var list) \<times> 'z cnfManager_scheme) option" where
  "computeConnectedComponentTargeted fuel f setOfVar isProjected = Option.bind
     (fold (targetedVar fuel f isProjected) setOfVar
        (Some (0, cm_idxComponent f, cm_markView f, cm_mustUnMark f)))
     (\<lambda>(nbComponent, cmp, markView, mustUnMark).
        let (varCo, freeVar, cmp') = foldl
              (\<lambda>(varCo, freeVar, cmp) v.
                 if cmp ! v \<noteq> 0
                 then (varCo[cmp ! v - 1 := varCo ! (cmp ! v - 1) @ [v]], freeVar, cmp[v := 0])
                 else if \<not> varIsAssigned f v then (varCo, freeVar @ [v], cmp[v := 0])
                 else (varCo, freeVar, cmp[v := 0]))
              (replicate nbComponent [], [], cmp) setOfVar
        in Some ((varCo, freeVar),
             f\<lparr>cm_idxComponent := cmp', cm_tmpVecVar := [],
               cm_markView := foldl (\<lambda>mk idx. mk[idx := False]) markView mustUnMark,
               cm_mustUnMark := []\<rparr>))"

end
