(* ===== verification/UnionFind.thy ===== *)
theory UnionFind
  imports CnfManager
begin

text \<open>
  The union-find of \<^verbatim>\<open>computeConnectedComponent\<close>: \<open>leads\<close> relates a node to its root. Sizes grow
  along the parent pointers, which is why a path ends, why the fuel of \<open>findRoot\<close> is enough, and
  why halving a path or merging two roots is sound.
\<close>

section \<open>Roots\<close>

inductive leads :: "InfoCluster list \<Rightarrow> nat \<Rightarrow> nat \<Rightarrow> bool" for ic where
  root: "ic_par ic x = x \<Longrightarrow> leads ic x x"
| step: "ic_par ic x \<noteq> x \<Longrightarrow> leads ic (ic_par ic x) y \<Longrightarrow> leads ic x y"

inductive_cases leadsE: "leads ic x y"

definition uf_ok :: "nat set \<Rightarrow> InfoCluster list \<Rightarrow> bool" where
  "uf_ok S ic \<longleftrightarrow> finite S \<and> (\<forall>x\<in>S. x < length ic \<and> ic_par ic x \<in> S \<and> 1 \<le> ic_size (ic ! x)
     \<and> (ic_par ic x \<noteq> x \<longrightarrow> ic_size (ic ! x) < ic_size (ic ! ic_par ic x)))"

lemma uf_okD:
  assumes "uf_ok S ic" "x \<in> S"
  shows "x < length ic" "ic_par ic x \<in> S" "1 \<le> ic_size (ic ! x)"
    "ic_par ic x \<noteq> x \<Longrightarrow> ic_size (ic ! x) < ic_size (ic ! ic_par ic x)"
  using assms unfolding uf_ok_def by blast+

lemma leads_root: "leads ic x r \<Longrightarrow> ic_par ic r = r"
  by (induction rule: leads.induct) auto

lemma leads_det: "leads ic x r \<Longrightarrow> leads ic x r' \<Longrightarrow> r' = r"
proof (induction arbitrary: r' rule: leads.induct)
  case (root x)
  then show ?case by (auto elim: leadsE)
next
  case (step x y)
  from step.prems step.hyps have "leads ic (ic_par ic x) r'" by (auto elim: leadsE)
  then show ?case by (rule step.IH)
qed

lemma leads_self: "leads ic x x \<longleftrightarrow> ic_par ic x = x"
  using leads.root leads_root by blast

lemma leads_of_root: "ic_par ic r = r \<Longrightarrow> leads ic r y \<longleftrightarrow> y = r"
  using leads.root leads_det by metis

lemma leads_in:
  assumes "leads ic x r" "uf_ok S ic" "x \<in> S"
  shows "r \<in> S \<and> ic_size (ic ! x) \<le> ic_size (ic ! r)"
  using assms
proof (induction rule: leads.induct)
  case (step x y)
  then show ?case using uf_okD(2,4) [OF step.prems] by force
qed simp

lemma leads_total:
  assumes "uf_ok S ic" "x \<in> S"
  shows "\<exists>r\<in>S. leads ic x r"
proof -
  let ?s = "\<lambda>x. ic_size (ic ! x)"
  have fin: "finite S" using assms(1) by (simp add: uf_ok_def)
  show ?thesis using assms(2)
  proof (induction "Max (?s ` S) - ?s x" arbitrary: x rule: less_induct)
    case less
    show ?case
    proof (cases "ic_par ic x = x")
      case True
      then show ?thesis using less.prems leads.root by blast
    next
      case False
      note d = uf_okD [OF assms(1) less.prems]
      have "?s (ic_par ic x) \<le> Max (?s ` S)" using fin d(2) by simp
      then have "Max (?s ` S) - ?s (ic_par ic x) < Max (?s ` S) - ?s x" using d(4) [OF False] by linarith
      from less.hyps [OF this d(2)] show ?thesis using leads.step [OF False] by blast
    qed
  qed
qed

section \<open>Halving the path\<close>

lemma upd_field:
  assumes "g (f (xs ! v)) = g (xs ! v)"
  shows "g (xs[v := f (xs ! v)] ! x) = g (xs ! x)"
proof (cases "v < length xs")
  case True
  then show ?thesis using assms by (cases "x = v") simp_all
qed (simp add: list_update_beyond)

lemma set_parent_reads [simp]:
  "length (set_parent ic v r) = length ic"
  "v < length ic \<Longrightarrow> ic_par (set_parent ic v r) x = (if x = v then r else ic_par ic x)"
  "ic_size (set_parent ic v r ! x) = ic_size (ic ! x)" "ic_pos (set_parent ic v r ! x) = ic_pos (ic ! x)"
  unfolding set_parent_def
  using upd_field [of ic_size "\<lambda>c. c\<lparr>ic_parent := r\<rparr>" ic v x] upd_field [of ic_pos "\<lambda>c. c\<lparr>ic_parent := r\<rparr>" ic v x]
  by simp_all

lemma set_size_reads [simp]:
  "length (set_size ic v s) = length ic" "ic_par (set_size ic v s) x = ic_par ic x"
  "v < length ic \<Longrightarrow> ic_size (set_size ic v s ! x) = (if x = v then s else ic_size (ic ! x))"
  "ic_pos (set_size ic v s ! x) = ic_pos (ic ! x)"
  unfolding set_size_def
  using upd_field [of ic_parent "\<lambda>c. c\<lparr>ic_size := s\<rparr>" ic v x] upd_field [of ic_pos "\<lambda>c. c\<lparr>ic_size := s\<rparr>" ic v x]
  by simp_all

lemma set_pos_reads [simp]:
  "length (set_pos ic v q) = length ic" "ic_par (set_pos ic v q) x = ic_par ic x"
  "v < length ic \<Longrightarrow> ic_pos (set_pos ic v q ! x) = (if x = v then q else ic_pos (ic ! x))"
  "ic_size (set_pos ic v q ! x) = ic_size (ic ! x)"
  unfolding set_pos_def
  using upd_field [of ic_parent "\<lambda>c. c\<lparr>ic_pos := q\<rparr>" ic v x] upd_field [of ic_size "\<lambda>c. c\<lparr>ic_pos := q\<rparr>" ic v x]
  by simp_all

text \<open>Only the parents matter.\<close>

lemma leads_cong:
  assumes "\<And>x. ic_par ic' x = ic_par ic x"
  shows "leads ic' x y \<longleftrightarrow> leads ic x y"
proof
  show "leads ic' x y \<Longrightarrow> leads ic x y"
  proof (induction rule: leads.induct)
    case (root z)
    then show ?case by (intro leads.root) (simp add: assms)
  next
    case (step z y)
    then show ?case by (intro leads.step [of ic z]) (simp_all add: assms)
  qed
  show "leads ic x y \<Longrightarrow> leads ic' x y"
  proof (induction rule: leads.induct)
    case (root z)
    then show ?case by (intro leads.root) (simp add: assms)
  next
    case (step z y)
    then show ?case by (intro leads.step [of ic' z]) (simp_all add: assms)
  qed
qed

lemma leads_set_size [simp]: "leads (set_size ic v s) x y \<longleftrightarrow> leads ic x y"
  by (rule leads_cong) simp

lemma leads_set_pos [simp]: "leads (set_pos ic v q) x y \<longleftrightarrow> leads ic x y"
  by (rule leads_cong) simp

lemma uf_ok_set_pos [simp]: "uf_ok S (set_pos ic v q) = uf_ok S ic"
  by (simp add: uf_ok_def)

lemma halve_ok:
  assumes ok: "uf_ok S ic" and r: "r \<in> S" "ic_par ic r \<noteq> r"
  defines "ic' \<equiv> set_parent ic r (ic_par ic (ic_par ic r))"
  shows "uf_ok S ic'" "leads ic' x y \<longleftrightarrow> leads ic x y"
proof -
  let ?p = "ic_par ic r"
  note d = uf_okD [OF ok r(1)]
  note d' = uf_okD [OF ok d(2)]
  have less: "ic_size (ic ! r) < ic_size (ic ! ic_par ic ?p)"
    using d(4) [OF r(2)] d'(4) by (cases "ic_par ic ?p = ?p") auto
  have par: "ic_par ic' z = (if z = r then ic_par ic ?p else ic_par ic z)" for z
    using d(1) by (simp add: ic'_def)
  have ne: "ic_par ic ?p \<noteq> r" using less by auto
  show "uf_ok S ic'"
    unfolding uf_ok_def
  proof (intro conjI ballI)
    show "finite S" using ok by (simp add: uf_ok_def)
    fix z assume z: "z \<in> S"
    note e = uf_okD [OF ok z]
    show "z < length ic'" "ic_par ic' z \<in> S" "1 \<le> ic_size (ic' ! z)"
      using e d'(2) unfolding par by (auto simp: ic'_def)
    show "ic_par ic' z \<noteq> z \<longrightarrow> ic_size (ic' ! z) < ic_size (ic' ! ic_par ic' z)"
      using e(4) less unfolding par by (auto simp: ic'_def)
  qed
  show "leads ic' x y \<longleftrightarrow> leads ic x y"
  proof
    show "leads ic' x y \<Longrightarrow> leads ic x y"
    proof (induction rule: leads.induct)
      case (root z)
      then show ?case using ne by (auto simp: par split: if_splits intro: leads.root)
    next
      case (step z y)
      show ?case
      proof (cases "z = r")
        case True
        then have "leads ic (ic_par ic ?p) y" using step.IH by (simp add: par)
        then have "leads ic ?p y" using leads.step [of ic ?p y] by (cases "ic_par ic ?p = ?p") simp_all
        then show ?thesis using True leads.step [OF r(2)] by simp
      next
        case False
        then show ?thesis using step leads.step [of ic z y] by (simp add: par)
      qed
    qed
    show "leads ic x y \<Longrightarrow> leads ic' x y"
    proof (induction rule: leads.induct)
      case (root z)
      then have "ic_par ic' z = z" using r(2) by (auto simp: par)
      then show ?case by (rule leads.root)
    next
      case (step z y)
      show ?case
      proof (cases "z = r")
        case False
        then show ?thesis using step leads.step [of ic' z y] by (simp add: par)
      next
        case True
        have pp: "ic_par ic' ?p = ic_par ic ?p" using r(2) by (simp add: par)
        have "leads ic' (ic_par ic ?p) y"
        proof (cases "ic_par ic ?p = ?p")
          case True
          then show ?thesis using step.IH \<open>z = r\<close> by simp
        next
          case False
          then show ?thesis using step.IH \<open>z = r\<close> pp by (auto elim: leadsE)
        qed
        then show ?thesis using True ne leads.step [of ic' r y] by (simp add: par)
      qed
    qed
  qed
qed

section \<open>Finding the root\<close>

text \<open>What a search may change: parents on its path.\<close>

definition same_uf :: "nat set \<Rightarrow> InfoCluster list \<Rightarrow> InfoCluster list \<Rightarrow> bool" where
  "same_uf S ic ic' \<longleftrightarrow> uf_ok S ic' \<and> length ic' = length ic \<and> (\<forall>x y. leads ic' x y \<longleftrightarrow> leads ic x y)
     \<and> (\<forall>x. ic_size (ic' ! x) = ic_size (ic ! x) \<and> ic_pos (ic' ! x) = ic_pos (ic ! x))
     \<and> (\<forall>x. x \<notin> S \<longrightarrow> ic_par ic' x = ic_par ic x)"

lemma same_uf_refl: "uf_ok S ic \<Longrightarrow> same_uf S ic ic"
  by (simp add: same_uf_def)

lemma same_uf_trans: "same_uf S ic ic' \<Longrightarrow> same_uf S ic' ic'' \<Longrightarrow> same_uf S ic ic''"
  by (simp add: same_uf_def)

lemma findRoot_ok:
  assumes "uf_ok S ic" "r \<in> S" "card {y \<in> S. ic_size (ic ! y) > ic_size (ic ! r)} < k"
    "findRoot k ic r = (r', ic')"
  shows "leads ic r r' \<and> same_uf S ic ic'"
  using assms
proof (induction k arbitrary: ic r)
  case (Suc k)
  show ?case
  proof (cases "r = ic_par ic r")
    case True
    then have "r' = r" "ic' = ic" using Suc.prems(4) by auto
    then show ?thesis using True Suc.prems(1) by (auto intro: leads.root same_uf_refl)
  next
    case False
    let ?g = "ic_par ic (ic_par ic r)" and ?ic = "set_parent ic r (ic_par ic (ic_par ic r))"
    have ne: "ic_par ic r \<noteq> r" using False by simp
    note d = uf_okD [OF Suc.prems(1,2)]
    note d' = uf_okD [OF Suc.prems(1) d(2)]
    note h = halve_ok [OF Suc.prems(1,2) ne]
    have fin: "finite S" using Suc.prems(1) by (simp add: uf_ok_def)
    have less: "ic_size (ic ! r) < ic_size (ic ! ?g)"
      using d(4) [OF ne] d'(4) by (cases "?g = ic_par ic r") auto
    have rec: "findRoot k ?ic ?g = (r', ic')"
      using Suc.prems(4) False d(1) by (simp add: Let_def)
    have g: "?g \<in> S" by (rule d'(2))
    let ?A = "{y \<in> S. ic_size (ic ! y) > ic_size (ic ! ?g)}" and ?B = "{y \<in> S. ic_size (ic ! y) > ic_size (ic ! r)}"
    have "?A \<subset> ?B" using less g by auto
    then have "card ?A < card ?B" by (rule psubset_card_mono [rotated]) (simp add: fin)
    then have "card {y \<in> S. ic_size (?ic ! y) > ic_size (?ic ! ?g)} < k" using Suc.prems(3) by simp
    note IH = Suc.IH [OF h(1) g this rec]
    have "same_uf S ic ?ic" 
      unfolding same_uf_def using Suc.prems(2) d(1) by (auto simp: h)
    then have "same_uf S ic ic'" using same_uf_trans IH by blast
    moreover have "leads ic r r'"
    proof -
      have "leads ic ?g r'" using IH h(2) by blast
      then have "leads ic (ic_par ic r) r'"
        using leads.step [of ic "ic_par ic r" r'] by (cases "?g = ic_par ic r") simp_all
      then show ?thesis by (rule leads.step [OF ne])
    qed
    ultimately show ?thesis by blast
  qed
qed simp

lemma findRoot_length:
  assumes "uf_ok S ic" "r \<in> S" "findRoot (length ic) ic r = (r', ic')"
  shows "leads ic r r' \<and> same_uf S ic ic'"
proof (rule findRoot_ok [OF assms(1,2) _ assms(3)])
  have sub: "S \<subseteq> {..<length ic}" using assms(1) by (auto simp: uf_ok_def)
  have fin: "finite S" using assms(1) by (simp add: uf_ok_def)
  have "{y \<in> S. ic_size (ic ! y) > ic_size (ic ! r)} \<subset> S" using assms(2) by auto
  then have "card {y \<in> S. ic_size (ic ! y) > ic_size (ic ! r)} < card S" by (rule psubset_card_mono [OF fin])
  also have "\<dots> \<le> length ic" using card_mono [OF _ sub] by simp
  finally show "card {y \<in> S. ic_size (ic ! y) > ic_size (ic ! r)} < length ic" .
qed

section \<open>Merging two roots\<close>

lemma union_ok:
  assumes ok: "uf_ok S ic" and ab: "a \<in> S" "b \<in> S" "a \<noteq> b" "ic_par ic a = a" "ic_par ic b = b"
    and s: "ic_size (ic ! a) < s" "ic_size (ic ! b) \<le> s"
  defines "ic' \<equiv> set_parent (set_size ic b s) a b"
  shows "uf_ok S ic'" "leads ic' x y \<longleftrightarrow> (leads ic x a \<and> y = b) \<or> (leads ic x y \<and> y \<noteq> a)"
proof -
  have len: "a < length ic" "b < length ic" using uf_okD(1) [OF ok] ab by auto
  have par: "ic_par ic' z = (if z = a then b else ic_par ic z)" for z using len by (simp add: ic'_def)
  have size: "ic_size (ic' ! z) = (if z = b then s else ic_size (ic ! z))" for z using len by (simp add: ic'_def)
  show "uf_ok S ic'"
    unfolding uf_ok_def
  proof (intro conjI ballI)
    show "finite S" using ok by (simp add: uf_ok_def)
    fix z assume z: "z \<in> S"
    note e = uf_okD [OF ok z]
    have le: "ic_size (ic ! y) \<le> ic_size (ic' ! y)" for y using s(2) by (simp add: size)
    show "z < length ic'" "ic_par ic' z \<in> S" using e ab(2) unfolding par by (auto simp: ic'_def)
    show "1 \<le> ic_size (ic' ! z)" using e(3) le [of z] by linarith
    show "ic_par ic' z \<noteq> z \<longrightarrow> ic_size (ic' ! z) < ic_size (ic' ! ic_par ic' z)"
      using e(4) s ab(3,5) le [of "ic_par ic z"] by (auto simp: par size)
  qed
  show "leads ic' x y \<longleftrightarrow> (leads ic x a \<and> y = b) \<or> (leads ic x y \<and> y \<noteq> a)"
  proof
    show "leads ic' x y \<Longrightarrow> (leads ic x a \<and> y = b) \<or> (leads ic x y \<and> y \<noteq> a)"
    proof (induction rule: leads.induct)
      case (root z)
      then have "z \<noteq> a" "ic_par ic z = z" using ab(3) by (auto simp: par split: if_splits)
      then show ?case by (auto intro: leads.root)
    next
      case (step z y)
      show ?case
      proof (cases "z = a")
        case True
        then have "y = b" using step.IH ab(3,5) leads_of_root [of ic b] by (auto simp: par)
        then show ?thesis using True leads.root [OF ab(4)] by simp
      next
        case False
        then show ?thesis using step leads.step [of ic z y] leads.step [of ic z a] by (simp add: par) blast
      qed
    qed
    have to_b: "leads ic z r \<Longrightarrow> r = a \<Longrightarrow> leads ic' z b" for z r
    proof (induction rule: leads.induct)
      case (root z)
      have "leads ic' b b" using ab(3,5) by (intro leads.root) (simp add: par)
      then show ?case using root ab(3) leads.step [of ic' a b] by (simp add: par)
    next
      case (step z y)
      then have "z \<noteq> a" using ab(4) by auto
      then show ?case using step leads.step [of ic' z] by (simp add: par)
    qed
    have other: "leads ic z y \<Longrightarrow> y \<noteq> a \<Longrightarrow> leads ic' z y" for z y
    proof (induction rule: leads.induct)
      case (root z)
      then show ?case by (intro leads.root) (simp add: par)
    next
      case (step z y)
      then have "z \<noteq> a" using ab(4) by auto
      then show ?case using step leads.step [of ic' z] by (simp add: par)
    qed
    show "(leads ic x a \<and> y = b) \<or> (leads ic x y \<and> y \<noteq> a) \<Longrightarrow> leads ic' x y"
      using to_b other by blast
  qed
qed

text \<open>A node outside \<open>S\<close> may be attached anywhere.\<close>

lemma attach_ok:
  assumes ok: "uf_ok S ic" and c: "c \<notin> S" "c < length ic"
  shows "uf_ok S (set_parent ic c r)" "x \<in> S \<Longrightarrow> leads (set_parent ic c r) x y \<longleftrightarrow> leads ic x y"
proof -
  let ?ic = "set_parent ic c r"
  have par: "ic_par ?ic z = ic_par ic z" if "z \<in> S" for z using that c by auto
  show ok': "uf_ok S ?ic" using ok par by (simp add: uf_ok_def)
  assume x: "x \<in> S"
  show "leads ?ic x y \<longleftrightarrow> leads ic x y"
  proof
    assume "leads ?ic x y"
    then show "leads ic x y" using x
    proof (induction rule: leads.induct)
      case (root z)
      then show ?case using par leads.root [of ic z] by simp
    next
      case (step z y)
      then show ?case using uf_okD(2) [OF ok] par leads.step [of ic z y] by simp
    qed
  next
    assume "leads ic x y"
    then show "leads ?ic x y" using x
    proof (induction rule: leads.induct)
      case (root z)
      then show ?case using par leads.root [of ?ic z] by simp
    next
      case (step z y)
      then show ?case using uf_okD(2) [OF ok] par leads.step [of ?ic z y] by simp
    qed
  qed
qed

section \<open>Properties\<close>

text \<open>
  C32. The search for a root returns it, with as many steps as there are nodes, and halving the path
  keeps the roots of all nodes.
\<close>

theorem findRoot_returns_root:
  assumes "uf_ok S ic" "r \<in> S" "findRoot (length ic) ic r = (r', ic')"
  shows "leads ic r r' \<and> same_uf S ic ic'"
  by (rule findRoot_length [OF assms])

theorem findRoot_returns_root_witness:
  "leads [\<lparr>ic_parent = 1, ic_size = 1, ic_pos = - 1\<rparr>, \<lparr>ic_parent = 1, ic_size = 2, ic_pos = - 1\<rparr>] 0 1"
proof -
  have "findRoot (length [\<lparr>ic_parent = 1, ic_size = 1, ic_pos = - 1\<rparr>, \<lparr>ic_parent = 1, ic_size = 2, ic_pos = - 1\<rparr>])
      [\<lparr>ic_parent = 1, ic_size = 1, ic_pos = - 1\<rparr>, \<lparr>ic_parent = 1, ic_size = 2, ic_pos = - 1\<rparr>] 0 =
    (1, [\<lparr>ic_parent = 1, ic_size = 1, ic_pos = - 1\<rparr>, \<lparr>ic_parent = 1, ic_size = 2, ic_pos = - 1\<rparr>])"
    by code_simp
  from findRoot_returns_root [OF _ _ this, of "{0, 1}"] show ?thesis by (auto simp: uf_ok_def)
qed

end
