(* ===== verification/CnfManagerDyn.thy ===== *)
theory CnfManagerDyn
  imports CnfManager
begin

text \<open>
  \<^verbatim>\<open>CnfManagerDyn\<close> of \<^verbatim>\<open>src/src/formulaManager/cnf/CnfManagerDyn.cpp\<close>: the formula under the current
  assignment, updated when literals are assigned and restored, by saved counters, when they are
  unassigned; and \<^verbatim>\<open>CnfManagerDynPure\<close>, which also removes clauses by pure literals.

  The generation counters \<^verbatim>\<open>m_currentMarkedLitStackIndex\<close>, \<^verbatim>\<open>m_currentMarkedLitRemoveIndex\<close> and
  \<^verbatim>\<open>m_stampNotSatClauses\<close> are 32-bit in the code and natural numbers here: the model is that of runs
  with fewer than \<open>2 ^ 32\<close> updates.
\<close>

section \<open>State\<close>

record SavedStateOcc =
  so_l :: lit
  so_nbBin :: nat
  so_nbNotBin :: nat

record SavedStateClause =
  sc_idx :: nat
  sc_isSat :: bool
  sc_nbUnsat :: nat

record cnfManagerDyn = cnfManager +
  cm_keepListNotSatisfiedClauses :: bool
  cm_stackSizeListNotSatisfiedClauses :: "nat list"
  cm_markedNotSatClauses :: "nat list"
  cm_stampNotSatClauses :: nat
  cm_notSatisfiedClauses :: "nat list"
  cm_sizeNotSatisfiedClauses :: nat
  cm_currentMarkedLitStackIndex :: nat
  cm_currentMarkedLitRemoveIndex :: nat
  cm_reviewWatcher :: "nat list"
  cm_markedLitStack :: "nat list"
  cm_markedLitRemove :: "nat list"
  cm_indexSatClauses :: "nat list"
  cm_markedClauseIdx :: "bool list"
  cm_savedStateOccs :: "SavedStateOcc list"
  cm_savedStateClauses :: "SavedStateClause list"
  cm_stackPosOcc :: "nat list"
  cm_stackPosClause :: "nat list"

definition initCnfManagerDyn :: "'a problem \<Rightarrow> bool \<Rightarrow> cnfManagerDyn" where
  "initCnfManagerDyn p keepList =
     (let nbCl = length (m_clauses p)
      in cnfManager.extend (initCnfManager p)
           \<lparr>cm_keepListNotSatisfiedClauses = keepList,
            cm_stackSizeListNotSatisfiedClauses = [],
            cm_markedNotSatClauses = (if keepList then replicate (nbCl + 1) 0 else []),
            cm_stampNotSatClauses = 0,
            cm_notSatisfiedClauses = (if keepList then [0 ..< nbCl] else []),
            cm_sizeNotSatisfiedClauses = (if keepList then nbCl else 0),
            cm_currentMarkedLitStackIndex = 0, cm_currentMarkedLitRemoveIndex = 0,
            cm_reviewWatcher = [],
            cm_markedLitStack = replicate (push_bit 1 (1 + m_nbVar p)) 0,
            cm_markedLitRemove = replicate (push_bit 1 (1 + m_nbVar p)) 0,
            cm_indexSatClauses = [], cm_markedClauseIdx = replicate (nbCl + 1) False,
            cm_savedStateOccs = [], cm_savedStateClauses = [],
            cm_stackPosOcc = [], cm_stackPosClause = []\<rparr>)"

section \<open>Reading the current clauses\<close>

definition markComponent :: "bool \<Rightarrow> 'z cnfManagerDyn_scheme \<Rightarrow> var list \<Rightarrow> 'z cnfManagerDyn_scheme" where
  "markComponent b f vs =
     f\<lparr>cm_inCurrentComponent := foldl (\<lambda>m v. m[v := b]) (cm_inCurrentComponent f) vs\<rparr>"

definition getCurrentClauses ::
  "'z cnfManagerDyn_scheme \<Rightarrow> var list \<Rightarrow> nat list \<times> 'z cnfManagerDyn_scheme" where
  "getCurrentClauses f cmpt =
     (let f1 = markComponent True f cmpt;
          idxClauses = filter (\<lambda>i. isNotSatisfiedClauseAndInComponent f1 i (cm_inCurrentComponent f1))
                         [0 ..< length (cm_clauses f1)]
      in (idxClauses, markComponent False f1 cmpt))"

definition getCurrentClausesNotBin ::
  "'z cnfManagerDyn_scheme \<Rightarrow> var list \<Rightarrow> nat list \<times> 'z cnfManagerDyn_scheme" where
  "getCurrentClausesNotBin f cmpt =
     (let f1 = markComponent True f cmpt;
          idxClauses = filter (\<lambda>idx. length (cm_clauses f1 ! idx) > 2
                           \<and> cm_inCurrentComponent f1 ! var (cm_clauses f1 ! idx ! 0))
                         (take (cm_sizeNotSatisfiedClauses f1) (cm_notSatisfiedClauses f1))
      in (sort idxClauses, markComponent False f1 cmpt))"

section \<open>Assigning literals\<close>

definition pushStacks :: "'z cnfManagerDyn_scheme \<Rightarrow> 'z cnfManagerDyn_scheme" where
  "pushStacks f = f\<lparr>cm_stackPosClause := cm_stackPosClause f @ [length (cm_savedStateClauses f)],
     cm_stackPosOcc := cm_stackPosOcc f @ [length (cm_savedStateOccs f)],
     cm_currentMarkedLitStackIndex := cm_currentMarkedLitStackIndex f + 1\<rparr>"

definition unmarkLastClausesSaved :: "'z cnfManagerDyn_scheme \<Rightarrow> 'z cnfManagerDyn_scheme" where
  "unmarkLastClausesSaved f = f\<lparr>cm_markedClauseIdx :=
     foldl (\<lambda>mk sc. mk[sc_idx sc := False]) (cm_markedClauseIdx f)
       (drop (last (cm_stackPosClause f)) (cm_savedStateClauses f))\<rparr>"

text \<open>Save the state of a clause or of an occurrence list, once per level.\<close>

definition saveClause :: "nat \<Rightarrow> bool \<Rightarrow> 'z cnfManagerDyn_scheme \<Rightarrow> 'z cnfManagerDyn_scheme" where
  "saveClause idx wasSat f =
     (if cm_markedClauseIdx f ! idx then f
      else f\<lparr>cm_markedClauseIdx := (cm_markedClauseIdx f)[idx := True],
             cm_savedStateClauses := cm_savedStateClauses f @
               [\<lparr>sc_idx = idx, sc_isSat = wasSat, sc_nbUnsat = nbUnsat (cm_infoClauses f ! idx)\<rparr>]\<rparr>)"

definition saveOcc :: "lit \<Rightarrow> 'z cnfManagerDyn_scheme \<Rightarrow> 'z cnfManagerDyn_scheme" where
  "saveOcc l f =
     (if cm_markedLitStack f ! intern l = cm_currentMarkedLitStackIndex f then f
      else f\<lparr>cm_savedStateOccs := cm_savedStateOccs f @
               [\<lparr>so_l = l, so_nbBin = nbBin (occ_of f l), so_nbNotBin = nbNotBin (occ_of f l)\<rparr>],
             cm_markedLitStack := (cm_markedLitStack f)[intern l := cm_currentMarkedLitStackIndex f]\<rparr>)"

definition set_occ :: "lit \<Rightarrow> DataOccurrence \<Rightarrow> 'z cnfManagerDyn_scheme \<Rightarrow> 'z cnfManagerDyn_scheme" where
  "set_occ l oc f = f\<lparr>cm_occurrence := (cm_occurrence f)[intern l := oc]\<rparr>"

text \<open>\<^verbatim>\<open>removeSatisfiedClauses\<close>: every literal of a satisfied clause has its lists cleaned once.\<close>

definition removeFromLit :: "lit \<Rightarrow> 'z cnfManagerDyn_scheme \<Rightarrow> 'z cnfManagerDyn_scheme" where
  "removeFromLit ll f0 =
     (let f = saveOcc ll f0
      in if cm_markedLitRemove f ! intern ll \<noteq> cm_currentMarkedLitRemoveIndex f
         then let f1 = f\<lparr>cm_markedLitRemove :=
                          (cm_markedLitRemove f)[intern ll := cm_currentMarkedLitRemoveIndex f]\<rparr>;
                  f2 = set_occ ll (removeSatisfiedNotBin (cm_infoClauses f1) (occ_of f1 ll)) f1
              in set_occ ll (removeSatisfiedBin (cm_infoClauses f2) (occ_of f2 ll)) f2
         else f)"

function dropMarked_loop :: "nat list \<Rightarrow> nat \<Rightarrow> nat list \<Rightarrow> nat \<Rightarrow> nat \<Rightarrow> nat list \<times> nat" where
  "dropMarked_loop marked stamp cls i n =
     (if n \<le> i then (cls, n)
      else if marked ! (cls ! i) = stamp
      then dropMarked_loop marked stamp (swap_at cls i (n - 1)) i (n - 1)
      else dropMarked_loop marked stamp cls (i + 1) n)"
  by pat_completeness auto
termination by (relation "measure (\<lambda>(marked, stamp, cls, i, n). n - i)") auto

declare dropMarked_loop.simps [simp del]

definition updateNotSatisfied :: "nat list \<Rightarrow> 'z cnfManagerDyn_scheme \<Rightarrow> 'z cnfManagerDyn_scheme" where
  "updateNotSatisfied idxClauses f =
     (if cm_keepListNotSatisfiedClauses f
      then let stamp = cm_stampNotSatClauses f + 1;
               marked = foldl (\<lambda>mk idx. mk[idx := stamp]) (cm_markedNotSatClauses f) idxClauses;
               (cls, n) = dropMarked_loop marked stamp (cm_notSatisfiedClauses f) 0
                            (cm_sizeNotSatisfiedClauses f)
           in f\<lparr>cm_stackSizeListNotSatisfiedClauses :=
                  cm_stackSizeListNotSatisfiedClauses f @ [cm_sizeNotSatisfiedClauses f],
                cm_stampNotSatClauses := stamp, cm_markedNotSatClauses := marked,
                cm_notSatisfiedClauses := cls, cm_sizeNotSatisfiedClauses := n\<rparr>
      else f)"

definition removeSatisfiedClauses :: "nat list \<Rightarrow> 'z cnfManagerDyn_scheme \<Rightarrow> 'z cnfManagerDyn_scheme" where
  "removeSatisfiedClauses idxClauses f0 =
     (let f = f0\<lparr>cm_currentMarkedLitRemoveIndex := cm_currentMarkedLitRemoveIndex f0 + 1\<rparr>
      in updateNotSatisfied idxClauses
           (fold (\<lambda>idxCl f. fold removeFromLit (cm_clauses f ! idxCl) f) idxClauses f))"

definition satisfyClause :: "nat \<Rightarrow> 'z cnfManagerDyn_scheme \<Rightarrow> 'z cnfManagerDyn_scheme" where
  "satisfyClause idx f =
     (if isSat (cm_infoClauses f ! idx) then f
      else saveClause idx False
             (f\<lparr>cm_infoClauses := (cm_infoClauses f)[idx := (cm_infoClauses f ! idx)\<lparr>isSat := True\<rparr>],
                cm_indexSatClauses := cm_indexSatClauses f @ [idx]\<rparr>))"

definition satisfyLit :: "lit \<Rightarrow> 'z cnfManagerDyn_scheme \<Rightarrow> 'z cnfManagerDyn_scheme" where
  "satisfyLit l f0 =
     (let f1 = fold satisfyClause (getVecIdxClause f0 l) f0;
          f2 = saveOcc l f1
      in set_occ l (clean (occ_of f2 l)) f2)"

definition propagateTrue :: "lit list \<Rightarrow> 'z cnfManagerDyn_scheme \<Rightarrow> 'z cnfManagerDyn_scheme" where
  "propagateTrue lits f0 =
     (let f = fold satisfyLit lits (f0\<lparr>cm_indexSatClauses := []\<rparr>)
      in removeSatisfiedClauses (cm_indexSatClauses f) f)"

definition falsifyInClause :: "lit \<Rightarrow> nat \<Rightarrow> 'z cnfManagerDyn_scheme \<Rightarrow> 'z cnfManagerDyn_scheme" where
  "falsifyInClause l idxCl f0 =
     (let f = saveClause idxCl (isSat (cm_infoClauses f0 ! idxCl)) f0;
          info = cm_infoClauses f ! idxCl
      in f\<lparr>cm_infoClauses := (cm_infoClauses f)[idxCl := info\<lparr>nbUnsat := nbUnsat info + 1\<rparr>],
           cm_reviewWatcher :=
             (if cm_clauses f ! idxCl ! 0 = neg l then cm_reviewWatcher f @ [idxCl] else cm_reviewWatcher f)\<rparr>)"

text \<open>Search the position of an unassigned literal from position \<open>i\<close> on.\<close>

fun findUnassigned :: "lbool list \<Rightarrow> clause \<Rightarrow> nat \<Rightarrow> nat option" where
  "findUnassigned val [] i = None"
| "findUnassigned val (l # cl) i =
     (if val ! var l = l_Undef then Some i else findUnassigned val cl (i + 1))"

definition reviewClause :: "nat \<Rightarrow> 'z cnfManagerDyn_scheme \<Rightarrow> 'z cnfManagerDyn_scheme" where
  "reviewClause idxCl f =
     (if isSat (cm_infoClauses f ! idxCl) then f
      else case findUnassigned (cm_currentValue f) (drop 1 (cm_clauses f ! idxCl)) 1 of
             None \<Rightarrow> f
           | Some i \<Rightarrow> f\<lparr>cm_clauses := (cm_clauses f)[idxCl := swap_at (cm_clauses f ! idxCl) 0 i]\<rparr>)"

definition propagateFalseInNotBin :: "lit list \<Rightarrow> 'z cnfManagerDyn_scheme \<Rightarrow> 'z cnfManagerDyn_scheme" where
  "propagateFalseInNotBin lits f0 =
     (let f = fold (\<lambda>l f. fold (falsifyInClause l) (getVecIdxClauseNotBin f (neg l)) f) lits
                (f0\<lparr>cm_reviewWatcher := []\<rparr>)
      in fold reviewClause (cm_reviewWatcher f) f)"

definition cnf_preUpdate ::
  "(lit list \<Rightarrow> 'z cnfManagerDyn_scheme \<Rightarrow> lit list \<times> 'z cnfManagerDyn_scheme)
     \<Rightarrow> 'z cnfManagerDyn_scheme \<Rightarrow> lit list \<Rightarrow> lit list \<times> 'z cnfManagerDyn_scheme" where
  "cnf_preUpdate inprocessing f lits =
     (let f1 = assignListLit lits (pushStacks f);
          f2 = propagateTrue lits f1;
          f3 = propagateFalseInNotBin lits f2;
          (lits', f4) = inprocessing lits f3
      in (lits', unmarkLastClausesSaved f4))"

section \<open>Unassigning literals\<close>

definition restoreOcc :: "SavedStateOcc \<Rightarrow> DataOccurrence \<Rightarrow> DataOccurrence" where
  "restoreOcc so oc =
     oc\<lparr>nbNotBin := so_nbNotBin so, bin := bin oc - (so_nbBin so - nbBin oc), nbBin := so_nbBin so\<rparr>"

definition restoreOccs :: "SavedStateOcc list \<Rightarrow> DataOccurrence list \<Rightarrow> DataOccurrence list" where
  "restoreOccs sos occs =
     foldl (\<lambda>occs so. occs[intern (so_l so) := restoreOcc so (occs ! intern (so_l so))]) occs sos"

definition restoreInfos :: "SavedStateClause list \<Rightarrow> ClauseInfo list \<Rightarrow> ClauseInfo list" where
  "restoreInfos scs infos =
     foldl (\<lambda>infos sc. infos[sc_idx sc :=
        (infos ! sc_idx sc)\<lparr>isSat := sc_isSat sc, nbUnsat := sc_nbUnsat sc\<rparr>]) infos scs"

definition cnf_postUpdate :: "'z cnfManagerDyn_scheme \<Rightarrow> lit list \<Rightarrow> 'z cnfManagerDyn_scheme" where
  "cnf_postUpdate f lits =
     (let previousOcc = last (cm_stackPosOcc f);
          previousClause = last (cm_stackPosClause f);
          f1 = f\<lparr>cm_occurrence := restoreOccs (drop previousOcc (cm_savedStateOccs f)) (cm_occurrence f),
                 cm_stackPosOcc := butlast (cm_stackPosOcc f),
                 cm_savedStateOccs := take previousOcc (cm_savedStateOccs f),
                 cm_infoClauses := restoreInfos (drop previousClause (cm_savedStateClauses f)) (cm_infoClauses f),
                 cm_stackPosClause := butlast (cm_stackPosClause f),
                 cm_savedStateClauses := take previousClause (cm_savedStateClauses f),
                 cm_currentValue := foldl (\<lambda>val l. val[var l := l_Undef]) (cm_currentValue f) lits\<rparr>
      in if cm_keepListNotSatisfiedClauses f1
         then f1\<lparr>cm_sizeNotSatisfiedClauses := last (cm_stackSizeListNotSatisfiedClauses f1),
                 cm_stackSizeListNotSatisfiedClauses := butlast (cm_stackSizeListNotSatisfiedClauses f1)\<rparr>
         else f1)"

section \<open>The formula manager interface\<close>

definition noInprocessing :: "lit list \<Rightarrow> 'f \<Rightarrow> lit list \<times> 'f" where
  "noInprocessing lits f = (lits, f)"

definition cnfManagerDyn_fm :: "cnfManagerDyn fm_if" where
  "cnfManagerDyn_fm =
     \<lparr>fm_preUpdate = cnf_preUpdate noInprocessing, fm_postUpdate = cnf_postUpdate,
      fm_components = cnf_computeConnectedComponent,
      fm_trivialComponents = \<lambda>f vs. (computeTrivialConnectedComponent f vs, f),
      fm_varIsAssigned = varIsAssigned\<rparr>"

end
