(* ===== verification/CnfOcc.thy ===== *)
theory CnfOcc
  imports CnfManagerDyn
begin

text \<open>
  The occurrence lists. A block of memory is cut in four: what was given up in front, the binary
  clauses, the other clauses, and what was given up behind (\<open>occ_is\<close>). Removing satisfied clauses
  moves them out of the two middle parts, to where restoring the counters finds them again.
\<close>

section \<open>Segments\<close>

definition occ_is :: "DataOccurrence \<Rightarrow> nat list \<Rightarrow> nat list \<Rightarrow> nat list \<Rightarrow> nat list \<Rightarrow> bool" where
  "occ_is oc A B N Z \<longleftrightarrow> occ_mem oc = A @ B @ N @ Z \<and> bin oc = length A
     \<and> notBin oc = length A + length B \<and> nbNotBin oc = length N \<and> nbBin oc = length B"

lemma occ_is_reads:
  assumes "occ_is oc A B N Z"
  shows "getBinClauses oc = B" "getNotBinClauses oc = N" "occ_getClauses oc = B @ N"
    "nbBin oc = length B" "nbNotBin oc = length N" "occ_size oc = length N + length B"
proof -
  have f: "occ_mem oc = A @ B @ N @ Z" "bin oc = length A" "notBin oc = length A + length B"
    "nbNotBin oc = length N" "nbBin oc = length B"
    using assms unfolding occ_is_def by blast+
  have d: "drop (length A) (A @ B @ N @ Z) = B @ N @ Z"
    "drop (length A + length B) (A @ B @ N @ Z) = N @ Z" by simp_all
  show "getBinClauses oc = B" unfolding getBinClauses_def f d by simp
  show "getNotBinClauses oc = N" unfolding getNotBinClauses_def f d by simp
  show "occ_getClauses oc = B @ N" unfolding occ_getClauses_def f d by simp
  show "nbBin oc = length B" "nbNotBin oc = length N" by (fact f)+
  show "occ_size oc = length N + length B" unfolding occ_size_def f ..
qed

definition loses :: "(nat \<Rightarrow> bool) \<Rightarrow> DataOccurrence \<Rightarrow> DataOccurrence \<Rightarrow> bool" where
  "loses S oc oc' \<longleftrightarrow> (\<exists>A B N Z A' B' N' Z'. occ_is oc A B N Z \<and> occ_is oc' (A @ A') B' N' (Z' @ Z)
     \<and> mset B = mset (A' @ B') \<and> mset N = mset (N' @ Z') \<and> (\<forall>i\<in>set A' \<union> set Z'. S i))"

lemma occ_is_unique:
  assumes "occ_is oc A B N Z" "occ_is oc A1 B1 N1 Z1"
  shows "A = A1" "B = B1" "N = N1" "Z = Z1"
  using assms by (auto simp: occ_is_def)

lemma loses_refl:
  assumes "occ_is oc A B N Z"
  shows "loses S oc oc"
proof -
  have "occ_is oc (A @ []) B N ([] @ Z)" "mset B = mset ([] @ B)" "mset N = mset (N @ [])"
    "\<forall>i\<in>set [] \<union> set []. S i" using assms by simp_all
  with assms show ?thesis unfolding loses_def by blast
qed

lemma loses_trans:
  assumes "loses S o1 o2" "loses S o2 o3"
  shows "loses S o1 o3"
proof -
  obtain A B N Z A' B' N' Z' where 1: "occ_is o1 A B N Z" "occ_is o2 (A @ A') B' N' (Z' @ Z)"
    "mset B = mset (A' @ B')" "mset N = mset (N' @ Z')" "\<forall>i\<in>set A' \<union> set Z'. S i"
    using assms(1) unfolding loses_def by blast
  obtain C D M Y C' D' M' Y' where 2: "occ_is o2 C D M Y" "occ_is o3 (C @ C') D' M' (Y' @ Y)"
    "mset D = mset (C' @ D')" "mset M = mset (M' @ Y')" "\<forall>i\<in>set C' \<union> set Y'. S i"
    using assms(2) unfolding loses_def by blast
  note u = occ_is_unique [OF 1(2) 2(1)]
  have "occ_is o3 (A @ (A' @ C')) D' M' ((Y' @ Z') @ Z)" using 2(2) by (simp add: u [symmetric])
  moreover have "mset B = mset ((A' @ C') @ D')" "mset N = mset (M' @ (Y' @ Z'))"
    using 1(3,4) 2(3,4) by (simp_all add: u add.assoc)
  moreover have "\<forall>i\<in>set (A' @ C') \<union> set (Y' @ Z'). S i" using 1(5) 2(5) by auto
  ultimately show ?thesis unfolding loses_def using 1(1) by blast
qed

text \<open>What is left when no satisfied clause is left.\<close>

lemma loses_filter:
  assumes "loses S oc oc'" "occ_is oc A B N Z" "occ_is oc' A1 B1 N1 Z1" "\<forall>i\<in>set B1 \<union> set N1. \<not> S i"
  shows "mset B1 = mset (filter (\<lambda>i. \<not> S i) B)" "mset N1 = mset (filter (\<lambda>i. \<not> S i) N)"
proof -
  obtain A' Z' where l: "A1 = A @ A'" "Z1 = Z' @ Z" "mset B = mset (A' @ B1)" "mset N = mset (N1 @ Z')"
    "\<forall>i\<in>set A' \<union> set Z'. S i"
    using assms(1-3) unfolding loses_def by (metis occ_is_unique)
  have f: "mset (filter Q xs) = filter_mset Q (mset xs)" for Q and xs :: "nat list" by simp
  have "filter (\<lambda>i. \<not> S i) A' = []" "filter (\<lambda>i. \<not> S i) Z' = []" using l(5) by (auto simp: filter_empty_conv)
  moreover have "filter (\<lambda>i. \<not> S i) B1 = B1" "filter (\<lambda>i. \<not> S i) N1 = N1"
    using assms(4) by (auto simp: filter_id_conv)
  ultimately show "mset B1 = mset (filter (\<lambda>i. \<not> S i) B)" "mset N1 = mset (filter (\<lambda>i. \<not> S i) N)"
    unfolding f l(3,4) unfolding f [symmetric] by simp_all
qed

lemma loses_subset:
  assumes "loses S oc oc'" "occ_is oc A B N Z" "occ_is oc' A1 B1 N1 Z1"
  shows "set B1 \<subseteq> set B" "set N1 \<subseteq> set N"
proof -
  obtain A' Z' where l: "mset B = mset (A' @ B1)" "mset N = mset (N1 @ Z')"
    using assms unfolding loses_def by (metis occ_is_unique)
  then show "set B1 \<subseteq> set B" "set N1 \<subseteq> set N" by (metis set_append set_mset_mset sup_ge1 sup_ge2)+
qed

text \<open>Restoring the saved counters undoes the loss, up to the order.\<close>

lemma restore_loses:
  assumes "loses S oc oc'" "so_nbBin so = nbBin oc" "so_nbNotBin so = nbNotBin oc"
  shows "\<exists>A B N Z B' N'. occ_is oc A B N Z \<and> occ_is (restoreOcc so oc') A B' N' Z
    \<and> mset B' = mset B \<and> mset N' = mset N"
proof -
  obtain A B N Z A' B' N' Z' where 1: "occ_is oc A B N Z" "occ_is oc' (A @ A') B' N' (Z' @ Z)"
    "mset B = mset (A' @ B')" "mset N = mset (N' @ Z')"
    using assms(1) unfolding loses_def by blast
  have len: "length B = length A' + length B'" "length N = length N' + length Z'"
    using 1(3,4) by (metis length_append mset_eq_length)+
  have "occ_is (restoreOcc so oc') A (A' @ B') (N' @ Z') Z"
    using 1(1,2) len assms(2,3) by (auto simp: occ_is_def restoreOcc_def)
  moreover have "mset (A' @ B') = mset B" "mset (N' @ Z') = mset N" using 1(3,4) by simp_all
  ultimately show ?thesis using 1(1) by blast
qed

section \<open>Removing the satisfied clauses\<close>

lemma swap_at_ends:
  "swap_at (P @ u # M @ x # Q) (length P + Suc (length M)) (length P) = P @ x # M @ u # Q"
proof -
  have "(P @ u # M @ x # Q) ! (length P + Suc (length M)) = x" "(P @ u # M @ x # Q) ! length P = u"
    by (simp_all add: nth_append)
  then show ?thesis by (simp add: swap_at_def list_update_append)
qed

lemma swap_at_ends':
  "swap_at (P @ u # M @ x # Q) (length P) (length P + Suc (length M)) = P @ x # M @ u # Q"
proof -
  have "(P @ u # M @ x # Q) ! (length P + Suc (length M)) = x" "(P @ u # M @ x # Q) ! length P = u"
    by (simp_all add: nth_append)
  then show ?thesis by (simp add: swap_at_def list_update_append)
qed

lemma swap_at_same [simp]: "swap_at xs i i = xs"
  by (simp add: swap_at_def)

lemma removeSatisfiedBin_loop_ok:
  assumes "length U = k" "\<forall>i\<in>set X. isSat (info ! i)" "\<forall>i\<in>set R. \<not> isSat (info ! i)"
  shows "\<exists>X' R'. removeSatisfiedBin_loop info (A @ X @ U @ R @ Z) (length A + length X)
        (length A + length X + length U) = (A @ X' @ R' @ Z, length A + length X')
      \<and> mset (X' @ R') = mset (X @ U @ R)
      \<and> (\<forall>i\<in>set X'. isSat (info ! i)) \<and> (\<forall>i\<in>set R'. \<not> isSat (info ! i))"
  using assms
proof (induction k arbitrary: U X R)
  case 0
  have "removeSatisfiedBin_loop info (A @ X @ R @ Z) (length A + length X) (length A + length X)
      = (A @ X @ R @ Z, length A + length X)" by (subst removeSatisfiedBin_loop.simps) simp
  moreover have "U = []" using 0 by simp
  ultimately show ?case using 0 by auto
next
  case (Suc k)
  from Suc.prems(1) obtain M x where U: "U = M @ [x]" by (cases U rule: rev_cases) auto
  have nth: "(A @ X @ U @ R @ Z) ! (length A + length X + length U - 1) = x"
    by (simp add: U nth_append)
  show ?case
  proof (cases "isSat (info ! x)")
    case False
    have "removeSatisfiedBin_loop info (A @ X @ U @ R @ Z) (length A + length X) (length A + length X + length U)
        = removeSatisfiedBin_loop info (A @ X @ M @ (x # R) @ Z) (length A + length X) (length A + length X + length M)"
      using False nth by (subst removeSatisfiedBin_loop.simps) (simp add: U)
    moreover have "length M = k" "\<forall>i\<in>set (x # R). \<not> isSat (info ! i)" using Suc.prems U False by auto
    ultimately show ?thesis using Suc.IH [of M X "x # R"] Suc.prems(2) by (simp add: U)
  next
    case True
    obtain M' where sw: "swap_at (A @ X @ U @ R @ Z) (length A + length X + length U - 1) (length A + length X)
        = A @ (X @ [x]) @ M' @ R @ Z" "mset M' = mset M" "length M' = length M"
    proof (cases M)
      case Nil
      then show ?thesis using that [of "[]"] U by simp
    next
      case (Cons u M1)
      have "swap_at ((A @ X) @ u # M1 @ x # R @ Z) (length (A @ X) + Suc (length M1)) (length (A @ X))
          = (A @ X) @ x # M1 @ u # R @ Z" by (rule swap_at_ends)
      then show ?thesis using that [of "M1 @ [u]"] U Cons by simp
    qed
    have "removeSatisfiedBin_loop info (A @ X @ U @ R @ Z) (length A + length X) (length A + length X + length U)
        = removeSatisfiedBin_loop info (A @ (X @ [x]) @ M' @ R @ Z) (length A + length (X @ [x]))
            (length A + length (X @ [x]) + length M')"
      using True nth sw by (subst removeSatisfiedBin_loop.simps) (simp add: U)
    moreover have "length M' = k" "\<forall>i\<in>set (X @ [x]). isSat (info ! i)" using Suc.prems U True sw(3) by auto
    ultimately show ?thesis using Suc.IH [of M' "X @ [x]" R] Suc.prems(3) sw(2) by (simp add: U)
  qed
qed

lemma removeSatisfiedBin_ok:
  assumes oc: "occ_is oc A B N Z"
  shows "\<exists>A' B'. occ_is (removeSatisfiedBin info oc) (A @ A') B' N Z \<and> mset B = mset (A' @ B')
    \<and> (\<forall>i\<in>set A'. isSat (info ! i)) \<and> (\<forall>i\<in>set B'. \<not> isSat (info ! i))"
proof (cases "nbBin oc = 0")
  case True
  then have "B = []" "removeSatisfiedBin info oc = oc" using oc by (auto simp: removeSatisfiedBin_def occ_is_def)
  with oc show ?thesis by (intro exI [of _ "[]"]) simp
next
  case False
  obtain X R where l: "removeSatisfiedBin_loop info (A @ B @ N @ Z) (length A) (length A + length B)
      = (A @ X @ R @ N @ Z, length A + length X)" "mset (X @ R) = mset B"
    "\<forall>i\<in>set X. isSat (info ! i)" "\<forall>i\<in>set R. \<not> isSat (info ! i)"
    using removeSatisfiedBin_loop_ok [of B _ "[]" info "[]" A "N @ Z"] by auto
  have len: "length B = length X + length R" using l(2) by (metis length_append mset_eq_length)
  have "occ_is (removeSatisfiedBin info oc) (A @ X) R N Z"
    using oc False l(1) len unfolding removeSatisfiedBin_def occ_is_def by (auto simp: Let_def)
  with l show ?thesis by (intro exI [of _ X] exI [of _ R]) simp
qed

lemma removeSatisfiedNotBin_loop_ok:
  assumes "length U = k" "\<forall>i\<in>set R. \<not> isSat (info ! i)" "\<forall>i\<in>set X. isSat (info ! i)"
  shows "\<exists>X' R'. removeSatisfiedNotBin_loop info (A @ R @ U @ X @ Z) (length A) (length R)
        (length R + length U) = (A @ R' @ X' @ Z, length R')
      \<and> mset (R' @ X') = mset (R @ U @ X)
      \<and> (\<forall>i\<in>set X'. isSat (info ! i)) \<and> (\<forall>i\<in>set R'. \<not> isSat (info ! i))"
  using assms
proof (induction k arbitrary: U X R)
  case 0
  have "removeSatisfiedNotBin_loop info (A @ R @ X @ Z) (length A) (length R) (length R)
      = (A @ R @ X @ Z, length R)" by (subst removeSatisfiedNotBin_loop.simps) simp
  moreover have "U = []" using 0 by simp
  ultimately show ?case using 0 by auto
next
  case (Suc k)
  from Suc.prems(1) obtain u M where U: "U = u # M" by (cases U) auto
  have nth: "(A @ R @ U @ X @ Z) ! (length A + length R) = u" by (simp add: U nth_append)
  show ?case
  proof (cases "isSat (info ! u)")
    case False
    have "removeSatisfiedNotBin_loop info (A @ R @ U @ X @ Z) (length A) (length R) (length R + length U)
        = removeSatisfiedNotBin_loop info (A @ (R @ [u]) @ M @ X @ Z) (length A) (length (R @ [u]))
            (length (R @ [u]) + length M)"
      using False nth by (subst removeSatisfiedNotBin_loop.simps) (simp add: U)
    moreover have "length M = k" "\<forall>i\<in>set (R @ [u]). \<not> isSat (info ! i)" using Suc.prems U False by auto
    ultimately show ?thesis using Suc.IH [of M "R @ [u]" X] Suc.prems(3) by (simp add: U)
  next
    case True
    obtain M' where sw: "swap_at (A @ R @ U @ X @ Z) (length A + length R) (length A + (length R + length U - 1))
        = A @ R @ M' @ (u # X) @ Z" "mset M' = mset M" "length M' = length M"
    proof (cases M rule: rev_cases)
      case Nil
      then show ?thesis using that [of "[]"] U by simp
    next
      case (snoc M1 x)
      have "swap_at ((A @ R) @ u # M1 @ x # X @ Z) (length (A @ R)) (length (A @ R) + Suc (length M1))
          = (A @ R) @ x # M1 @ u # X @ Z" by (rule swap_at_ends')
      then show ?thesis using that [of "x # M1"] U snoc by (simp add: add.assoc)
    qed
    have "removeSatisfiedNotBin_loop info (A @ R @ U @ X @ Z) (length A) (length R) (length R + length U)
        = removeSatisfiedNotBin_loop info (A @ R @ M' @ (u # X) @ Z) (length A) (length R) (length R + length M')"
      using True nth sw by (subst removeSatisfiedNotBin_loop.simps) (simp add: U)
    moreover have "length M' = k" "\<forall>i\<in>set (u # X). isSat (info ! i)" using Suc.prems U True sw(3) by auto
    ultimately show ?thesis using Suc.IH [of M' R "u # X"] Suc.prems(2) sw(2) by (simp add: U)
  qed
qed

lemma removeSatisfiedNotBin_ok:
  assumes oc: "occ_is oc A B N Z"
  shows "\<exists>N' Z'. occ_is (removeSatisfiedNotBin info oc) A B N' (Z' @ Z) \<and> mset N = mset (N' @ Z')
    \<and> (\<forall>i\<in>set Z'. isSat (info ! i)) \<and> (\<forall>i\<in>set N'. \<not> isSat (info ! i))"
proof -
  obtain X R where l: "removeSatisfiedNotBin_loop info (A @ B @ N @ Z) (length A + length B) 0 (length N)
      = (A @ B @ R @ X @ Z, length R)" "mset (R @ X) = mset N"
    "\<forall>i\<in>set X. isSat (info ! i)" "\<forall>i\<in>set R. \<not> isSat (info ! i)"
    using removeSatisfiedNotBin_loop_ok [of N _ "[]" info "[]" "A @ B" Z] by auto
  have "occ_is (removeSatisfiedNotBin info oc) A B R (X @ Z)"
    using oc l(1) by (simp add: removeSatisfiedNotBin_def occ_is_def)
  with l show ?thesis by (intro exI [of _ R] exI [of _ X]) simp
qed

definition occ_clear :: "(nat \<Rightarrow> bool) \<Rightarrow> DataOccurrence \<Rightarrow> bool" where
  "occ_clear S oc \<longleftrightarrow> (\<forall>i\<in>set (occ_getClauses oc). \<not> S i)"

lemma remove_loses:
  assumes oc: "occ_is oc A B N Z"
  shows "loses (\<lambda>i. isSat (info ! i)) oc (removeSatisfiedBin info (removeSatisfiedNotBin info oc))
    \<and> occ_clear (\<lambda>i. isSat (info ! i)) (removeSatisfiedBin info (removeSatisfiedNotBin info oc))"
proof -
  obtain N' Z' where n: "occ_is (removeSatisfiedNotBin info oc) A B N' (Z' @ Z)" "mset N = mset (N' @ Z')"
    "\<forall>i\<in>set Z'. isSat (info ! i)" "\<forall>i\<in>set N'. \<not> isSat (info ! i)"
    using removeSatisfiedNotBin_ok [OF oc] by blast
  obtain A' B' where b: "occ_is (removeSatisfiedBin info (removeSatisfiedNotBin info oc)) (A @ A') B' N' (Z' @ Z)"
    "mset B = mset (A' @ B')" "\<forall>i\<in>set A'. isSat (info ! i)" "\<forall>i\<in>set B'. \<not> isSat (info ! i)"
    using removeSatisfiedBin_ok [OF n(1)] by blast
  have "loses (\<lambda>i. isSat (info ! i)) oc (removeSatisfiedBin info (removeSatisfiedNotBin info oc))"
    unfolding loses_def using oc b n by blast
  moreover have "occ_clear (\<lambda>i. isSat (info ! i)) (removeSatisfiedBin info (removeSatisfiedNotBin info oc))"
    unfolding occ_clear_def occ_is_reads(3) [OF b(1)] using b(4) n(4) by auto
  ultimately show ?thesis by blast
qed

lemma clean_loses:
  assumes oc: "occ_is oc A B N Z" and S: "\<forall>i\<in>set (occ_getClauses oc). S i"
  shows "loses S oc (clean oc) \<and> occ_clear S (clean oc)"
proof -
  have c: "occ_is (clean oc) (A @ B) [] [] (N @ Z)"
    using oc by (simp add: occ_is_def clean_def cleanBin_def cleanNotBin_def)
  have "\<forall>i\<in>set B \<union> set N. S i" using S unfolding occ_is_reads(3) [OF oc] by auto
  then have "loses S oc (clean oc)"
  proof -
    have "mset B = mset (B @ [])" "mset N = mset ([] @ N)" by simp_all
    with oc c \<open>\<forall>i\<in>set B \<union> set N. S i\<close> show ?thesis unfolding loses_def by blast
  qed
  then show ?thesis using occ_is_reads(3) [OF c] by (simp add: occ_clear_def)
qed

lemma loses_clear:
  assumes "loses S oc oc'" "occ_clear S oc"
  shows "occ_clear S oc'"
proof -
  obtain A B N Z A' B' N' Z' where 1: "occ_is oc A B N Z" "occ_is oc' (A @ A') B' N' (Z' @ Z)"
    using assms(1) unfolding loses_def by blast
  then show ?thesis using loses_subset [OF assms(1) 1] assms(2)
    unfolding occ_clear_def occ_is_reads(3) [OF 1(1)] occ_is_reads(3) [OF 1(2)] by auto
qed

section \<open>The initial lists\<close>

definition occB :: "cnf \<Rightarrow> lit set \<Rightarrow> nat \<Rightarrow> nat list" where
  "occB F T x = filter (\<lambda>i. length (F ! i) = 2 \<and> \<not> sat_by T (F ! i)) (occurrenceIdx F x)"

definition occN :: "cnf \<Rightarrow> lit set \<Rightarrow> nat \<Rightarrow> nat list" where
  "occN F T x = filter (\<lambda>i. length (F ! i) \<noteq> 2 \<and> \<not> sat_by T (F ! i)) (occurrenceIdx F x)"

lemma set_occurrenceIdx: "set (occurrenceIdx F x) = {i. i < length F \<and> (\<exists>l\<in>set (F ! i). intern l = x)}"
  by (auto simp: occurrenceIdx_def set_replicate_conv_if count_list_0_iff image_iff split: if_splits)

lemma distinct_occurrenceIdx:
  assumes "cnf_ok n F"
  shows "distinct (occurrenceIdx F x)"
proof -
  have "count_list (map intern (F ! i)) x \<le> 1" if "i < length F" for i
  proof -
    have "distinct (map var (F ! i))" using assms that by (auto simp: cnf_ok_def clause_ok_def)
    then have "distinct (F ! i)" by (simp add: distinct_map)
    then have "distinct (map intern (F ! i))" by (simp add: distinct_map inj_on_def)
    then show ?thesis by (simp add: distinct_count_atmost_1 count_mset [symmetric])
  qed
  moreover have "distinct (concat (map (\<lambda>k. replicate (c k) k) [0 ..< m]))" if "\<forall>i<m. c i \<le> (1::nat)" for c m
    using that
  proof (induction m)
    case (Suc m)
    have "c m = 0 \<or> c m = 1" using Suc.prems by (auto simp: le_Suc_eq)
    then show ?case using Suc by (auto simp: set_replicate_conv_if)
  qed simp
  ultimately show ?thesis by (simp add: occurrenceIdx_def)
qed

text \<open>The lists do not hold a clause twice.\<close>

lemma distinct_occ: "cnf_ok n F \<Longrightarrow> distinct (occB F T x)" "cnf_ok n F \<Longrightarrow> distinct (occN F T x)"
  by (simp_all add: occB_def occN_def distinct_occurrenceIdx)

lemma loses_mono:
  assumes "loses S oc oc'" "\<And>i. i \<in> set (occ_getClauses oc) \<Longrightarrow> S i \<Longrightarrow> S' i"
  shows "loses S' oc oc'"
proof -
  obtain A B N Z A' B' N' Z' where 1: "occ_is oc A B N Z" "occ_is oc' (A @ A') B' N' (Z' @ Z)"
    "mset B = mset (A' @ B')" "mset N = mset (N' @ Z')" "\<forall>i\<in>set A' \<union> set Z'. S i"
    using assms(1) unfolding loses_def by blast
  have "set A' \<subseteq> set B" "set Z' \<subseteq> set N" using 1(3,4) by (metis set_append set_mset_mset sup_ge1 sup_ge2)+
  then have "\<forall>i\<in>set A' \<union> set Z'. S' i" using assms(2) 1(5) unfolding occ_is_reads(3) [OF 1(1)] by auto
  with 1 show ?thesis unfolding loses_def by blast
qed

lemma loses_clauses_subset: "loses S oc oc' \<Longrightarrow> set (occ_getClauses oc') \<subseteq> set (occ_getClauses oc)"
proof -
  assume l: "loses S oc oc'"
  then obtain A B N Z A' B' N' Z' where 1: "occ_is oc A B N Z" "occ_is oc' (A @ A') B' N' (Z' @ Z)"
    unfolding loses_def by blast
  then show ?thesis using loses_subset [OF l 1] unfolding occ_is_reads(3) [OF 1(1)] occ_is_reads(3) [OF 1(2)] by auto
qed

lemma loses_is: "loses S oc oc' \<Longrightarrow> \<exists>A B N Z. occ_is oc' A B N Z"
  unfolding loses_def by blast

end
