(* ===== verification/CnfInv.thy ===== *)
theory CnfInv
  imports CnfOcc
begin

text \<open>
  The invariant of \<^verbatim>\<open>CnfManagerDyn\<close> for a trail of assigned literals. \<open>core_ok\<close> relates the state
  to the formula and the trail; \<open>cm_inv\<close> adds that undoing the levels of the trail one by one leads
  through good states down to the empty trail. \<open>equiv\<close> relates two states that differ only in the
  order of clauses and literals: it is what a preUpdate followed by its postUpdate leaves.
\<close>

section \<open>The state for a trail\<close>

definition value_of :: "lit set \<Rightarrow> var \<Rightarrow> lbool" where
  "value_of T v = (if makeLit v False \<in> T then l_True else if makeLit v True \<in> T then l_False else l_Undef)"

definition occ_level :: "cnf \<Rightarrow> lit set \<Rightarrow> nat \<Rightarrow> DataOccurrence \<Rightarrow> bool" where
  "occ_level F T x oc \<longleftrightarrow>
     (\<exists>A B N Z. occ_is oc A B N Z \<and> mset B = mset (occB F T x) \<and> mset N = mset (occN F T x))"

definition clauses_ok :: "cnf \<Rightarrow> lit set \<Rightarrow> cnf \<Rightarrow> bool" where
  "clauses_ok F T cls \<longleftrightarrow> length cls = length F \<and> (\<forall>i<length F. mset (cls ! i) = mset (F ! i))
     \<and> (\<forall>i<length F. length (F ! i) \<noteq> 2 \<longrightarrow> \<not> sat_by T (F ! i) \<longrightarrow>
          (\<exists>l\<in>set (F ! i). var l \<notin> var ` T) \<longrightarrow> var (cls ! i ! 0) \<notin> var ` T)"

definition info_ok :: "cnf \<Rightarrow> lit set \<Rightarrow> ClauseInfo list \<Rightarrow> bool" where
  "info_ok F T info \<longleftrightarrow> length info = length F
     \<and> (\<forall>i<length F. isSat (info ! i) = sat_by T (F ! i))
     \<and> (\<forall>i<length F. \<not> sat_by T (F ! i) \<longrightarrow>
          nbUnsat (info ! i) = (if length (F ! i) = 2 then 0 else card {l \<in> set (F ! i). neg l \<in> T}))
     \<and> (\<forall>i<length F. length (F ! i) = 2 \<longrightarrow>
          xorLitBin (info ! i) = intern (F ! i ! 0) XOR intern (F ! i ! 1))"

definition core_ok :: "nat \<Rightarrow> cnf \<Rightarrow> lit set \<Rightarrow> 'z cnfManagerDyn_scheme \<Rightarrow> bool" where
  "core_ok n F T f \<longleftrightarrow> cm_nbVar f = n \<and> length (cm_currentValue f) = n + 1
     \<and> (\<forall>v\<le>n. cm_currentValue f ! v = value_of T v)
     \<and> clauses_ok F T (cm_clauses f) \<and> info_ok F T (cm_infoClauses f)
     \<and> length (cm_occurrence f) = 2 * (n + 1)
     \<and> (\<forall>x<2 * (n + 1). occ_level F T x (cm_occurrence f ! x))
     \<and> \<not> cm_keepListNotSatisfiedClauses f"

definition scratch_ok :: "nat \<Rightarrow> cnf \<Rightarrow> 'z cnfManagerDyn_scheme \<Rightarrow> bool" where
  "scratch_ok n F f \<longleftrightarrow> cm_markedClauseIdx f = replicate (length F + 1) False
     \<and> length (cm_markedLitStack f) = 2 * (n + 1)
     \<and> (\<forall>m\<in>set (cm_markedLitStack f). m \<le> cm_currentMarkedLitStackIndex f)
     \<and> length (cm_markedLitRemove f) = 2 * (n + 1)
     \<and> (\<forall>m\<in>set (cm_markedLitRemove f). m \<le> cm_currentMarkedLitRemoveIndex f)
     \<and> cm_markView f = replicate (length F) False \<and> cm_mustUnMark f = []
     \<and> length (cm_infoCluster f) = n + length F + 1 \<and> (\<forall>c\<in>set (cm_infoCluster f). ic_pos c = - 1)
     \<and> cm_inCurrentComponent f = replicate (n + 1) False \<and> cm_idxComponent f = replicate (n + 1) 0"

definition occ_eq :: "DataOccurrence \<Rightarrow> DataOccurrence \<Rightarrow> bool" where
  "occ_eq o1 o2 \<longleftrightarrow> (\<exists>A B N Z B' N'. occ_is o1 A B N Z \<and> occ_is o2 A B' N' Z
     \<and> mset B = mset B' \<and> mset N = mset N')"

definition same_clauses :: "lbool list \<Rightarrow> cnf \<Rightarrow> cnf \<Rightarrow> bool" where
  "same_clauses val cls cls' \<longleftrightarrow> length cls = length cls' \<and> (\<forall>i<length cls.
     mset (cls ! i) = mset (cls' ! i) \<and> (cls' ! i ! 0 = cls ! i ! 0 \<or> val ! var (cls' ! i ! 0) = l_Undef))"

definition equiv :: "'z cnfManagerDyn_scheme \<Rightarrow> 'z cnfManagerDyn_scheme \<Rightarrow> bool" where
  "equiv f g \<longleftrightarrow> cm_nbVar g = cm_nbVar f \<and> cm_currentValue g = cm_currentValue f
     \<and> cm_infoClauses g = cm_infoClauses f \<and> cm_savedStateOccs g = cm_savedStateOccs f
     \<and> cm_savedStateClauses g = cm_savedStateClauses f \<and> cm_stackPosOcc g = cm_stackPosOcc f
     \<and> cm_stackPosClause g = cm_stackPosClause f
     \<and> cm_keepListNotSatisfiedClauses g = cm_keepListNotSatisfiedClauses f
     \<and> same_clauses (cm_currentValue f) (cm_clauses f) (cm_clauses g)
     \<and> length (cm_occurrence g) = length (cm_occurrence f)
     \<and> (\<forall>x<length (cm_occurrence f). occ_eq (cm_occurrence f ! x) (cm_occurrence g ! x))"

fun cm_inv :: "nat \<Rightarrow> cnf \<Rightarrow> 'z cnfManagerDyn_scheme \<Rightarrow> lit list list \<Rightarrow> bool" where
  "cm_inv n F f [] = core_ok n F {} f"
| "cm_inv n F f (us # stk) =
     (core_ok n F (set us \<union> set (concat stk)) f \<and> cm_inv n F (cnf_postUpdate f us) stk)"

lemma cm_inv_core: "cm_inv n F f stk \<Longrightarrow> core_ok n F (set (concat stk)) f"
  by (cases stk) auto

lemma value_of_Undef: "value_of T v = l_Undef \<longleftrightarrow> v \<notin> var ` T"
proof
  assume "value_of T v = l_Undef"
  then have "makeLit v False \<notin> T" "makeLit v True \<notin> T" by (auto simp: value_of_def split: if_splits)
  then have "makeLit v (sign l) \<notin> T" for l :: lit by (cases "sign l") auto
  then show "v \<notin> var ` T" by (metis imageE makeLit_var_sign)
next
  assume v: "v \<notin> var ` T"
  have "makeLit v b \<notin> T" for b using v by (metis image_eqI var_makeLit)
  then show "value_of T v = l_Undef" by (simp add: value_of_def)
qed

text \<open>The first literal of a permuted clause is one of its literals.\<close>

lemma perm_first:
  assumes "mset c = mset c'" "c' \<noteq> []"
  shows "c ! 0 \<in> set c'"
proof -
  have "c \<noteq> []" using assms by auto
  then have "c ! 0 \<in> set c" by simp
  then show ?thesis using assms(1) by (metis set_mset_mset)
qed

section \<open>Equivalent states\<close>

lemma occ_eq_level:
  assumes "occ_eq o1 o2" "occ_level F T x o1"
  shows "occ_level F T x o2"
proof -
  obtain A B N Z B' N' where 1: "occ_is o1 A B N Z" "occ_is o2 A B' N' Z" "mset B = mset B'" "mset N = mset N'"
    using assms(1) unfolding occ_eq_def by blast
  obtain A1 B1 N1 Z1 where 2: "occ_is o1 A1 B1 N1 Z1" "mset B1 = mset (occB F T x)" "mset N1 = mset (occN F T x)"
    using assms(2) unfolding occ_level_def by blast
  note u = occ_is_unique [OF 1(1) 2(1)]
  have "mset B' = mset (occB F T x)" "mset N' = mset (occN F T x)" using 1(3,4) 2(2,3) u by simp_all
  with 1(2) show ?thesis unfolding occ_level_def by blast
qed

lemma equiv_core:
  assumes c: "core_ok n F T f" and e: "equiv f g" and F: "cnf_ok n F"
  shows "core_ok n F T g"
proof -
  have cl: "clauses_ok F T (cm_clauses f)" and val: "\<forall>v\<le>n. cm_currentValue f ! v = value_of T v"
    using c by (auto simp: core_ok_def)
  have sc: "same_clauses (cm_currentValue f) (cm_clauses f) (cm_clauses g)" using e by (simp add: equiv_def)
  have m: "mset (cm_clauses g ! i) = mset (F ! i)" if "i < length F" for i
    using cl sc that by (simp add: clauses_ok_def same_clauses_def)
  have "var (cm_clauses g ! i ! 0) \<notin> var ` T"
    if i: "i < length F" "length (F ! i) \<noteq> 2" "\<not> sat_by T (F ! i)" "\<exists>l\<in>set (F ! i). var l \<notin> var ` T" for i
  proof (cases "cm_clauses g ! i ! 0 = cm_clauses f ! i ! 0")
    case True
    then show ?thesis using cl i by (simp add: clauses_ok_def)
  next
    case False
    then have "cm_currentValue f ! var (cm_clauses g ! i ! 0) = l_Undef"
      using sc cl i(1) by (auto simp: same_clauses_def clauses_ok_def)
    moreover have "cm_clauses g ! i ! 0 \<in> set (F ! i)"
      by (rule perm_first [OF m [OF i(1)]]) (use i(4) in auto)
    then have "var (cm_clauses g ! i ! 0) \<le> n" using F i(1) by (auto simp: cnf_ok_def clause_ok_def)
    ultimately show ?thesis using val by (simp add: value_of_Undef [symmetric])
  qed
  with m sc cl have "clauses_ok F T (cm_clauses g)" by (simp add: clauses_ok_def same_clauses_def)
  moreover have "occ_level F T x (cm_occurrence g ! x)" if "x < 2 * (n + 1)" for x
  proof (rule occ_eq_level)
    show "occ_eq (cm_occurrence f ! x) (cm_occurrence g ! x)" using e c that by (simp add: equiv_def core_ok_def)
    show "occ_level F T x (cm_occurrence f ! x)" using c that by (simp add: core_ok_def)
  qed
  ultimately show ?thesis using c e unfolding core_ok_def equiv_def by simp
qed

text \<open>Restoring occurrence lists, pointwise.\<close>

lemma restoreOccs_nth:
  assumes "x < length occs"
  shows "restoreOccs sos occs ! x =
    foldl (\<lambda>oc so. restoreOcc so oc) (occs ! x) (filter (\<lambda>so. intern (so_l so) = x) sos)"
  unfolding restoreOccs_def using assms
  by (induction sos arbitrary: occs) (auto simp: nth_list_update)

lemma length_restoreOccs [simp]: "length (restoreOccs sos occs) = length occs"
  unfolding restoreOccs_def by (induction sos arbitrary: occs) auto

lemma restore_fold_fields:
  "occ_mem (foldl (\<lambda>oc so. restoreOcc so oc) oc sos) = occ_mem oc"
  "notBin (foldl (\<lambda>oc so. restoreOcc so oc) oc sos) = notBin oc"
  "foldl (\<lambda>oc so. restoreOcc so oc) (oc\<lparr>occ_mem := m\<rparr>) sos =
     (foldl (\<lambda>oc so. restoreOcc so oc) oc sos)\<lparr>occ_mem := m\<rparr>"
proof -
  show "occ_mem (foldl (\<lambda>oc so. restoreOcc so oc) oc sos) = occ_mem oc" for oc
    by (induction sos arbitrary: oc) (auto simp: restoreOcc_def)
  show "notBin (foldl (\<lambda>oc so. restoreOcc so oc) oc sos) = notBin oc" for oc
    by (induction sos arbitrary: oc) (auto simp: restoreOcc_def)
  show "foldl (\<lambda>oc so. restoreOcc so oc) (oc\<lparr>occ_mem := m\<rparr>) sos =
     (foldl (\<lambda>oc so. restoreOcc so oc) oc sos)\<lparr>occ_mem := m\<rparr>" for oc
  proof (induction sos arbitrary: oc)
    case (Cons so sos)
    have "restoreOcc so (oc\<lparr>occ_mem := m\<rparr>) = (restoreOcc so oc)\<lparr>occ_mem := m\<rparr>"
      by (simp add: restoreOcc_def)
    then show ?case using Cons by simp
  qed simp
qed

lemma occ_eq_mem:
  assumes "occ_eq o1 o2"
  shows "o2 = o1\<lparr>occ_mem := occ_mem o2\<rparr>"
proof -
  obtain A B N Z B' N' where 1: "occ_is o1 A B N Z" "occ_is o2 A B' N' Z" "mset B = mset B'" "mset N = mset N'"
    using assms unfolding occ_eq_def by blast
  have "length B = length B'" "length N = length N'" using 1(3,4) by (auto dest: mset_eq_length)
  with 1(1,2) show ?thesis by (cases o1; cases o2) (auto simp: occ_is_def)
qed

lemma occ_eq_enlarge:
  assumes eq: "occ_eq o1 o2" and big: "occ_is oc A0 B0 N0 Z0" "occ_mem oc = occ_mem o1" "notBin oc = notBin o1"
    and le: "nbBin o1 \<le> nbBin oc" "nbNotBin o1 \<le> nbNotBin oc"
  shows "occ_eq oc (oc\<lparr>occ_mem := occ_mem o2\<rparr>)"
proof -
  obtain A B N Z B' N' where 1: "occ_is o1 A B N Z" "occ_is o2 A B' N' Z" "mset B = mset B'" "mset N = mset N'"
    using eq unfolding occ_eq_def by blast
  have len: "length B \<le> length B0" "length N \<le> length N0" "length A + length B = length A0 + length B0"
    using big le 1(1) by (auto simp: occ_is_def)
  have mem: "A @ B @ N @ Z = A0 @ B0 @ N0 @ Z0" using big 1(1) by (simp add: occ_is_def)
  have "(A @ B) @ N @ Z = (A0 @ B0) @ N0 @ Z0" using mem by simp
  then have ab: "A @ B = A0 @ B0" "N @ Z = N0 @ Z0" using len(3) by (auto simp del: append_assoc)
  obtain X where X: "A = A0 @ X" "B0 = X @ B"
  proof -
    have "length A0 \<le> length A" using len by linarith
    then obtain X where "A = A0 @ X" using ab(1) by (metis append_eq_append_conv_if append_take_drop_id)
    with ab(1) that [of X] show ?thesis by simp
  qed
  obtain Y where Y: "N0 = N @ Y" "Z = Y @ Z0"
  proof -
    obtain Y where "N0 = N @ Y" using ab(2) len(2) by (metis append_eq_append_conv_if append_take_drop_id)
    with ab(2) that [of Y] show ?thesis by simp
  qed
  have "length B = length B'" "length N = length N'" using 1(3,4) by (auto dest: mset_eq_length)
  then have "occ_is (oc\<lparr>occ_mem := occ_mem o2\<rparr>) A0 (X @ B') (N' @ Y) Z0"
    using big(1) 1(2) X Y by (simp add: occ_is_def)
  moreover have "mset B0 = mset (X @ B')" "mset N0 = mset (N' @ Y)" using X Y 1(3,4) by simp_all
  ultimately show ?thesis unfolding occ_eq_def using big(1) by blast
qed

lemma level_counts_mono:
  assumes "occ_level F T x o1" "occ_level F T' x o2" "T' \<subseteq> T"
  shows "nbBin o1 \<le> nbBin o2" "nbNotBin o1 \<le> nbNotBin o2"
proof -
  have mono: "length (filter (\<lambda>i. Q i \<and> \<not> sat_by T (F ! i)) xs) \<le> length (filter (\<lambda>i. Q i \<and> \<not> sat_by T' (F ! i)) xs)"
    for Q and xs :: "nat list"
    using sat_by_mono [OF _ assms(3)] by (induction xs) auto
  obtain A B N Z where 1: "occ_is o1 A B N Z" "mset B = mset (occB F T x)" "mset N = mset (occN F T x)"
    using assms(1) unfolding occ_level_def by blast
  obtain A' B' N' Z' where 2: "occ_is o2 A' B' N' Z'" "mset B' = mset (occB F T' x)" "mset N' = mset (occN F T' x)"
    using assms(2) unfolding occ_level_def by blast
  show "nbBin o1 \<le> nbBin o2" "nbNotBin o1 \<le> nbNotBin o2"
    using 1(1) 2(1) mset_eq_length [OF 1(2)] mset_eq_length [OF 1(3)] mset_eq_length [OF 2(2)]
      mset_eq_length [OF 2(3)] mono
    by (simp_all add: occ_is_def occB_def occN_def)
qed

lemma equiv_post:
  assumes e: "equiv f g" and c: "core_ok n F T f" and c': "core_ok n F T' (cnf_postUpdate f us)" and sub: "T' \<subseteq> T"
  shows "equiv (cnf_postUpdate f us) (cnf_postUpdate g us)"
proof -
  let ?sos = "drop (last (cm_stackPosOcc f)) (cm_savedStateOccs f)"
  have keep: "\<not> cm_keepListNotSatisfiedClauses f" using c by (simp add: core_ok_def)
  have pf: "cm_occurrence (cnf_postUpdate f us) = restoreOccs ?sos (cm_occurrence f)"
    using keep by (simp add: cnf_postUpdate_def Let_def)
  have pg: "cm_occurrence (cnf_postUpdate g us) = restoreOccs ?sos (cm_occurrence g)"
    using keep e by (simp add: cnf_postUpdate_def Let_def equiv_def)
  have "occ_eq (restoreOccs ?sos (cm_occurrence f) ! x) (restoreOccs ?sos (cm_occurrence g) ! x)"
    if x: "x < length (cm_occurrence f)" for x
  proof -
    let ?o1 = "cm_occurrence f ! x" and ?o2 = "cm_occurrence g ! x"
    let ?fl = "\<lambda>oc. foldl (\<lambda>oc so. restoreOcc so oc) oc (filter (\<lambda>so. intern (so_l so) = x) ?sos)"
    have eq: "occ_eq ?o1 ?o2" using e x by (simp add: equiv_def)
    have r: "restoreOccs ?sos (cm_occurrence f) ! x = ?fl ?o1" "restoreOccs ?sos (cm_occurrence g) ! x = ?fl ?o2"
      using x e by (auto simp: restoreOccs_nth equiv_def)
    have "?fl ?o2 = (?fl ?o1)\<lparr>occ_mem := occ_mem ?o2\<rparr>"
      by (subst occ_eq_mem [OF eq]) (rule restore_fold_fields(3))
    moreover have lv: "occ_level F T x ?o1" "occ_level F T' x (?fl ?o1)"
      using c c' x pf r(1) by (auto simp: core_ok_def)
    ultimately show ?thesis
      using lv(2) occ_eq_enlarge [OF eq _ restore_fold_fields(1,2)] level_counts_mono [OF lv sub]
      unfolding r occ_level_def by metis
  qed
  moreover have "same_clauses (foldl (\<lambda>val l. val[var l := l_Undef]) (cm_currentValue f) us) (cm_clauses f) (cm_clauses g)"
  proof -
    have upd: "val ! v = l_Undef \<Longrightarrow> val[k := l_Undef] ! v = l_Undef" for val v k
      by (cases "k < length val") (auto simp: nth_list_update list_update_beyond)
    have "val ! v = l_Undef \<Longrightarrow> foldl (\<lambda>val l. val[var l := l_Undef]) val us ! v = l_Undef" for val v
      by (induction us arbitrary: val) (simp_all add: upd)
    then show ?thesis using e by (auto simp: equiv_def same_clauses_def)
  qed
  ultimately show ?thesis
    using e keep unfolding equiv_def pf pg by (simp add: cnf_postUpdate_def Let_def)
qed

lemma cm_inv_equiv:
  assumes "cm_inv n F f stk" "equiv f g" "cnf_ok n F"
  shows "cm_inv n F g stk"
  using assms(1,2)
proof (induction stk arbitrary: f g)
  case Nil
  then show ?case using equiv_core [OF _ _ assms(3)] by simp
next
  case (Cons us stk)
  have c: "core_ok n F (set us \<union> set (concat stk)) f" "cm_inv n F (cnf_postUpdate f us) stk" using Cons.prems by auto
  have "equiv (cnf_postUpdate f us) (cnf_postUpdate g us)"
    by (rule equiv_post [OF Cons.prems(2) c(1) cm_inv_core [OF c(2)]]) auto
  then show ?case using Cons.IH [OF c(2)] equiv_core [OF c(1) Cons.prems(2) assms(3)] by simp
qed

end
