(* ===== verification/CnfUpdate.thy ===== *)
theory CnfUpdate
  imports CnfInv
begin

text \<open>
  The proof that \<^verbatim>\<open>preUpdate\<close> establishes the state for the longer trail, and that \<^verbatim>\<open>postUpdate\<close>
  leads back to an equivalent state. \<open>occ_ph\<close> and \<open>cl_ph\<close> relate the occurrence lists and the
  clause infos in the middle of an update to those at its start: what has changed has been saved.
\<close>

section \<open>What has changed has been saved\<close>

definition occ_ph ::
  "nat \<Rightarrow> (nat \<Rightarrow> bool) \<Rightarrow> nat \<Rightarrow> DataOccurrence list \<Rightarrow> SavedStateOcc list
     \<Rightarrow> DataOccurrence list \<Rightarrow> SavedStateOcc list \<Rightarrow> nat list \<Rightarrow> bool" where
  "occ_ph n S idx occ0 so0 occ so mk \<longleftrightarrow> length occ = 2 * (n + 1) \<and> length mk = 2 * (n + 1)
     \<and> (\<forall>m\<in>set mk. m \<le> idx)
     \<and> (\<forall>x<2 * (n + 1). loses S (occ0 ! x) (occ ! x))
     \<and> (\<exists>seg. so = so0 @ seg
          \<and> (\<forall>s\<in>set seg. intern (so_l s) < 2 * (n + 1) \<and> so_nbBin s = nbBin (occ0 ! intern (so_l s))
               \<and> so_nbNotBin s = nbNotBin (occ0 ! intern (so_l s)))
          \<and> (\<forall>x<2 * (n + 1). mk ! x = idx \<longleftrightarrow> x \<in> (\<lambda>s. intern (so_l s)) ` set seg)
          \<and> (\<forall>x<2 * (n + 1). mk ! x \<noteq> idx \<longrightarrow> occ ! x = occ0 ! x))"

definition cl_ph ::
  "nat \<Rightarrow> ClauseInfo list \<Rightarrow> SavedStateClause list \<Rightarrow> ClauseInfo list \<Rightarrow> SavedStateClause list
     \<Rightarrow> bool list \<Rightarrow> bool" where
  "cl_ph m info0 sc0 info sc mk \<longleftrightarrow> length info = m \<and> length mk = m + 1 \<and> \<not> mk ! m
     \<and> (\<forall>i<m. xorLitBin (info ! i) = xorLitBin (info0 ! i))
     \<and> (\<exists>seg. sc = sc0 @ seg
          \<and> (\<forall>s\<in>set seg. sc_idx s < m \<and> sc_isSat s = isSat (info0 ! sc_idx s)
               \<and> sc_nbUnsat s = nbUnsat (info0 ! sc_idx s))
          \<and> (\<forall>i<m. mk ! i \<longleftrightarrow> i \<in> sc_idx ` set seg)
          \<and> (\<forall>i<m. \<not> mk ! i \<longrightarrow> info ! i = info0 ! i))"

abbreviation f_occ_ph where
  "f_occ_ph n S occ0 so0 f \<equiv> occ_ph n S (cm_currentMarkedLitStackIndex f) occ0 so0 (cm_occurrence f)
     (cm_savedStateOccs f) (cm_markedLitStack f)"

abbreviation f_cl_ph where
  "f_cl_ph m info0 sc0 f \<equiv> cl_ph m info0 sc0 (cm_infoClauses f) (cm_savedStateClauses f) (cm_markedClauseIdx f)"

text \<open>The fields that the propagation leaves alone.\<close>

definition frame :: "'z cnfManagerDyn_scheme \<Rightarrow> 'z cnfManagerDyn_scheme \<Rightarrow> bool" where
  "frame f g \<longleftrightarrow> cm_nbVar g = cm_nbVar f \<and> cm_currentValue g = cm_currentValue f
     \<and> cm_stackPosOcc g = cm_stackPosOcc f \<and> cm_stackPosClause g = cm_stackPosClause f
     \<and> cm_keepListNotSatisfiedClauses g = cm_keepListNotSatisfiedClauses f
     \<and> cm_currentMarkedLitStackIndex g = cm_currentMarkedLitStackIndex f
     \<and> cm_markView g = cm_markView f \<and> cm_mustUnMark g = cm_mustUnMark f
     \<and> cm_infoCluster g = cm_infoCluster f \<and> cm_inCurrentComponent g = cm_inCurrentComponent f
     \<and> cm_idxComponent g = cm_idxComponent f"

lemma frame_refl [simp]: "frame f f"
  by (simp add: frame_def)

lemma frame_trans: "frame f g \<Longrightarrow> frame g h \<Longrightarrow> frame f h"
  by (simp add: frame_def)

lemma frame_fold: "(\<And>x g. frame g (h x g)) \<Longrightarrow> frame f (fold h xs f)"
  by (induction xs arbitrary: f) (auto intro: frame_trans)

lemma saveOcc_ph:
  assumes ph: "f_occ_ph n S occ0 so0 f" and x: "intern l < 2 * (n + 1)"
  shows "f_occ_ph n S occ0 so0 (saveOcc l f)" "cm_markedLitStack (saveOcc l f) ! intern l = cm_currentMarkedLitStackIndex f"
    "cm_occurrence (saveOcc l f) = cm_occurrence f"
    "x < 2 * (n + 1) \<Longrightarrow> cm_markedLitStack f ! x = cm_currentMarkedLitStackIndex f \<Longrightarrow>
       cm_markedLitStack (saveOcc l f) ! x = cm_currentMarkedLitStackIndex f"
proof -
  let ?idx = "cm_currentMarkedLitStackIndex f"
  have len: "length (cm_markedLitStack f) = 2 * (n + 1)" using ph by (simp add: occ_ph_def)
  show "cm_markedLitStack (saveOcc l f) ! intern l = ?idx"
    using len x by (simp add: saveOcc_def)
  show "cm_occurrence (saveOcc l f) = cm_occurrence f" by (simp add: saveOcc_def)
  show "x < 2 * (n + 1) \<Longrightarrow> cm_markedLitStack f ! x = ?idx \<Longrightarrow> cm_markedLitStack (saveOcc l f) ! x = ?idx"
    using len x by (simp add: saveOcc_def nth_list_update)
  show "f_occ_ph n S occ0 so0 (saveOcc l f)"
  proof (cases "cm_markedLitStack f ! intern l = ?idx")
    case True
    then show ?thesis using ph by (simp add: saveOcc_def)
  next
    case False
    obtain seg where seg: "cm_savedStateOccs f = so0 @ seg"
      "\<forall>s\<in>set seg. intern (so_l s) < 2 * (n + 1) \<and> so_nbBin s = nbBin (occ0 ! intern (so_l s))
         \<and> so_nbNotBin s = nbNotBin (occ0 ! intern (so_l s))"
      "\<forall>x<2 * (n + 1). cm_markedLitStack f ! x = ?idx \<longleftrightarrow> x \<in> (\<lambda>s. intern (so_l s)) ` set seg"
      "\<forall>x<2 * (n + 1). cm_markedLitStack f ! x \<noteq> ?idx \<longrightarrow> cm_occurrence f ! x = occ0 ! x"
      using ph unfolding occ_ph_def by blast
    let ?s = "\<lparr>so_l = l, so_nbBin = nbBin (occ_of f l), so_nbNotBin = nbNotBin (occ_of f l)\<rparr>"
    let ?mk = "(cm_markedLitStack f)[intern l := ?idx]"
    have o: "occ_of f l = occ0 ! intern l" using seg(4) x False by (simp add: occ_of_def)
    have le: "\<forall>m\<in>set ?mk. m \<le> ?idx"
      using ph set_update_subset_insert [of "cm_markedLitStack f" "intern l" ?idx] by (auto simp: occ_ph_def)
    have "\<exists>seg'. cm_savedStateOccs f @ [?s] = so0 @ seg'
      \<and> (\<forall>s\<in>set seg'. intern (so_l s) < 2 * (n + 1) \<and> so_nbBin s = nbBin (occ0 ! intern (so_l s))
         \<and> so_nbNotBin s = nbNotBin (occ0 ! intern (so_l s)))
      \<and> (\<forall>x<2 * (n + 1). ?mk ! x = ?idx \<longleftrightarrow> x \<in> (\<lambda>s. intern (so_l s)) ` set seg')
      \<and> (\<forall>x<2 * (n + 1). ?mk ! x \<noteq> ?idx \<longrightarrow> cm_occurrence f ! x = occ0 ! x)"
      using seg o x len by (intro exI [of _ "seg @ [?s]"]) (auto simp: nth_list_update)
    then show ?thesis using ph False len le unfolding occ_ph_def by (simp add: saveOcc_def)
  qed
qed

lemma set_occ_ph:
  assumes ph: "f_occ_ph n S occ0 so0 f" and x: "intern l < 2 * (n + 1)"
    and mk: "cm_markedLitStack f ! intern l = cm_currentMarkedLitStackIndex f" and l: "loses S (occ_of f l) oc"
  shows "f_occ_ph n S occ0 so0 (set_occ l oc f)"
proof -
  have "loses S (occ0 ! intern l) oc"
    using ph x l unfolding occ_ph_def occ_of_def by (blast intro: loses_trans)
  then have "\<forall>y<2 * (n + 1). loses S (occ0 ! y) ((cm_occurrence f)[intern l := oc] ! y)"
    using ph x by (simp add: occ_ph_def nth_list_update)
  moreover have "(cm_occurrence f)[intern l := oc] ! y = cm_occurrence f ! y" if "y \<noteq> intern l" for y
    using that by simp
  ultimately show ?thesis using ph mk unfolding occ_ph_def set_occ_def by (simp, metis)
qed

lemma saveOcc_frame [simp]: "frame f (saveOcc l f)"
  by (simp add: saveOcc_def frame_def)

lemma set_occ_frame [simp]: "frame f (set_occ l oc f)"
  by (simp add: set_occ_def frame_def)

lemma saveClause_frame [simp]: "frame f (saveClause i b f)"
  by (simp add: saveClause_def frame_def)

text \<open>The occurrence part does not see the clause part, and conversely.\<close>

lemma saveClause_other [simp]:
  "cm_occurrence (saveClause i b f) = cm_occurrence f" "cm_savedStateOccs (saveClause i b f) = cm_savedStateOccs f"
  "cm_markedLitStack (saveClause i b f) = cm_markedLitStack f"
  "cm_currentMarkedLitStackIndex (saveClause i b f) = cm_currentMarkedLitStackIndex f"
  "cm_infoClauses (saveClause i b f) = cm_infoClauses f" "cm_clauses (saveClause i b f) = cm_clauses f"
  "cm_indexSatClauses (saveClause i b f) = cm_indexSatClauses f"
  "cm_reviewWatcher (saveClause i b f) = cm_reviewWatcher f"
  "cm_markedLitRemove (saveClause i b f) = cm_markedLitRemove f"
  "cm_currentMarkedLitRemoveIndex (saveClause i b f) = cm_currentMarkedLitRemoveIndex f"
  by (simp_all add: saveClause_def)

lemma saveOcc_other [simp]:
  "cm_infoClauses (saveOcc l f) = cm_infoClauses f" "cm_clauses (saveOcc l f) = cm_clauses f"
  "cm_savedStateClauses (saveOcc l f) = cm_savedStateClauses f"
  "cm_markedClauseIdx (saveOcc l f) = cm_markedClauseIdx f"
  "cm_currentMarkedLitStackIndex (saveOcc l f) = cm_currentMarkedLitStackIndex f"
  "cm_indexSatClauses (saveOcc l f) = cm_indexSatClauses f" "cm_occurrence (saveOcc l f) = cm_occurrence f"
  "cm_markedLitRemove (saveOcc l f) = cm_markedLitRemove f"
  "cm_currentMarkedLitRemoveIndex (saveOcc l f) = cm_currentMarkedLitRemoveIndex f"
  "occ_of (saveOcc l f) l' = occ_of f l'"
  by (simp_all add: saveOcc_def occ_of_def)

lemma set_occ_other [simp]:
  "cm_infoClauses (set_occ l oc f) = cm_infoClauses f" "cm_clauses (set_occ l oc f) = cm_clauses f"
  "cm_savedStateClauses (set_occ l oc f) = cm_savedStateClauses f"
  "cm_markedClauseIdx (set_occ l oc f) = cm_markedClauseIdx f"
  "cm_currentMarkedLitStackIndex (set_occ l oc f) = cm_currentMarkedLitStackIndex f"
  "cm_indexSatClauses (set_occ l oc f) = cm_indexSatClauses f"
  "cm_savedStateOccs (set_occ l oc f) = cm_savedStateOccs f"
  "cm_markedLitStack (set_occ l oc f) = cm_markedLitStack f"
  "cm_markedLitRemove (set_occ l oc f) = cm_markedLitRemove f"
  "cm_currentMarkedLitRemoveIndex (set_occ l oc f) = cm_currentMarkedLitRemoveIndex f"
  by (simp_all add: set_occ_def)

lemma saveClause_ph:
  assumes ph: "f_cl_ph m info0 sc0 f" and i: "i < m" and b: "\<not> cm_markedClauseIdx f ! i \<Longrightarrow> b = isSat (info0 ! i)"
  shows "f_cl_ph m info0 sc0 (saveClause i b f)" "cm_markedClauseIdx (saveClause i b f) ! i"
proof -
  have len: "length (cm_markedClauseIdx f) = m + 1" using ph by (simp add: cl_ph_def)
  show "cm_markedClauseIdx (saveClause i b f) ! i" using len i by (simp add: saveClause_def)
  show "f_cl_ph m info0 sc0 (saveClause i b f)"
  proof (cases "cm_markedClauseIdx f ! i")
    case True
    then show ?thesis using ph by (simp add: saveClause_def)
  next
    case False
    obtain seg where seg: "cm_savedStateClauses f = sc0 @ seg"
      "\<forall>s\<in>set seg. sc_idx s < m \<and> sc_isSat s = isSat (info0 ! sc_idx s) \<and> sc_nbUnsat s = nbUnsat (info0 ! sc_idx s)"
      "\<forall>i<m. cm_markedClauseIdx f ! i \<longleftrightarrow> i \<in> sc_idx ` set seg"
      "\<forall>i<m. \<not> cm_markedClauseIdx f ! i \<longrightarrow> cm_infoClauses f ! i = info0 ! i"
      using ph unfolding cl_ph_def by blast
    let ?s = "\<lparr>sc_idx = i, sc_isSat = b, sc_nbUnsat = nbUnsat (cm_infoClauses f ! i)\<rparr>"
    let ?mk = "(cm_markedClauseIdx f)[i := True]"
    have "\<exists>seg'. cm_savedStateClauses f @ [?s] = sc0 @ seg'
      \<and> (\<forall>s\<in>set seg'. sc_idx s < m \<and> sc_isSat s = isSat (info0 ! sc_idx s) \<and> sc_nbUnsat s = nbUnsat (info0 ! sc_idx s))
      \<and> (\<forall>i<m. ?mk ! i \<longleftrightarrow> i \<in> sc_idx ` set seg')
      \<and> (\<forall>i<m. \<not> ?mk ! i \<longrightarrow> cm_infoClauses f ! i = info0 ! i)"
      using seg False i b len by (intro exI [of _ "seg @ [?s]"]) (auto simp: nth_list_update)
    then show ?thesis using ph False len i unfolding cl_ph_def by (simp add: saveClause_def)
  qed
qed

lemma info_update_ph:
  assumes ph: "f_cl_ph m info0 sc0 f" and i: "i < m" "cm_markedClauseIdx f ! i"
    and x: "xorLitBin ci = xorLitBin (cm_infoClauses f ! i)"
  shows "f_cl_ph m info0 sc0 (f\<lparr>cm_infoClauses := (cm_infoClauses f)[i := ci]\<rparr>)"
proof -
  have "\<forall>k<m. \<not> cm_markedClauseIdx f ! k \<longrightarrow> (cm_infoClauses f)[i := ci] ! k = cm_infoClauses f ! k"
    using i(2) by (metis nth_list_update_neq)
  moreover have "\<forall>k<m. xorLitBin ((cm_infoClauses f)[i := ci] ! k) = xorLitBin (info0 ! k)"
    using ph i x by (auto simp: nth_list_update cl_ph_def)
  moreover obtain seg where seg: "cm_savedStateClauses f = sc0 @ seg"
      "\<forall>s\<in>set seg. sc_idx s < m \<and> sc_isSat s = isSat (info0 ! sc_idx s) \<and> sc_nbUnsat s = nbUnsat (info0 ! sc_idx s)"
      "\<forall>i<m. cm_markedClauseIdx f ! i \<longleftrightarrow> i \<in> sc_idx ` set seg"
      "\<forall>i<m. \<not> cm_markedClauseIdx f ! i \<longrightarrow> cm_infoClauses f ! i = info0 ! i"
    using ph unfolding cl_ph_def by blast
  ultimately have "\<exists>seg. cm_savedStateClauses f = sc0 @ seg
      \<and> (\<forall>s\<in>set seg. sc_idx s < m \<and> sc_isSat s = isSat (info0 ! sc_idx s) \<and> sc_nbUnsat s = nbUnsat (info0 ! sc_idx s))
      \<and> (\<forall>i<m. cm_markedClauseIdx f ! i \<longleftrightarrow> i \<in> sc_idx ` set seg)
      \<and> (\<forall>k<m. \<not> cm_markedClauseIdx f ! k \<longrightarrow> (cm_infoClauses f)[i := ci] ! k = info0 ! k)"
    by (intro exI [of _ seg]) simp
  then show ?thesis using ph \<open>\<forall>k<m. xorLitBin ((cm_infoClauses f)[i := ci] ! k) = xorLitBin (info0 ! k)\<close>
    unfolding cl_ph_def by simp
qed

text \<open>Saving before or after the update of an info makes no difference to the saved count.\<close>

lemma satisfyClause_ph:
  assumes ph: "f_cl_ph m info0 sc0 f" and i: "i < m"
  shows "f_cl_ph m info0 sc0 (satisfyClause i f)"
proof (cases "isSat (cm_infoClauses f ! i)")
  case True
  then show ?thesis using ph by (simp add: satisfyClause_def)
next
  case False
  let ?ci = "(cm_infoClauses f ! i)\<lparr>isSat := True\<rparr>"
  have len: "length (cm_infoClauses f) = m" using ph by (simp add: cl_ph_def)
  have b: "\<not> cm_markedClauseIdx f ! i \<Longrightarrow> False = isSat (info0 ! i)"
    using ph False i unfolding cl_ph_def by metis
  note s = saveClause_ph [OF ph i b]
  have "f_cl_ph m info0 sc0 ((saveClause i False f)\<lparr>cm_infoClauses := (cm_infoClauses (saveClause i False f))[i := ?ci]\<rparr>)"
  proof (rule info_update_ph [OF s(1) i s(2)])
    show "xorLitBin ?ci = xorLitBin (cm_infoClauses (saveClause i False f) ! i)"
      unfolding saveClause_other by simp
  qed
  moreover have "cm_savedStateClauses (satisfyClause i f) = cm_savedStateClauses (saveClause i False f)"
    "cm_markedClauseIdx (satisfyClause i f) = cm_markedClauseIdx (saveClause i False f)"
    "cm_infoClauses (satisfyClause i f) = (cm_infoClauses f)[i := ?ci]"
    using False i len by (auto simp: satisfyClause_def saveClause_def)
  ultimately show ?thesis by simp
qed

lemma satisfyClause_frame [simp]: "frame f (satisfyClause i f)"
  by (auto simp: satisfyClause_def saveClause_def frame_def)

lemma satisfyClause_other [simp]:
  "cm_occurrence (satisfyClause i f) = cm_occurrence f" "cm_savedStateOccs (satisfyClause i f) = cm_savedStateOccs f"
  "cm_markedLitStack (satisfyClause i f) = cm_markedLitStack f"
  "cm_currentMarkedLitStackIndex (satisfyClause i f) = cm_currentMarkedLitStackIndex f"
  "cm_clauses (satisfyClause i f) = cm_clauses f"
  "cm_markedLitRemove (satisfyClause i f) = cm_markedLitRemove f"
  "cm_currentMarkedLitRemoveIndex (satisfyClause i f) = cm_currentMarkedLitRemoveIndex f"
  by (auto simp: satisfyClause_def saveClause_def)

section \<open>Satisfying the clauses of the assigned literals\<close>

lemma level_clauses:
  assumes "occ_level F T x oc"
  shows "set (occ_getClauses oc) = {i. i < length F \<and> \<not> sat_by T (F ! i) \<and> (\<exists>l\<in>set (F ! i). intern l = x)}"
    "mset (getNotBinClauses oc) = mset (occN F T x)" "mset (getBinClauses oc) = mset (occB F T x)"
    "\<exists>A B N Z. occ_is oc A B N Z"
proof -
  obtain A B N Z where 1: "occ_is oc A B N Z" "mset B = mset (occB F T x)" "mset N = mset (occN F T x)"
    using assms unfolding occ_level_def by blast
  note r = occ_is_reads [OF 1(1)]
  show "mset (getNotBinClauses oc) = mset (occN F T x)" "mset (getBinClauses oc) = mset (occB F T x)"
    "\<exists>A B N Z. occ_is oc A B N Z" using 1 r by auto
  have "set (occ_getClauses oc) = set (occB F T x) \<union> set (occN F T x)"
    using 1(2,3) r(3) by (metis set_append set_mset_mset)
  also have "\<dots> = {i. i < length F \<and> \<not> sat_by T (F ! i) \<and> (\<exists>l\<in>set (F ! i). intern l = x)}"
    by (auto simp: occB_def occN_def set_occurrenceIdx)
  finally show "set (occ_getClauses oc) = {i. i < length F \<and> \<not> sat_by T (F ! i) \<and> (\<exists>l\<in>set (F ! i). intern l = x)}" .
qed

lemma satisfyClauses_ok:
  assumes "f_cl_ph m info0 sc0 f" "\<forall>i\<in>set ks. i < m"
  shows "f_cl_ph m info0 sc0 (fold satisfyClause ks f)"
    "\<forall>i<m. isSat (cm_infoClauses (fold satisfyClause ks f) ! i) = (isSat (cm_infoClauses f ! i) \<or> i \<in> set ks)"
    "\<forall>i<m. nbUnsat (cm_infoClauses (fold satisfyClause ks f) ! i) = nbUnsat (cm_infoClauses f ! i)"
    "set (cm_indexSatClauses (fold satisfyClause ks f)) =
       set (cm_indexSatClauses f) \<union> {i \<in> set ks. \<not> isSat (cm_infoClauses f ! i)}"
proof -
  have "f_cl_ph m info0 sc0 (fold satisfyClause ks f)
    \<and> (\<forall>i<m. isSat (cm_infoClauses (fold satisfyClause ks f) ! i) = (isSat (cm_infoClauses f ! i) \<or> i \<in> set ks))
    \<and> (\<forall>i<m. nbUnsat (cm_infoClauses (fold satisfyClause ks f) ! i) = nbUnsat (cm_infoClauses f ! i))
    \<and> set (cm_indexSatClauses (fold satisfyClause ks f)) =
       set (cm_indexSatClauses f) \<union> {i \<in> set ks. \<not> isSat (cm_infoClauses f ! i)}"
    using assms
  proof (induction ks arbitrary: f)
    case (Cons k ks)
    let ?g = "satisfyClause k f"
    have k: "k < m" using Cons.prems by simp
    have len: "length (cm_infoClauses f) = m" using Cons.prems by (simp add: cl_ph_def)
    have g: "\<forall>i<m. isSat (cm_infoClauses ?g ! i) = (isSat (cm_infoClauses f ! i) \<or> i = k)"
      "\<forall>i<m. nbUnsat (cm_infoClauses ?g ! i) = nbUnsat (cm_infoClauses f ! i)"
      "cm_indexSatClauses ?g = (if isSat (cm_infoClauses f ! k) then cm_indexSatClauses f else cm_indexSatClauses f @ [k])"
      using k len by (auto simp: satisfyClause_def nth_list_update)
    have IH: "f_cl_ph m info0 sc0 (fold satisfyClause ks ?g)
      \<and> (\<forall>i<m. isSat (cm_infoClauses (fold satisfyClause ks ?g) ! i) = (isSat (cm_infoClauses ?g ! i) \<or> i \<in> set ks))
      \<and> (\<forall>i<m. nbUnsat (cm_infoClauses (fold satisfyClause ks ?g) ! i) = nbUnsat (cm_infoClauses ?g ! i))
      \<and> set (cm_indexSatClauses (fold satisfyClause ks ?g)) =
         set (cm_indexSatClauses ?g) \<union> {i \<in> set ks. \<not> isSat (cm_infoClauses ?g ! i)}"
      by (rule Cons.IH [OF satisfyClause_ph [OF Cons.prems(1) k]]) (use Cons.prems in simp)
    then have "set (cm_indexSatClauses (fold satisfyClause ks ?g)) =
        set (cm_indexSatClauses f) \<union> {i \<in> set (k # ks). \<not> isSat (cm_infoClauses f ! i)}"
      using g Cons.prems(2) by auto
    with IH g show ?case by auto
  qed simp
  then show "f_cl_ph m info0 sc0 (fold satisfyClause ks f)"
    "\<forall>i<m. isSat (cm_infoClauses (fold satisfyClause ks f) ! i) = (isSat (cm_infoClauses f ! i) \<or> i \<in> set ks)"
    "\<forall>i<m. nbUnsat (cm_infoClauses (fold satisfyClause ks f) ! i) = nbUnsat (cm_infoClauses f ! i)"
    "set (cm_indexSatClauses (fold satisfyClause ks f)) =
       set (cm_indexSatClauses f) \<union> {i \<in> set ks. \<not> isSat (cm_infoClauses f ! i)}" by blast+
qed

lemma satisfyClauses_other [simp]:
  "cm_occurrence (fold satisfyClause ks f) = cm_occurrence f"
  "cm_savedStateOccs (fold satisfyClause ks f) = cm_savedStateOccs f"
  "cm_markedLitStack (fold satisfyClause ks f) = cm_markedLitStack f"
  "cm_currentMarkedLitStackIndex (fold satisfyClause ks f) = cm_currentMarkedLitStackIndex f"
  "cm_clauses (fold satisfyClause ks f) = cm_clauses f"
  "cm_markedLitRemove (fold satisfyClause ks f) = cm_markedLitRemove f"
  "cm_currentMarkedLitRemoveIndex (fold satisfyClause ks f) = cm_currentMarkedLitRemoveIndex f"
  by (induction ks arbitrary: f) simp_all

text \<open>The loop over the assigned literals: \<open>U\<close> are those already treated.\<close>

definition sat_inv where
  "sat_inv n F T S f1 U f \<longleftrightarrow> frame f1 f \<and> cm_clauses f = cm_clauses f1
     \<and> f_occ_ph n S (cm_occurrence f1) (cm_savedStateOccs f1) f
     \<and> f_cl_ph (length F) (cm_infoClauses f1) (cm_savedStateClauses f1) f
     \<and> (\<forall>i<length F. isSat (cm_infoClauses f ! i) = (sat_by T (F ! i) \<or> sat_by U (F ! i)))
     \<and> (\<forall>i<length F. nbUnsat (cm_infoClauses f ! i) = nbUnsat (cm_infoClauses f1 ! i))
     \<and> set (cm_indexSatClauses f) = {i. i < length F \<and> \<not> sat_by T (F ! i) \<and> sat_by U (F ! i)}
     \<and> (\<forall>l\<in>U. occ_clear S (occ_of f l))
     \<and> (\<forall>x<2 * (n + 1). x \<notin> intern ` U \<longrightarrow> cm_occurrence f ! x = cm_occurrence f1 ! x)
     \<and> cm_markedLitRemove f = cm_markedLitRemove f1
     \<and> cm_currentMarkedLitRemoveIndex f = cm_currentMarkedLitRemoveIndex f1"

lemma satisfyLit_inv:
  assumes inv: "sat_inv n F T S f1 U f" and l: "l \<notin> U" "intern l < 2 * (n + 1)"
    and lev: "\<forall>x<2 * (n + 1). occ_level F T x (cm_occurrence f1 ! x)"
    and S: "\<And>i. i < length F \<Longrightarrow> l \<in> set (F ! i) \<Longrightarrow> S i"
  shows "sat_inv n F T S f1 (insert l U) (satisfyLit l f)"
proof -
  let ?ks = "getVecIdxClause f l"
  have i: "frame f1 f" "cm_clauses f = cm_clauses f1" "f_occ_ph n S (cm_occurrence f1) (cm_savedStateOccs f1) f"
    "f_cl_ph (length F) (cm_infoClauses f1) (cm_savedStateClauses f1) f"
    "\<forall>i<length F. isSat (cm_infoClauses f ! i) = (sat_by T (F ! i) \<or> sat_by U (F ! i))"
    "\<forall>i<length F. nbUnsat (cm_infoClauses f ! i) = nbUnsat (cm_infoClauses f1 ! i)"
    "set (cm_indexSatClauses f) = {i. i < length F \<and> \<not> sat_by T (F ! i) \<and> sat_by U (F ! i)}"
    "\<forall>l\<in>U. occ_clear S (occ_of f l)"
    "\<forall>x<2 * (n + 1). x \<notin> intern ` U \<longrightarrow> cm_occurrence f ! x = cm_occurrence f1 ! x"
    "cm_markedLitRemove f = cm_markedLitRemove f1"
    "cm_currentMarkedLitRemoveIndex f = cm_currentMarkedLitRemoveIndex f1"
    using inv unfolding sat_inv_def by blast+
  have nU: "intern l \<notin> intern ` U" using l(1) by auto
  then have occ: "occ_of f l = cm_occurrence f1 ! intern l" using i(9) l(2) by (simp add: occ_of_def)
  note lv = level_clauses [OF lev [rule_format, OF l(2)]]
  have ks: "set ?ks = {i. i < length F \<and> \<not> sat_by T (F ! i) \<and> l \<in> set (F ! i)}"
    unfolding getVecIdxClause_def occ lv(1) by auto
  have ksm: "\<forall>i\<in>set ?ks. i < length F" unfolding ks by simp
  let ?f1 = "fold satisfyClause ?ks f"
  note s = satisfyClauses_ok [OF i(4) ksm]
  have ph1: "f_occ_ph n S (cm_occurrence f1) (cm_savedStateOccs f1) ?f1" using i(3) by simp
  let ?f2 = "saveOcc l ?f1"
  note s2 = saveOcc_ph [OF ph1 l(2)]
  have occ2: "occ_of ?f2 l = occ_of f l" by (simp add: occ_of_def)
  have "\<forall>i\<in>set (occ_getClauses (occ_of f l)). S i" using ks S unfolding getVecIdxClause_def by blast
  with clean_loses lv(4) occ have cl: "loses S (occ_of f l) (clean (occ_of f l))" "occ_clear S (clean (occ_of f l))"
    by metis+
  have e: "satisfyLit l f = set_occ l (clean (occ_of f l)) ?f2"
    unfolding satisfyLit_def Let_def occ2 [symmetric] ..
  have "cm_markedLitStack ?f2 ! intern l = cm_currentMarkedLitStackIndex ?f2" using s2(2) by simp
  then have ph3: "f_occ_ph n S (cm_occurrence f1) (cm_savedStateOccs f1) (satisfyLit l f)"
    unfolding e using set_occ_ph [OF s2(1) l(2)] cl(1) occ2 by simp
  have fr: "frame f1 (satisfyLit l f)"
    unfolding e using i(1) frame_trans frame_fold satisfyClause_frame saveOcc_frame set_occ_frame by metis
  have len: "length (cm_occurrence f) = 2 * (n + 1)" using i(3) by (simp add: occ_ph_def)
  have "occ_clear S (occ_of (satisfyLit l f) k)" if "k \<in> insert l U" for k
  proof (cases "k = l")
    case True
    then show ?thesis using cl(2) len l(2) unfolding e by (simp add: set_occ_def occ_of_def)
  next
    case False
    then have "occ_of (satisfyLit l f) k = occ_of f k" unfolding e by (simp add: set_occ_def occ_of_def)
    then show ?thesis using i(8) that False by simp
  qed
  moreover have "cm_occurrence (satisfyLit l f) ! x = cm_occurrence f1 ! x"
    if "x < 2 * (n + 1)" "x \<notin> intern ` insert l U" for x
    using that i(9) unfolding e by (simp add: set_occ_def)
  moreover have "sat_by (insert l U) c \<longleftrightarrow> sat_by U c \<or> l \<in> set c" for c by (auto simp: sat_by_def)
  ultimately show ?thesis
    unfolding sat_inv_def using fr ph3 s i ks unfolding e by auto
qed

lemma satisfyLits_inv:
  assumes "sat_inv n F T S f1 U f" "distinct us" "set us \<inter> U = {}" "\<forall>l\<in>set us. intern l < 2 * (n + 1)"
    "\<forall>x<2 * (n + 1). occ_level F T x (cm_occurrence f1 ! x)"
    "\<And>i l. i < length F \<Longrightarrow> l \<in> set us \<Longrightarrow> l \<in> set (F ! i) \<Longrightarrow> S i"
  shows "sat_inv n F T S f1 (U \<union> set us) (fold satisfyLit us f)"
  using assms(1-4,6)
proof (induction us arbitrary: U f)
  case (Cons l us)
  have "sat_inv n F T S f1 (insert l U) (satisfyLit l f)"
    by (rule satisfyLit_inv [OF Cons.prems(1) _ _ assms(5)]) (use Cons.prems in auto)
  from Cons.IH [OF this] Cons.prems show ?case by auto
qed simp

section \<open>Removing the satisfied clauses from the lists\<close>

definition rem_inv where
  "rem_inv n S f1 occ0 so0 f \<longleftrightarrow> frame f1 f \<and> cm_clauses f = cm_clauses f1
     \<and> cm_infoClauses f = cm_infoClauses f1 \<and> cm_savedStateClauses f = cm_savedStateClauses f1
     \<and> cm_markedClauseIdx f = cm_markedClauseIdx f1 \<and> f_occ_ph n S occ0 so0 f
     \<and> length (cm_markedLitRemove f) = 2 * (n + 1)
     \<and> (\<forall>k\<in>set (cm_markedLitRemove f). k \<le> cm_currentMarkedLitRemoveIndex f)
     \<and> cm_currentMarkedLitRemoveIndex f = cm_currentMarkedLitRemoveIndex f1
     \<and> (\<forall>x<2 * (n + 1). loses S (cm_occurrence f1 ! x) (cm_occurrence f ! x))
     \<and> (\<forall>x<2 * (n + 1). cm_markedLitRemove f ! x = cm_currentMarkedLitRemoveIndex f \<longrightarrow>
          occ_clear S (cm_occurrence f ! x))"

lemma removeFromLit_inv:
  assumes inv: "rem_inv n S f1 occ0 so0 f" and x: "intern l < 2 * (n + 1)"
    and S: "\<forall>i<m. isSat (cm_infoClauses f1 ! i) = S i"
    and win: "\<forall>x<2 * (n + 1). set (occ_getClauses (occ0 ! x)) \<subseteq> {..<m}"
  shows "rem_inv n S f1 occ0 so0 (removeFromLit l f)"
    "cm_markedLitRemove (removeFromLit l f) ! intern l = cm_currentMarkedLitRemoveIndex f1"
    "\<And>y. y < 2 * (n + 1) \<Longrightarrow> cm_markedLitRemove f ! y = cm_currentMarkedLitRemoveIndex f1 \<Longrightarrow>
       cm_markedLitRemove (removeFromLit l f) ! y = cm_currentMarkedLitRemoveIndex f1"
proof -
  let ?g = "saveOcc l f" and ?idx = "cm_currentMarkedLitRemoveIndex f1"
  have i: "frame f1 f" "cm_clauses f = cm_clauses f1" "cm_infoClauses f = cm_infoClauses f1"
    "cm_savedStateClauses f = cm_savedStateClauses f1" "cm_markedClauseIdx f = cm_markedClauseIdx f1"
    "f_occ_ph n S occ0 so0 f" "length (cm_markedLitRemove f) = 2 * (n + 1)"
    "\<forall>k\<in>set (cm_markedLitRemove f). k \<le> cm_currentMarkedLitRemoveIndex f"
    "cm_currentMarkedLitRemoveIndex f = ?idx"
    "\<forall>x<2 * (n + 1). loses S (cm_occurrence f1 ! x) (cm_occurrence f ! x)"
    "\<forall>x<2 * (n + 1). cm_markedLitRemove f ! x = ?idx \<longrightarrow> occ_clear S (cm_occurrence f ! x)"
    using inv unfolding rem_inv_def by auto
  note s = saveOcc_ph [OF i(6) x]
  have g: "rem_inv n S f1 occ0 so0 ?g"
    using i(2-5,7,9,10,11) i(8) [unfolded i(9)] s(1) frame_trans [OF i(1) saveOcc_frame]
    unfolding rem_inv_def by simp
  have "rem_inv n S f1 occ0 so0 (removeFromLit l f) \<and> cm_markedLitRemove (removeFromLit l f) ! intern l = ?idx
    \<and> (\<forall>y<2 * (n + 1). cm_markedLitRemove f ! y = ?idx \<longrightarrow> cm_markedLitRemove (removeFromLit l f) ! y = ?idx)"
  proof (cases "cm_markedLitRemove f ! intern l = ?idx")
    case True
    then show ?thesis using g i(9) by (simp add: removeFromLit_def)
  next
    case False
    let ?mk = "(cm_markedLitRemove f)[intern l := ?idx]"
    let ?o = "cm_occurrence f ! intern l"
    let ?o' = "removeSatisfiedBin (cm_infoClauses f) (removeSatisfiedNotBin (cm_infoClauses f) ?o)"
    have len: "length (cm_occurrence f) = 2 * (n + 1)" using i(6) by (simp add: occ_ph_def)
    have l0: "loses S (occ0 ! intern l) ?o" using i(6) x by (simp add: occ_ph_def)
    have w: "set (occ_getClauses ?o) \<subseteq> {..<m}" using loses_clauses_subset [OF l0] win x by blast
    obtain A B N Z where o: "occ_is ?o A B N Z" using loses_is [OF l0] by blast
    have r: "loses (\<lambda>i. isSat (cm_infoClauses f ! i)) ?o ?o'" "occ_clear (\<lambda>i. isSat (cm_infoClauses f ! i)) ?o'"
      using remove_loses [OF o] by blast+
    have ls: "loses S ?o ?o'" using r(1) by (rule loses_mono) (use w S i(3) in auto)
    have "set (occ_getClauses ?o') \<subseteq> {..<m}" using loses_clauses_subset [OF ls] w by blast
    then have cs: "occ_clear S ?o'" using r(2) S i(3) unfolding occ_clear_def by auto
    define h where "h = (?g\<lparr>cm_markedLitRemove := ?mk\<rparr>)"
    have e: "removeFromLit l f = set_occ l ?o' (h\<lparr>cm_occurrence := cm_occurrence f\<rparr>)"
      using False i(9) x len by (simp add: removeFromLit_def Let_def occ_of_def set_occ_def h_def)
    have ph: "f_occ_ph n S occ0 so0 (h\<lparr>cm_occurrence := cm_occurrence f\<rparr>)" using s(1) by (simp add: h_def)
    have mk: "cm_markedLitStack (h\<lparr>cm_occurrence := cm_occurrence f\<rparr>) ! intern l =
        cm_currentMarkedLitStackIndex (h\<lparr>cm_occurrence := cm_occurrence f\<rparr>)"
      using s(2) by (simp add: h_def)
    have "f_occ_ph n S occ0 so0 (removeFromLit l f)"
      unfolding e by (rule set_occ_ph [OF ph x mk]) (simp add: occ_of_def ls)
    moreover have "frame f1 (removeFromLit l f)"
      unfolding e using i(1) by (simp add: frame_def set_occ_def h_def saveOcc_def)
    moreover have "\<forall>k\<in>set ?mk. k \<le> ?idx" using i(8,9) set_update_subset_insert by fastforce
    moreover have "loses S (cm_occurrence f1 ! y) ((cm_occurrence f)[intern l := ?o'] ! y)"
      if "y < 2 * (n + 1)" for y
      using that len loses_trans [OF i(10) [rule_format, OF x] ls] i(10)
      by (cases "y = intern l") (simp_all add: nth_list_update)
    moreover have "occ_clear S ((cm_occurrence f)[intern l := ?o'] ! y)"
      if "y < 2 * (n + 1)" "?mk ! y = ?idx" for y
      using that len cs i(7,11) x by (cases "y = intern l") (auto simp: nth_list_update)
    ultimately show ?thesis
      using i x unfolding rem_inv_def e
      by (auto simp: set_occ_def h_def nth_list_update)
  qed
  then show "rem_inv n S f1 occ0 so0 (removeFromLit l f)"
    "cm_markedLitRemove (removeFromLit l f) ! intern l = ?idx"
    "\<And>y. y < 2 * (n + 1) \<Longrightarrow> cm_markedLitRemove f ! y = ?idx \<Longrightarrow> cm_markedLitRemove (removeFromLit l f) ! y = ?idx"
    by blast+
qed

lemma removeFromLits_inv:
  assumes "rem_inv n S f1 occ0 so0 f" "\<forall>l\<in>set ls. intern l < 2 * (n + 1)"
    and S: "\<forall>i<m. isSat (cm_infoClauses f1 ! i) = S i"
    and win: "\<forall>x<2 * (n + 1). set (occ_getClauses (occ0 ! x)) \<subseteq> {..<m}"
  shows "rem_inv n S f1 occ0 so0 (fold removeFromLit ls f)
    \<and> (\<forall>l\<in>set ls. cm_markedLitRemove (fold removeFromLit ls f) ! intern l = cm_currentMarkedLitRemoveIndex f1)
    \<and> (\<forall>y<2 * (n + 1). cm_markedLitRemove f ! y = cm_currentMarkedLitRemoveIndex f1 \<longrightarrow>
         cm_markedLitRemove (fold removeFromLit ls f) ! y = cm_currentMarkedLitRemoveIndex f1)"
  using assms(1,2)
proof (induction ls arbitrary: f)
  case (Cons l ls)
  have x: "intern l < 2 * (n + 1)" using Cons.prems by simp
  note r = removeFromLit_inv [OF Cons.prems(1) x S win]
  have "rem_inv n S f1 occ0 so0 (fold removeFromLit ls (removeFromLit l f))
    \<and> (\<forall>k\<in>set ls. cm_markedLitRemove (fold removeFromLit ls (removeFromLit l f)) ! intern k = cm_currentMarkedLitRemoveIndex f1)
    \<and> (\<forall>y<2 * (n + 1). cm_markedLitRemove (removeFromLit l f) ! y = cm_currentMarkedLitRemoveIndex f1 \<longrightarrow>
         cm_markedLitRemove (fold removeFromLit ls (removeFromLit l f)) ! y = cm_currentMarkedLitRemoveIndex f1)"
    using Cons.IH [OF r(1)] Cons.prems(2) by simp
  then show ?case using r(2,3) x by auto
qed simp

section \<open>Propagating the true literals\<close>

definition start_ok where
  "start_ok n F T f \<longleftrightarrow> length (cm_occurrence f) = 2 * (n + 1)
     \<and> (\<forall>x<2 * (n + 1). occ_level F T x (cm_occurrence f ! x)) \<and> info_ok F T (cm_infoClauses f)
     \<and> clauses_ok F T (cm_clauses f)
     \<and> length (cm_markedLitStack f) = 2 * (n + 1)
     \<and> (\<forall>m\<in>set (cm_markedLitStack f). m < cm_currentMarkedLitStackIndex f)
     \<and> length (cm_markedLitRemove f) = 2 * (n + 1)
     \<and> (\<forall>m\<in>set (cm_markedLitRemove f). m \<le> cm_currentMarkedLitRemoveIndex f)
     \<and> cm_markedClauseIdx f = replicate (length F + 1) False \<and> \<not> cm_keepListNotSatisfiedClauses f"

lemma start_occ_ph:
  assumes "start_ok n F T f"
  shows "f_occ_ph n S (cm_occurrence f) (cm_savedStateOccs f) f"
    "f_cl_ph (length F) (cm_infoClauses f) (cm_savedStateClauses f) f"
proof -
  have s: "length (cm_occurrence f) = 2 * (n + 1)" "\<forall>x<2 * (n + 1). occ_level F T x (cm_occurrence f ! x)"
    "info_ok F T (cm_infoClauses f)" "length (cm_markedLitStack f) = 2 * (n + 1)"
    "\<forall>m\<in>set (cm_markedLitStack f). m < cm_currentMarkedLitStackIndex f"
    "cm_markedClauseIdx f = replicate (length F + 1) False"
    using assms unfolding start_ok_def by blast+
  have "loses S (cm_occurrence f ! x) (cm_occurrence f ! x)" if "x < 2 * (n + 1)" for x
    using level_clauses(4) [OF s(2) [rule_format, OF that]] loses_refl by blast
  moreover have "cm_markedLitStack f ! x \<noteq> cm_currentMarkedLitStackIndex f" if "x < 2 * (n + 1)" for x
    using s(4,5) that by (metis nat_neq_iff nth_mem)
  moreover have "\<forall>m\<in>set (cm_markedLitStack f). m \<le> cm_currentMarkedLitStackIndex f" using s(5) by auto
  ultimately show "f_occ_ph n S (cm_occurrence f) (cm_savedStateOccs f) f"
    unfolding occ_ph_def using s(1,4) by simp
  have "cm_markedClauseIdx f ! i = False" if "i < length F + 1" for i
    unfolding s(6) by (rule nth_replicate [OF that])
  then show "f_cl_ph (length F) (cm_infoClauses f) (cm_savedStateClauses f) f"
    using s(3) length_replicate [of "length F + 1" False] unfolding s(6) [symmetric]
    by (simp add: cl_ph_def info_ok_def)
qed

lemma fold_clauses:
  assumes "\<And>l g. cm_clauses (h l g) = cm_clauses g"
  shows "fold (\<lambda>i f. fold h (cm_clauses f ! i) f) is f = fold h (concat (map (\<lambda>i. cm_clauses f ! i) is)) f"
proof -
  have c: "cm_clauses (fold h ls f) = cm_clauses f" for ls f
    by (induction ls arbitrary: f) (simp_all add: assms)
  show ?thesis by (induction "is" arbitrary: f) (simp_all add: c)
qed

lemma removeFromLit_clauses: "cm_clauses (removeFromLit l f) = cm_clauses f"
  by (simp add: removeFromLit_def Let_def saveOcc_def set_occ_def)

lemma sat_by_Un: "sat_by (T \<union> U) c \<longleftrightarrow> sat_by T c \<or> sat_by U c"
  by (auto simp: sat_by_def)

lemma occ_level_next:
  assumes "occ_level F T x oc" "loses (\<lambda>i. sat_by (T \<union> U) (F ! i)) oc oc'"
    "occ_clear (\<lambda>i. sat_by (T \<union> U) (F ! i)) oc'"
  shows "occ_level F (T \<union> U) x oc'"
proof -
  obtain A B N Z where 1: "occ_is oc A B N Z" "mset B = mset (occB F T x)" "mset N = mset (occN F T x)"
    using assms(1) unfolding occ_level_def by blast
  obtain A1 B1 N1 Z1 where 2: "occ_is oc' A1 B1 N1 Z1" using loses_is [OF assms(2)] by blast
  have "\<forall>i\<in>set B1 \<union> set N1. \<not> sat_by (T \<union> U) (F ! i)"
    using assms(3) unfolding occ_clear_def occ_is_reads(3) [OF 2] by auto
  note f = loses_filter [OF assms(2) 1(1) 2 this]
  have m: "mset (filter Q xs) = filter_mset Q (mset xs)" for Q and xs :: "nat list" by simp
  have "mset B1 = mset (filter (\<lambda>i. \<not> sat_by (T \<union> U) (F ! i)) (occB F T x))"
    "mset N1 = mset (filter (\<lambda>i. \<not> sat_by (T \<union> U) (F ! i)) (occN F T x))"
    unfolding f m 1(2,3) by (rule refl)+
  moreover have "filter (\<lambda>i. \<not> sat_by (T \<union> U) (F ! i)) (occB F T x) = occB F (T \<union> U) x"
    "filter (\<lambda>i. \<not> sat_by (T \<union> U) (F ! i)) (occN F T x) = occN F (T \<union> U) x"
    unfolding occB_def occN_def filter_filter by (auto simp: sat_by_Un intro: filter_cong)
  ultimately show ?thesis unfolding occ_level_def using 2 by metis
qed

definition updated where
  "updated n F T U f1 g \<longleftrightarrow> frame f1 g
     \<and> (\<exists>S. f_occ_ph n S (cm_occurrence f1) (cm_savedStateOccs f1) g)
     \<and> f_cl_ph (length F) (cm_infoClauses f1) (cm_savedStateClauses f1) g
     \<and> (\<forall>i<length F. isSat (cm_infoClauses g ! i) = sat_by (T \<union> U) (F ! i))
     \<and> (\<forall>x<2 * (n + 1). occ_level F (T \<union> U) x (cm_occurrence g ! x))
     \<and> length (cm_markedLitRemove g) = 2 * (n + 1)
     \<and> (\<forall>m\<in>set (cm_markedLitRemove g). m \<le> cm_currentMarkedLitRemoveIndex g)"

lemma propagateTrue_ok:
  assumes st: "start_ok n F T f1" and F: "cnf_ok n F"
    and us: "distinct us" "\<forall>l\<in>set us. var l \<le> n"
  shows "updated n F T (set us) f1 (propagateTrue us f1)" "cm_clauses (propagateTrue us f1) = cm_clauses f1"
    "\<forall>i<length F. nbUnsat (cm_infoClauses (propagateTrue us f1) ! i) = nbUnsat (cm_infoClauses f1 ! i)"
proof -
  let ?S = "\<lambda>i. sat_by (T \<union> set us) (F ! i)"
  have s: "length (cm_occurrence f1) = 2 * (n + 1)" "\<forall>x<2 * (n + 1). occ_level F T x (cm_occurrence f1 ! x)"
    "info_ok F T (cm_infoClauses f1)" "clauses_ok F T (cm_clauses f1)"
    "length (cm_markedLitRemove f1) = 2 * (n + 1)"
    "\<forall>m\<in>set (cm_markedLitRemove f1). m \<le> cm_currentMarkedLitRemoveIndex f1"
    "\<not> cm_keepListNotSatisfiedClauses f1"
    using st unfolding start_ok_def by blast+
  let ?f0 = "f1\<lparr>cm_indexSatClauses := []\<rparr>"
  have i0: "sat_inv n F T ?S f1 {} ?f0"
    using start_occ_ph [OF st] s(3) unfolding sat_inv_def
    by (simp add: frame_def info_ok_def sat_by_def)
  have usr: "\<forall>l\<in>set us. intern l < 2 * (n + 1)"
  proof
    fix l assume "l \<in> set us"
    then have "var l < n + 1" using us(2) by auto
    then show "intern l < 2 * (n + 1)" using intern_bound by blast
  qed
  define f where "f = fold satisfyLit us ?f0"
  have inv: "sat_inv n F T ?S f1 (set us) f"
    unfolding f_def using satisfyLits_inv [OF i0 us(1) _ usr s(2)] by (auto simp: sat_by_def)
  have i: "frame f1 f" "cm_clauses f = cm_clauses f1" "f_occ_ph n ?S (cm_occurrence f1) (cm_savedStateOccs f1) f"
    "f_cl_ph (length F) (cm_infoClauses f1) (cm_savedStateClauses f1) f"
    "\<forall>i<length F. isSat (cm_infoClauses f ! i) = (sat_by T (F ! i) \<or> sat_by (set us) (F ! i))"
    "\<forall>i<length F. nbUnsat (cm_infoClauses f ! i) = nbUnsat (cm_infoClauses f1 ! i)"
    "set (cm_indexSatClauses f) = {i. i < length F \<and> \<not> sat_by T (F ! i) \<and> sat_by (set us) (F ! i)}"
    "\<forall>l\<in>set us. occ_clear ?S (occ_of f l)"
    "\<forall>x<2 * (n + 1). x \<notin> intern ` set us \<longrightarrow> cm_occurrence f ! x = cm_occurrence f1 ! x"
    "cm_markedLitRemove f = cm_markedLitRemove f1"
    "cm_currentMarkedLitRemoveIndex f = cm_currentMarkedLitRemoveIndex f1"
    using inv unfolding sat_inv_def by blast+
  define fr where "fr = f\<lparr>cm_currentMarkedLitRemoveIndex := cm_currentMarkedLitRemoveIndex f + 1\<rparr>"
  have frl: "cm_markedLitRemove fr ! x \<noteq> cm_currentMarkedLitRemoveIndex fr" if "x < 2 * (n + 1)" for x
  proof -
    have "cm_markedLitRemove f1 ! x \<le> cm_currentMarkedLitRemoveIndex f1" using s(5,6) that by simp
    then show ?thesis using i(10,11) by (simp add: fr_def)
  qed
  have r0: "rem_inv n ?S fr (cm_occurrence f1) (cm_savedStateOccs f1) fr"
    unfolding rem_inv_def
  proof (intro conjI)
    show "\<forall>x<2 * (n + 1). loses ?S (cm_occurrence fr ! x) (cm_occurrence fr ! x)"
      using i(3) loses_is loses_refl unfolding occ_ph_def fr_def by fastforce
    show "\<forall>x<2 * (n + 1). cm_markedLitRemove fr ! x = cm_currentMarkedLitRemoveIndex fr \<longrightarrow>
        occ_clear ?S (cm_occurrence fr ! x)" using frl by blast
    show "f_occ_ph n ?S (cm_occurrence f1) (cm_savedStateOccs f1) fr" using i(3) by (simp add: fr_def)
    show "\<forall>k\<in>set (cm_markedLitRemove fr). k \<le> cm_currentMarkedLitRemoveIndex fr"
      using s(6) i(10,11) by (auto simp: fr_def)
  qed (use s(5) i(10) in \<open>simp_all add: fr_def\<close>)
  define ls where "ls = concat (map (\<lambda>i. cm_clauses f ! i) (cm_indexSatClauses f))"
  have cls: "set (cm_clauses f ! k) = set (F ! k)" if "k < length F" for k
    using s(4) i(2) that unfolding clauses_ok_def by (metis set_mset_mset)
  have lsF: "l \<in> set ls \<longleftrightarrow> (\<exists>k\<in>set (cm_indexSatClauses f). l \<in> set (F ! k))" for l
    using cls i(7) by (auto simp: ls_def)
  have lsr: "\<forall>l\<in>set ls. intern l < 2 * (n + 1)"
  proof
    fix l assume "l \<in> set ls"
    then obtain k where "k < length F" "l \<in> set (F ! k)" using lsF i(7) by auto
    then have "F ! k \<in> set F" "l \<in> set (F ! k)" by simp_all
    then have "var l \<le> n" using F by (simp add: cnf_ok_def clause_ok_def)
    then have "var l < n + 1" by simp
    then show "intern l < 2 * (n + 1)" using intern_bound by blast
  qed
  have Sinfo: "\<forall>k<length F. isSat (cm_infoClauses fr ! k) = ?S k" using i(5) by (simp add: fr_def sat_by_Un)
  have win: "\<forall>x<2 * (n + 1). set (occ_getClauses (cm_occurrence f1 ! x)) \<subseteq> {..<length F}"
    using level_clauses(1) s(2) by blast
  define g where "g = fold removeFromLit ls fr"
  have rm: "rem_inv n ?S fr (cm_occurrence f1) (cm_savedStateOccs f1) g"
    "\<forall>l\<in>set ls. cm_markedLitRemove g ! intern l = cm_currentMarkedLitRemoveIndex fr"
    using removeFromLits_inv [OF r0 lsr Sinfo win] unfolding g_def by blast+
  have pt: "propagateTrue us f1 = g"
  proof -
    have "fold (\<lambda>idxCl f. fold removeFromLit (cm_clauses f ! idxCl) f) (cm_indexSatClauses f) fr =
        fold removeFromLit (concat (map (\<lambda>i. cm_clauses fr ! i) (cm_indexSatClauses f))) fr"
      by (rule fold_clauses) (rule removeFromLit_clauses)
    also have "\<dots> = g" by (simp add: g_def ls_def fr_def)
    finally have e: "fold (\<lambda>idxCl f. fold removeFromLit (cm_clauses f ! idxCl) f) (cm_indexSatClauses f) fr = g" .
    have "\<not> cm_keepListNotSatisfiedClauses g" using rm(1) i(1) s(7) by (simp add: rem_inv_def frame_def fr_def)
    then show ?thesis
      unfolding propagateTrue_def Let_def f_def [symmetric] removeSatisfiedClauses_def fr_def [symmetric] e
      by (simp add: updateNotSatisfied_def)
  qed
  have R: "frame fr g" "cm_clauses g = cm_clauses fr" "cm_infoClauses g = cm_infoClauses fr"
    "cm_savedStateClauses g = cm_savedStateClauses fr" "cm_markedClauseIdx g = cm_markedClauseIdx fr"
    "f_occ_ph n ?S (cm_occurrence f1) (cm_savedStateOccs f1) g" "length (cm_markedLitRemove g) = 2 * (n + 1)"
    "\<forall>k\<in>set (cm_markedLitRemove g). k \<le> cm_currentMarkedLitRemoveIndex g"
    "cm_currentMarkedLitRemoveIndex g = cm_currentMarkedLitRemoveIndex fr"
    "\<forall>x<2 * (n + 1). loses ?S (cm_occurrence fr ! x) (cm_occurrence g ! x)"
    "\<forall>x<2 * (n + 1). cm_markedLitRemove g ! x = cm_currentMarkedLitRemoveIndex g \<longrightarrow> occ_clear ?S (cm_occurrence g ! x)"
    using rm(1) unfolding rem_inv_def by blast+
  have clear: "occ_clear ?S (cm_occurrence g ! x)" if x: "x < 2 * (n + 1)" for x
  proof (cases "x \<in> intern ` set us \<or> x \<in> intern ` set ls")
    case True
    then show ?thesis
    proof
      assume "x \<in> intern ` set us"
      then have "occ_clear ?S (cm_occurrence fr ! x)" using i(8) by (auto simp: fr_def occ_of_def)
      then show ?thesis using loses_clear R(10) x by blast
    next
      assume "x \<in> intern ` set ls"
      then show ?thesis using R(9,11) rm(2) x by auto
    qed
  next
    case False
    have "\<not> ?S k" if k: "k \<in> set (occ_getClauses (cm_occurrence g ! x))" for k
    proof
      assume sk: "?S k"
      have "k \<in> set (occ_getClauses (cm_occurrence fr ! x))" using loses_clauses_subset R(10) x k by blast
      moreover have "cm_occurrence fr ! x = cm_occurrence f1 ! x" using i(9) False x by (simp add: fr_def)
      ultimately have "k < length F" "\<not> sat_by T (F ! k)" "\<exists>l\<in>set (F ! k). intern l = x"
        using level_clauses(1) [OF s(2) [rule_format, OF x]] by auto
      moreover from this sk have "k \<in> set (cm_indexSatClauses f)" using i(7) by (simp add: sat_by_Un)
      ultimately show False using False lsF by blast
    qed
    then show ?thesis by (simp add: occ_clear_def)
  qed
  have "occ_level F (T \<union> set us) x (cm_occurrence g ! x)" if x: "x < 2 * (n + 1)" for x
  proof (rule occ_level_next)
    show "occ_level F T x (cm_occurrence f1 ! x)" using s(2) x by blast
    show "loses ?S (cm_occurrence f1 ! x) (cm_occurrence g ! x)" using R(6) x by (simp add: occ_ph_def)
    show "occ_clear ?S (cm_occurrence g ! x)" by (rule clear [OF x])
  qed
  moreover have "frame f1 g" using i(1) R(1) by (simp add: frame_def fr_def)
  moreover have "f_cl_ph (length F) (cm_infoClauses f1) (cm_savedStateClauses f1) g"
    using i(4) R(3-5) by (simp add: fr_def)
  ultimately show "updated n F T (set us) f1 (propagateTrue us f1)"
    unfolding updated_def pt using R(3,6-8) Sinfo by auto
  show "cm_clauses (propagateTrue us f1) = cm_clauses f1" unfolding pt using R(2) i(2) by (simp add: fr_def)
  show "\<forall>i<length F. nbUnsat (cm_infoClauses (propagateTrue us f1) ! i) = nbUnsat (cm_infoClauses f1 ! i)"
    unfolding pt using R(3) i(6) by (simp add: fr_def)
qed

end
