(* ===== verification/CnfPropagate.thy ===== *)
theory CnfPropagate
  imports CnfUpdate
begin

text \<open>
  The second half of \<^verbatim>\<open>preUpdate\<close>, the counters and watched literals of the clauses that lose a
  literal, and the two laws of the trail: \<^verbatim>\<open>preUpdate\<close> establishes the invariant for the longer
  trail and \<^verbatim>\<open>postUpdate\<close> restores the one before.
\<close>

section \<open>Falsified literals\<close>

text \<open>All that \<^verbatim>\<open>falsifyInClause\<close> and \<^verbatim>\<open>reviewClause\<close> leave alone.\<close>

definition same_rest :: "'z cnfManagerDyn_scheme \<Rightarrow> 'z cnfManagerDyn_scheme \<Rightarrow> bool" where
  "same_rest f g \<longleftrightarrow> frame f g \<and> cm_occurrence g = cm_occurrence f \<and> cm_savedStateOccs g = cm_savedStateOccs f
     \<and> cm_markedLitStack g = cm_markedLitStack f \<and> cm_markedLitRemove g = cm_markedLitRemove f
     \<and> cm_currentMarkedLitRemoveIndex g = cm_currentMarkedLitRemoveIndex f"

lemma same_rest_refl [simp]: "same_rest f f"
  by (simp add: same_rest_def)

lemma same_rest_trans: "same_rest f g \<Longrightarrow> same_rest g h \<Longrightarrow> same_rest f h"
  by (auto simp: same_rest_def intro: frame_trans)

lemma falsify_rest [simp]: "same_rest f (falsifyInClause l i f)"
  by (simp add: same_rest_def falsifyInClause_def Let_def saveClause_def frame_def)

lemma review_rest [simp]: "same_rest f (reviewClause i f)"
  by (simp add: same_rest_def reviewClause_def frame_def split: option.splits)

lemma falsify_clauses [simp]: "cm_clauses (falsifyInClause l i f) = cm_clauses f"
  by (simp add: falsifyInClause_def Let_def)

lemma falsify_step:
  assumes ph: "f_cl_ph m info0 sc0 f" and i: "i < m"
  shows "f_cl_ph m info0 sc0 (falsifyInClause l i f)"
    "cm_infoClauses (falsifyInClause l i f) =
       (cm_infoClauses f)[i := (cm_infoClauses f ! i)\<lparr>nbUnsat := nbUnsat (cm_infoClauses f ! i) + 1\<rparr>]"
    "set (cm_reviewWatcher (falsifyInClause l i f)) =
       set (cm_reviewWatcher f) \<union> {k. k = i \<and> cm_clauses f ! i ! 0 = neg l}"
proof -
  let ?b = "isSat (cm_infoClauses f ! i)"
  let ?ci = "(cm_infoClauses f ! i)\<lparr>nbUnsat := nbUnsat (cm_infoClauses f ! i) + 1\<rparr>"
  have b: "\<not> cm_markedClauseIdx f ! i \<Longrightarrow> ?b = isSat (info0 ! i)"
    using ph i unfolding cl_ph_def by metis
  note s = saveClause_ph [OF ph i b]
  have "f_cl_ph m info0 sc0 ((saveClause i ?b f)\<lparr>cm_infoClauses := (cm_infoClauses (saveClause i ?b f))[i := ?ci]\<rparr>)"
  proof (rule info_update_ph [OF s(1) i s(2)])
    show "xorLitBin ?ci = xorLitBin (cm_infoClauses (saveClause i ?b f) ! i)" by simp
  qed auto
  then show "f_cl_ph m info0 sc0 (falsifyInClause l i f)"
    by (simp add: falsifyInClause_def Let_def)
qed (auto simp: falsifyInClause_def Let_def)

lemma falsify_list:
  assumes "f_cl_ph m info0 sc0 f" "\<forall>i\<in>set is. i < m" "distinct is"
  shows "f_cl_ph m info0 sc0 (fold (falsifyInClause l) is f) \<and> same_rest f (fold (falsifyInClause l) is f)
    \<and> cm_clauses (fold (falsifyInClause l) is f) = cm_clauses f
    \<and> (\<forall>k<m. isSat (cm_infoClauses (fold (falsifyInClause l) is f) ! k) = isSat (cm_infoClauses f ! k)
        \<and> nbUnsat (cm_infoClauses (fold (falsifyInClause l) is f) ! k) =
            nbUnsat (cm_infoClauses f ! k) + (if k \<in> set is then 1 else 0))
    \<and> set (cm_reviewWatcher (fold (falsifyInClause l) is f)) =
        set (cm_reviewWatcher f) \<union> {k \<in> set is. cm_clauses f ! k ! 0 = neg l}"
  using assms
proof (induction "is" arbitrary: f)
  case (Cons i "is")
  let ?g = "falsifyInClause l i f"
  have i: "i < m" using Cons.prems by simp
  note s = falsify_step [OF Cons.prems(1) i, of l]
  have len: "length (cm_infoClauses f) = m" using Cons.prems by (simp add: cl_ph_def)
  note IH = Cons.IH [OF s(1)]
  have g: "isSat (cm_infoClauses ?g ! k) = isSat (cm_infoClauses f ! k)"
    "nbUnsat (cm_infoClauses ?g ! k) = nbUnsat (cm_infoClauses f ! k) + (if k = i then 1 else 0)" for k
    unfolding s(2) using i len by (auto simp: nth_list_update)
  have "same_rest f (fold (falsifyInClause l) is ?g)"
    by (rule same_rest_trans [OF falsify_rest [of f l i]]) (use IH Cons.prems in simp)
  moreover have "set (cm_reviewWatcher (fold (falsifyInClause l) is ?g)) =
      set (cm_reviewWatcher f) \<union> {k \<in> set (i # is). cm_clauses f ! k ! 0 = neg l}"
    using IH Cons.prems s(3) by auto
  ultimately show ?case using IH Cons.prems g by simp
qed simp

definition fals_inv where
  "fals_inv m info0 sc0 g L f \<longleftrightarrow> f_cl_ph m info0 sc0 f \<and> same_rest g f \<and> cm_clauses f = cm_clauses g
    \<and> (\<forall>k<m. isSat (cm_infoClauses f ! k) = isSat (cm_infoClauses g ! k)
        \<and> nbUnsat (cm_infoClauses f ! k) =
            nbUnsat (cm_infoClauses g ! k) + card {l \<in> L. k \<in> set (getVecIdxClauseNotBin g (neg l))})
    \<and> set (cm_reviewWatcher f) =
        {k. \<exists>l\<in>L. k \<in> set (getVecIdxClauseNotBin g (neg l)) \<and> cm_clauses g ! k ! 0 = neg l}"

lemma falsify_lits:
  assumes "fals_inv m info0 sc0 g L f" "distinct us" "set us \<inter> L = {}" "finite L"
    "\<forall>l\<in>set us. distinct (getVecIdxClauseNotBin g (neg l)) \<and> set (getVecIdxClauseNotBin g (neg l)) \<subseteq> {..<m}"
  shows "fals_inv m info0 sc0 g (L \<union> set us)
    (fold (\<lambda>l f. fold (falsifyInClause l) (getVecIdxClauseNotBin f (neg l)) f) us f)"
  using assms
proof (induction us arbitrary: L f)
  case (Cons l us)
  let ?N = "\<lambda>l. getVecIdxClauseNotBin g (neg l)"
  have i: "f_cl_ph m info0 sc0 f" "same_rest g f" "cm_clauses f = cm_clauses g"
    "\<forall>k<m. isSat (cm_infoClauses f ! k) = isSat (cm_infoClauses g ! k)
        \<and> nbUnsat (cm_infoClauses f ! k) = nbUnsat (cm_infoClauses g ! k) + card {l \<in> L. k \<in> set (?N l)}"
    "set (cm_reviewWatcher f) = {k. \<exists>l\<in>L. k \<in> set (?N l) \<and> cm_clauses g ! k ! 0 = neg l}"
    using Cons.prems(1) unfolding fals_inv_def by blast+
  have e: "getVecIdxClauseNotBin f (neg l) = ?N l"
    using i(2) by (simp add: getVecIdxClauseNotBin_def occ_of_def same_rest_def)
  let ?h = "fold (falsifyInClause l) (?N l) f"
  have h: "f_cl_ph m info0 sc0 ?h" "same_rest f ?h" "cm_clauses ?h = cm_clauses f"
    "\<forall>k<m. isSat (cm_infoClauses ?h ! k) = isSat (cm_infoClauses f ! k)
        \<and> nbUnsat (cm_infoClauses ?h ! k) = nbUnsat (cm_infoClauses f ! k) + (if k \<in> set (?N l) then 1 else 0)"
    "set (cm_reviewWatcher ?h) = set (cm_reviewWatcher f) \<union> {k \<in> set (?N l). cm_clauses f ! k ! 0 = neg l}"
  proof -
    have "\<forall>i\<in>set (?N l). i < m" "distinct (?N l)" using Cons.prems(5) by auto
    from falsify_list [OF i(1) this, of l] show "f_cl_ph m info0 sc0 ?h" "same_rest f ?h" "cm_clauses ?h = cm_clauses f"
      "\<forall>k<m. isSat (cm_infoClauses ?h ! k) = isSat (cm_infoClauses f ! k)
        \<and> nbUnsat (cm_infoClauses ?h ! k) = nbUnsat (cm_infoClauses f ! k) + (if k \<in> set (?N l) then 1 else 0)"
      "set (cm_reviewWatcher ?h) = set (cm_reviewWatcher f) \<union> {k \<in> set (?N l). cm_clauses f ! k ! 0 = neg l}"
      by blast+
  qed
  have "card {l' \<in> insert l L. k \<in> set (?N l')} =
      card {l' \<in> L. k \<in> set (?N l')} + (if k \<in> set (?N l) then 1 else 0)" for k
  proof -
    define X where "X = {l' \<in> L. k \<in> set (?N l')}"
    have "{l' \<in> insert l L. k \<in> set (?N l')} = (if k \<in> set (?N l) then insert l X else X)"
      by (auto simp: X_def)
    moreover have "l \<notin> X" "finite X" using Cons.prems(3,4) by (simp_all add: X_def)
    ultimately show ?thesis unfolding X_def [symmetric] by simp
  qed
  then have "fals_inv m info0 sc0 g (insert l L) ?h"
    unfolding fals_inv_def using h i same_rest_trans [OF i(2) h(2)] by auto
  from Cons.IH [OF this] Cons.prems show ?case by (simp add: e)
qed simp

section \<open>The watched literals\<close>

lemma findUnassigned_ok:
  "findUnassigned val c i = Some k \<Longrightarrow> i \<le> k \<and> k < i + length c \<and> val ! var (c ! (k - i)) = l_Undef"
  "findUnassigned val c i = None \<Longrightarrow> \<forall>l\<in>set c. val ! var l \<noteq> l_Undef"
proof -
  show "findUnassigned val c i = Some k \<Longrightarrow> i \<le> k \<and> k < i + length c \<and> val ! var (c ! (k - i)) = l_Undef"
  proof (induction c arbitrary: i)
    case (Cons l c)
    show ?case
    proof (cases "val ! var l = l_Undef")
      case True
      then show ?thesis using Cons.prems by auto
    next
      case False
      then have "i + 1 \<le> k \<and> k < i + 1 + length c \<and> val ! var (c ! (k - (i + 1))) = l_Undef"
        using Cons.IH [of "i + 1"] Cons.prems False by simp
      moreover from this have "(l # c) ! (k - i) = c ! (k - (i + 1))"
        by (simp add: nth_Cons')
      ultimately show ?thesis by simp
    qed
  qed simp
  show "findUnassigned val c i = None \<Longrightarrow> \<forall>l\<in>set c. val ! var l \<noteq> l_Undef"
    by (induction c arbitrary: i) (auto split: if_splits)
qed

lemma swap_first:
  assumes "k < length c"
  shows "mset (swap_at c 0 k) = mset c" "swap_at c 0 k ! 0 = c ! k"
proof -
  have 0: "0 < length c" using assms by auto
  then show "mset (swap_at c 0 k) = mset c" using mset_swap [OF assms 0] by (simp add: swap_at_def)
  show "swap_at c 0 k ! 0 = c ! k" using 0 assms by (auto simp: swap_at_def nth_list_update)
qed

text \<open>One clause is reviewed: its literals are the same, and its first one is unassigned if possible.\<close>

lemma reviewClause_ok:
  assumes "i < length (cm_clauses f)"
  shows "same_clauses (cm_currentValue f) (cm_clauses f) (cm_clauses (reviewClause i f))"
    "cm_infoClauses (reviewClause i f) = cm_infoClauses f" "cm_currentValue (reviewClause i f) = cm_currentValue f"
    "cm_savedStateClauses (reviewClause i f) = cm_savedStateClauses f"
    "cm_markedClauseIdx (reviewClause i f) = cm_markedClauseIdx f"
    "\<not> isSat (cm_infoClauses f ! i) \<Longrightarrow> \<exists>l\<in>set (cm_clauses f ! i). cm_currentValue f ! var l = l_Undef \<Longrightarrow>
       cm_currentValue f ! var (cm_clauses (reviewClause i f) ! i ! 0) = l_Undef"
proof -
  let ?r = "findUnassigned (cm_currentValue f) (drop 1 (cm_clauses f ! i)) 1"
  have some: "1 \<le> k \<and> k < length (cm_clauses f ! i) \<and> cm_currentValue f ! var (cm_clauses f ! i ! k) = l_Undef"
    if "?r = Some k" for k
    using findUnassigned_ok(1) [OF that] by (auto simp: nth_drop)
  show "cm_infoClauses (reviewClause i f) = cm_infoClauses f" "cm_currentValue (reviewClause i f) = cm_currentValue f"
    "cm_savedStateClauses (reviewClause i f) = cm_savedStateClauses f"
    "cm_markedClauseIdx (reviewClause i f) = cm_markedClauseIdx f"
    by (auto simp: reviewClause_def split: option.splits)
  show "same_clauses (cm_currentValue f) (cm_clauses f) (cm_clauses (reviewClause i f))"
  proof (cases ?r)
    case None
    then show ?thesis by (simp add: reviewClause_def same_clauses_def)
  next
    case (Some k)
    then show ?thesis using some [OF Some] swap_first [of k "cm_clauses f ! i"] assms
      by (auto simp: reviewClause_def same_clauses_def nth_list_update)
  qed
  assume ns: "\<not> isSat (cm_infoClauses f ! i)" and u: "\<exists>l\<in>set (cm_clauses f ! i). cm_currentValue f ! var l = l_Undef"
  show "cm_currentValue f ! var (cm_clauses (reviewClause i f) ! i ! 0) = l_Undef"
  proof (cases ?r)
    case None
    from u have ne: "cm_clauses f ! i = hd (cm_clauses f ! i) # drop 1 (cm_clauses f ! i)"
      by (cases "cm_clauses f ! i") auto
    from u findUnassigned_ok(2) [OF None]
    have "cm_currentValue f ! var (hd (cm_clauses f ! i)) = l_Undef" by (subst (asm) ne) auto
    then have "cm_currentValue f ! var (cm_clauses f ! i ! 0) = l_Undef" by (subst ne) simp
    then show ?thesis using None ns by (simp add: reviewClause_def)
  next
    case (Some k)
    then show ?thesis using some [OF Some] swap_first [of k "cm_clauses f ! i"] assms ns
      by (auto simp: reviewClause_def nth_list_update)
  qed
qed

lemma same_clauses_refl [simp]: "same_clauses val cls cls"
  by (simp add: same_clauses_def)

lemma same_clauses_trans: "same_clauses val a b \<Longrightarrow> same_clauses val b c \<Longrightarrow> same_clauses val a c"
  unfolding same_clauses_def by (metis)

lemma reviewClauses_ok:
  assumes "\<forall>i\<in>set is. i < length (cm_clauses f)"
  shows "same_clauses (cm_currentValue f) (cm_clauses f) (cm_clauses (fold reviewClause is f))
    \<and> cm_infoClauses (fold reviewClause is f) = cm_infoClauses f
    \<and> cm_savedStateClauses (fold reviewClause is f) = cm_savedStateClauses f
    \<and> cm_markedClauseIdx (fold reviewClause is f) = cm_markedClauseIdx f
    \<and> same_rest f (fold reviewClause is f)
    \<and> (\<forall>i\<in>set is. \<not> isSat (cm_infoClauses f ! i) \<longrightarrow>
         (\<exists>l\<in>set (cm_clauses f ! i). cm_currentValue f ! var l = l_Undef) \<longrightarrow>
         cm_currentValue f ! var (cm_clauses (fold reviewClause is f) ! i ! 0) = l_Undef)"
  using assms
proof (induction "is" arbitrary: f)
  case (Cons k ks)
  have k: "k < length (cm_clauses f)" using Cons.prems by simp
  note r = reviewClause_ok [OF k]
  let ?g = "reviewClause k f"
  have lg: "length (cm_clauses ?g) = length (cm_clauses f)" using r(1) by (simp add: same_clauses_def)
  have ms: "set (cm_clauses ?g ! i) = set (cm_clauses f ! i)" if "i < length (cm_clauses f)" for i
    using r(1) that unfolding same_clauses_def by (metis set_mset_mset)
  have IH: "same_clauses (cm_currentValue f) (cm_clauses ?g) (cm_clauses (fold reviewClause ks ?g))"
    "cm_infoClauses (fold reviewClause ks ?g) = cm_infoClauses f"
    "cm_savedStateClauses (fold reviewClause ks ?g) = cm_savedStateClauses f"
    "cm_markedClauseIdx (fold reviewClause ks ?g) = cm_markedClauseIdx f"
    "same_rest ?g (fold reviewClause ks ?g)"
    "\<forall>i\<in>set ks. \<not> isSat (cm_infoClauses f ! i) \<longrightarrow>
         (\<exists>l\<in>set (cm_clauses ?g ! i). cm_currentValue f ! var l = l_Undef) \<longrightarrow>
         cm_currentValue f ! var (cm_clauses (fold reviewClause ks ?g) ! i ! 0) = l_Undef"
    using Cons.IH [of ?g] Cons.prems lg r(2-5) by simp_all
  have kk: "cm_currentValue f ! var (cm_clauses (fold reviewClause ks ?g) ! k ! 0) = l_Undef"
    if "cm_currentValue f ! var (cm_clauses ?g ! k ! 0) = l_Undef"
    using IH(1) k lg that unfolding same_clauses_def by metis
  have "same_clauses (cm_currentValue f) (cm_clauses f) (cm_clauses (fold reviewClause ks ?g))"
    using same_clauses_trans [OF r(1) IH(1)] .
  moreover have "same_rest f (fold reviewClause ks ?g)" by (rule same_rest_trans [OF review_rest IH(5)])
  ultimately show ?case using IH(2-4,6) r(6) kk ms Cons.prems by simp
qed simp


lemma neg_counts:
  assumes "T \<inter> set us = {}"
  shows "card {l \<in> set c. neg l \<in> T \<union> set us} =
    card {l \<in> set c. neg l \<in> T} + card {l \<in> set us. neg l \<in> set c}"
proof -
  have "{l \<in> set c. neg l \<in> T \<union> set us} = {l \<in> set c. neg l \<in> T} \<union> {l \<in> set c. neg l \<in> set us}" by auto
  moreover have "{l \<in> set c. neg l \<in> T} \<inter> {l \<in> set c. neg l \<in> set us} = {}" using assms by auto
  ultimately have "card {l \<in> set c. neg l \<in> T \<union> set us} =
      card {l \<in> set c. neg l \<in> T} + card {l \<in> set c. neg l \<in> set us}"
    by (simp add: card_Un_disjoint)
  moreover have "{l \<in> set c. neg l \<in> set us} = neg ` {l \<in> set us. neg l \<in> set c}" by force
  moreover have "inj_on neg {l \<in> set us. neg l \<in> set c}" by (rule inj_onI) (metis neg_neg)
  ultimately show ?thesis by (simp add: card_image)
qed

lemma propagateFalse_ok:
  assumes st: "start_ok n F T f1" and F: "cnf_ok n F" and us: "distinct us" "\<forall>l\<in>set us. var l \<le> n"
    and dj: "T \<inter> set us = {}"
    and val: "\<forall>v\<le>n. cm_currentValue f1 ! v = value_of (T \<union> set us) v"
    and g: "g = propagateTrue us f1" and h: "h = propagateFalseInNotBin us g"
  shows "same_rest g h" "f_cl_ph (length F) (cm_infoClauses f1) (cm_savedStateClauses f1) h"
    "info_ok F (T \<union> set us) (cm_infoClauses h)" "clauses_ok F (T \<union> set us) (cm_clauses h)"
    "same_clauses (cm_currentValue f1) (cm_clauses f1) (cm_clauses h)"
proof -
  let ?T = "T \<union> set us" and ?m = "length F"
  note pt = propagateTrue_ok [OF st F us, folded g]
  have s: "info_ok F T (cm_infoClauses f1)" "clauses_ok F T (cm_clauses f1)"
    using st unfolding start_ok_def by blast+
  have u: "frame f1 g" "f_cl_ph ?m (cm_infoClauses f1) (cm_savedStateClauses f1) g"
    "\<forall>i<?m. isSat (cm_infoClauses g ! i) = sat_by ?T (F ! i)"
    "\<forall>x<2 * (n + 1). occ_level F ?T x (cm_occurrence g ! x)"
    using pt(1) unfolding updated_def by blast+
  let ?N = "\<lambda>l. getVecIdxClauseNotBin g (neg l)"
  have lit: "intern (neg l) < 2 * (n + 1)" if "l \<in> set us" for l
  proof -
    have "var (neg l) < n + 1" using us(2) that by auto
    then show ?thesis using intern_bound by blast
  qed
  have msN: "mset (?N l) = mset (occN F ?T (intern (neg l)))" if "l \<in> set us" for l
    using level_clauses(2) u(4) lit [OF that] by (simp add: getVecIdxClauseNotBin_def occ_of_def)
  have setN: "set (?N l) = {i. i < ?m \<and> length (F ! i) \<noteq> 2 \<and> \<not> sat_by ?T (F ! i) \<and> neg l \<in> set (F ! i)}"
    if l: "l \<in> set us" for l
  proof -
    have "set (?N l) = set (occN F ?T (intern (neg l)))" using msN [OF l] by (metis set_mset_mset)
    then show ?thesis by (auto simp: occN_def set_occurrenceIdx)
  qed
  have dN: "distinct (?N l)" if "l \<in> set us" for l
    using msN [OF that] distinct_occ(2) [OF F] by (metis mset_eq_imp_distinct_iff)
  let ?g0 = "g\<lparr>cm_reviewWatcher := []\<rparr>"
  have N0: "getVecIdxClauseNotBin ?g0 l = getVecIdxClauseNotBin g l" for l
    by (simp add: getVecIdxClauseNotBin_def occ_of_def)
  define f where "f = fold (\<lambda>l f. fold (falsifyInClause l) (getVecIdxClauseNotBin f (neg l)) f) us ?g0"
  have "fals_inv ?m (cm_infoClauses f1) (cm_savedStateClauses f1) ?g0 ({} \<union> set us) f"
    unfolding f_def
  proof (rule falsify_lits)
    show "fals_inv ?m (cm_infoClauses f1) (cm_savedStateClauses f1) ?g0 {} ?g0"
      using u(2) by (simp add: fals_inv_def)
    show "\<forall>l\<in>set us. distinct (getVecIdxClauseNotBin ?g0 (neg l)) \<and> set (getVecIdxClauseNotBin ?g0 (neg l)) \<subseteq> {..<?m}"
      unfolding N0 using dN setN by auto
  qed (use us in auto)
  then have i: "f_cl_ph ?m (cm_infoClauses f1) (cm_savedStateClauses f1) f" "same_rest ?g0 f"
    "cm_clauses f = cm_clauses f1"
    "\<forall>k<?m. isSat (cm_infoClauses f ! k) = sat_by ?T (F ! k)"
    "\<forall>k<?m. nbUnsat (cm_infoClauses f ! k) = nbUnsat (cm_infoClauses f1 ! k) + card {l \<in> set us. k \<in> set (?N l)}"
    "set (cm_reviewWatcher f) = {k. \<exists>l\<in>set us. k \<in> set (?N l) \<and> cm_clauses f1 ! k ! 0 = neg l}"
    using pt(2,3) u(3) unfolding fals_inv_def N0 by simp_all
  have hf: "h = fold reviewClause (cm_reviewWatcher f) f"
    by (simp add: h propagateFalseInNotBin_def f_def Let_def)
  have cv: "cm_currentValue f = cm_currentValue f1" using i(2) u(1) by (simp add: same_rest_def frame_def)
  have "\<forall>k\<in>set (cm_reviewWatcher f). k < length (cm_clauses f)"
    using i(3,6) setN s(2) by (auto simp: clauses_ok_def)
  note rv = reviewClauses_ok [OF this, folded hf, unfolded cv i(3)]
  from rv have r: "same_clauses (cm_currentValue f1) (cm_clauses f1) (cm_clauses h)"
    "cm_infoClauses h = cm_infoClauses f" "cm_savedStateClauses h = cm_savedStateClauses f"
    "cm_markedClauseIdx h = cm_markedClauseIdx f" "same_rest f h"
    "\<forall>k\<in>set (cm_reviewWatcher f). \<not> isSat (cm_infoClauses f ! k) \<longrightarrow>
       (\<exists>l\<in>set (cm_clauses f1 ! k). cm_currentValue f1 ! var l = l_Undef) \<longrightarrow>
       cm_currentValue f1 ! var (cm_clauses h ! k ! 0) = l_Undef"
    by blast+
  show "same_clauses (cm_currentValue f1) (cm_clauses f1) (cm_clauses h)" by (rule r(1))
  have "same_rest g ?g0" by (simp add: same_rest_def frame_def)
  then show "same_rest g h" using same_rest_trans i(2) r(5) by blast
  show "f_cl_ph ?m (cm_infoClauses f1) (cm_savedStateClauses f1) h" using i(1) r(2-4) by simp
  show "info_ok F ?T (cm_infoClauses h)"
    unfolding info_ok_def r(2)
  proof (intro conjI allI impI)
    show "length (cm_infoClauses f) = ?m" using i(1) by (simp add: cl_ph_def)
    fix k assume k: "k < ?m"
    show "isSat (cm_infoClauses f ! k) = sat_by ?T (F ! k)" using i(4) k by blast
    show "length (F ! k) = 2 \<Longrightarrow> xorLitBin (cm_infoClauses f ! k) = intern (F ! k ! 0) XOR intern (F ! k ! 1)"
      using i(1) s(1) k by (simp add: cl_ph_def info_ok_def)
    assume ns: "\<not> sat_by ?T (F ! k)"
    then have "\<not> sat_by T (F ! k)" by (simp add: sat_by_Un)
    then have n1: "nbUnsat (cm_infoClauses f1 ! k) = (if length (F ! k) = 2 then 0 else card {l \<in> set (F ! k). neg l \<in> T})"
      using s(1) k by (simp add: info_ok_def)
    have e: "{l \<in> set us. k \<in> set (?N l)} = (if length (F ! k) = 2 then {} else {l \<in> set us. neg l \<in> set (F ! k)})"
      using setN ns k by auto
    show "nbUnsat (cm_infoClauses f ! k) = (if length (F ! k) = 2 then 0 else card {l \<in> set (F ! k). neg l \<in> ?T})"
      using i(5) k n1 e neg_counts [OF dj, of "F ! k"] by simp
  qed
  have m: "mset (cm_clauses f1 ! k) = mset (F ! k)" if "k < ?m" for k using s(2) that by (simp add: clauses_ok_def)
  have len: "length (cm_clauses f1) = ?m" using s(2) by (simp add: clauses_ok_def)
  show "clauses_ok F ?T (cm_clauses h)"
    unfolding clauses_ok_def
  proof (intro conjI allI impI)
    show "length (cm_clauses h) = ?m" using r(1) len by (simp add: same_clauses_def)
    fix k assume k: "k < ?m"
    show mh: "mset (cm_clauses h ! k) = mset (F ! k)" using r(1) len m k by (simp add: same_clauses_def)
    assume a: "length (F ! k) \<noteq> 2" "\<not> sat_by ?T (F ! k)" "\<exists>l\<in>set (F ! k). var l \<notin> var ` ?T"
    have Fk: "F ! k \<in> set F" using k by simp
    have vn: "var l \<le> n" if "l \<in> set (F ! k)" for l
      using F Fk that by (auto simp: cnf_ok_def clause_ok_def)
    have ne: "F ! k \<noteq> []" using a(3) by auto
    let ?l0 = "cm_clauses f1 ! k ! 0" and ?lh = "cm_clauses h ! k ! 0"
    have l0: "?l0 \<in> set (F ! k)" using perm_first [OF m [OF k] ne] .
    have lh: "?lh \<in> set (F ! k)" using perm_first [OF mh ne] .
    have undef: "cm_currentValue f1 ! var l = l_Undef \<longleftrightarrow> var l \<notin> var ` ?T" if "l \<in> set (F ! k)" for l
      using val vn [OF that] value_of_Undef by simp
    show "var ?lh \<notin> var ` ?T"
    proof (cases "var ?l0 \<in> var ` ?T")
      case False
      then have "?lh = ?l0 \<or> cm_currentValue f1 ! var ?lh = l_Undef"
        using r(1) len k unfolding same_clauses_def by metis
      then show ?thesis using False undef [OF lh] by auto
    next
      case True
      have "var ?l0 \<notin> var ` T"
      proof -
        have "\<not> sat_by T (F ! k)" "\<exists>l\<in>set (F ! k). var l \<notin> var ` T" using a(2,3) by (auto simp: sat_by_Un)
        then show ?thesis using s(2) k a(1) unfolding clauses_ok_def by blast
      qed
      then obtain l where l: "l \<in> set us" "var l = var ?l0" using True by auto
      have "l \<noteq> ?l0" using a(2) l(1) l0 by (auto simp: sat_by_def)
      then have "?l0 = neg l" using l(2) using same_var_cases by metis
      then have "k \<in> set (cm_reviewWatcher f)" using i(6) l(1) l0 setN a(1,2) k by auto
      moreover have "\<exists>l\<in>set (cm_clauses f1 ! k). cm_currentValue f1 ! var l = l_Undef"
        using a(3) undef m [OF k] by (metis set_mset_mset)
      ultimately have "cm_currentValue f1 ! var ?lh = l_Undef" using r(6) i(4) k a(2) by blast
      then show ?thesis using undef [OF lh] by blast
    qed
  qed
qed


section \<open>Assigning and unassigning\<close>

lemma length_assign [simp]: "length (foldl (\<lambda>val l. val[var l := g l]) val us) = length val"
  by (induction us arbitrary: val) auto

lemma assign_other: "v \<notin> var ` set us \<Longrightarrow> foldl (\<lambda>val l. val[var l := g l]) val us ! v = val ! v"
  by (induction us arbitrary: val) auto

lemma value_of_insert:
  assumes "var l \<notin> var ` T"
  shows "value_of (insert l T) v = (if v = var l then lbool_of_sign (sign l) else value_of T v)"
proof (cases "v = var l")
  case True
  have "makeLit v b \<notin> T" for b using assms True by (metis image_eqI var_makeLit)
  moreover have "makeLit v b = l \<longleftrightarrow> b = sign l" for b using True by (auto simp: lit_eq_iff)
  ultimately have "(makeLit v False \<in> insert l T) = (\<not> sign l)" "(makeLit v True \<in> insert l T) = sign l" by simp_all
  then show ?thesis using True by (cases "sign l") (simp_all add: value_of_def)
next
  case False
  then have "makeLit v b \<noteq> l" for b by auto
  then show ?thesis using False by (simp add: value_of_def)
qed

lemma assign_values:
  assumes "\<forall>v\<le>n. val ! v = value_of T v" "length val = n + 1" "distinct (map var us)"
    "\<forall>l\<in>set us. var l \<le> n" "var ` set us \<inter> var ` T = {}"
  shows "\<forall>v\<le>n. foldl (\<lambda>val l. val[var l := lbool_of_sign (sign l)]) val us ! v = value_of (T \<union> set us) v"
  using assms
proof (induction us arbitrary: val T)
  case (Cons l us)
  have "\<forall>v\<le>n. val[var l := lbool_of_sign (sign l)] ! v = value_of (insert l T) v"
    using Cons.prems value_of_insert [of l T] by (simp add: nth_list_update)
  moreover have "var ` set us \<inter> var ` insert l T = {}" using Cons.prems by auto
  ultimately show ?case using Cons.IH [of "val[var l := lbool_of_sign (sign l)]" "insert l T"] Cons.prems by simp
qed simp

lemma unassign_values:
  assumes "\<forall>v\<in>var ` set us. val ! v = l_Undef"
  shows "foldl (\<lambda>val l. val[var l := l_Undef]) (foldl (\<lambda>val l. val[var l := g l]) val us) us = val"
proof (rule nth_equalityI)
  fix v assume "v < length (foldl (\<lambda>val l. val[var l := l_Undef]) (foldl (\<lambda>val l. val[var l := g l]) val us) us)"
  then have v: "v < length val" by simp
  have reset: "foldl (\<lambda>val l. val[var l := l_Undef]) val' ls ! v = l_Undef"
    if "v \<in> var ` set ls" "v < length val'" for val' ls
    using that
  proof (induction ls arbitrary: val')
    case (Cons l ls)
    show ?case
    proof (cases "v \<in> var ` set ls")
      case True
      then show ?thesis using Cons by simp
    next
      case False
      then show ?thesis using Cons.prems by (auto simp: assign_other)
    qed
  qed simp
  show "foldl (\<lambda>val l. val[var l := l_Undef]) (foldl (\<lambda>val l. val[var l := g l]) val us) us ! v = val ! v"
  proof (cases "v \<in> var ` set us")
    case True
    then have "val ! v = l_Undef" using assms by blast
    then show ?thesis using reset [OF True] v by simp
  qed (simp add: assign_other)
qed simp

section \<open>Restoring what has been saved\<close>

lemma restore_fold:
  assumes "sos \<noteq> []" "\<forall>so\<in>set sos. so_nbBin so = b \<and> so_nbNotBin so = k" "nbBin oc \<le> b"
  shows "\<exists>so\<in>set sos. foldl (\<lambda>oc so. restoreOcc so oc) oc sos = restoreOcc so oc"
  using assms
proof (induction sos arbitrary: oc)
  case (Cons so sos)
  show ?case
  proof (cases "sos = []")
    case False
    have "foldl (\<lambda>oc so. restoreOcc so oc) (restoreOcc so oc) sos = restoreOcc so oc"
      using Cons.prems(2)
    proof (induction sos)
      case (Cons so' sos)
      have "restoreOcc so' (restoreOcc so oc) = restoreOcc so oc"
        using Cons.prems by (simp add: restoreOcc_def)
      then show ?case using Cons by simp
    qed simp
    then show ?thesis by auto
  qed simp
qed simp

lemma occ_ph_restore:
  assumes ph: "occ_ph n S idx occ0 so0 occ so mk" and x: "x < 2 * (n + 1)"
  shows "occ_eq (occ0 ! x) (restoreOccs (drop (length so0) so) occ ! x)"
proof -
  obtain seg where seg: "so = so0 @ seg"
    "\<forall>s\<in>set seg. intern (so_l s) < 2 * (n + 1) \<and> so_nbBin s = nbBin (occ0 ! intern (so_l s))
       \<and> so_nbNotBin s = nbNotBin (occ0 ! intern (so_l s))"
    "\<forall>x<2 * (n + 1). mk ! x = idx \<longleftrightarrow> x \<in> (\<lambda>s. intern (so_l s)) ` set seg"
    "\<forall>x<2 * (n + 1). mk ! x \<noteq> idx \<longrightarrow> occ ! x = occ0 ! x"
    using ph unfolding occ_ph_def by blast
  have l: "loses S (occ0 ! x) (occ ! x)" "length occ = 2 * (n + 1)" using ph x unfolding occ_ph_def by blast+
  let ?sx = "filter (\<lambda>s. intern (so_l s) = x) seg"
  have r: "restoreOccs (drop (length so0) so) occ ! x = foldl (\<lambda>oc so. restoreOcc so oc) (occ ! x) ?sx"
    using x l(2) by (simp add: restoreOccs_nth seg(1))
  show ?thesis
  proof (cases "?sx = []")
    case True
    then have "x \<notin> (\<lambda>s. intern (so_l s)) ` set seg" by (auto simp: filter_empty_conv)
    then have "occ ! x = occ0 ! x" using seg(3,4) x by blast
    moreover obtain A B N Z where "occ_is (occ0 ! x) A B N Z" using l(1) unfolding loses_def by blast
    ultimately show ?thesis unfolding r True occ_eq_def by (metis foldl_Nil)
  next
    case False
    have a: "\<forall>s\<in>set ?sx. so_nbBin s = nbBin (occ0 ! x) \<and> so_nbNotBin s = nbNotBin (occ0 ! x)"
      using seg(2) by auto
    have "nbBin (occ ! x) \<le> nbBin (occ0 ! x)"
    proof -
      obtain A B N Z A' B' N' Z' where "occ_is (occ0 ! x) A B N Z" "occ_is (occ ! x) (A @ A') B' N' (Z' @ Z)"
        "mset B = mset (A' @ B')"
        using l(1) unfolding loses_def by blast
      moreover from this(3) have "length B = length (A' @ B')" by (rule mset_eq_length)
      ultimately show ?thesis by (simp add: occ_is_def)
    qed
    from restore_fold [OF False a this] obtain s where s: "s \<in> set ?sx"
      "foldl (\<lambda>oc so. restoreOcc so oc) (occ ! x) ?sx = restoreOcc s (occ ! x)" by blast
    have "\<exists>A B N Z B' N'. occ_is (occ0 ! x) A B N Z \<and> occ_is (restoreOcc s (occ ! x)) A B' N' Z
        \<and> mset B' = mset B \<and> mset N' = mset N"
      by (rule restore_loses [OF l(1)]) (use a s(1) in auto)
    then show ?thesis unfolding r s(2) occ_eq_def by metis
  qed
qed

lemma length_restoreInfos [simp]: "length (restoreInfos scs infos) = length infos"
  unfolding restoreInfos_def by (induction scs arbitrary: infos) auto

lemma restoreInfos_other: "i \<notin> sc_idx ` set scs \<Longrightarrow> restoreInfos scs infos ! i = infos ! i"
  unfolding restoreInfos_def by (induction scs arbitrary: infos) auto

lemma restoreInfos_in:
  assumes "i \<in> sc_idx ` set scs" "i < length infos" "xorLitBin (infos ! i) = xorLitBin ci"
    "\<forall>s\<in>set scs. sc_idx s = i \<longrightarrow> sc_isSat s = isSat ci \<and> sc_nbUnsat s = nbUnsat ci"
  shows "restoreInfos scs infos ! i = ci"
  using assms
proof (induction scs arbitrary: infos)
  case (Cons s scs)
  let ?infos = "infos[sc_idx s := (infos ! sc_idx s)\<lparr>isSat := sc_isSat s, nbUnsat := sc_nbUnsat s\<rparr>]"
  have e: "restoreInfos (s # scs) infos = restoreInfos scs ?infos" by (simp add: restoreInfos_def)
  show ?case
  proof (cases "i \<in> sc_idx ` set scs")
    case True
    have "xorLitBin (?infos ! i) = xorLitBin (infos ! i)"
      by (cases "sc_idx s = i") (use Cons.prems(2) in simp_all)
    then have "xorLitBin (?infos ! i) = xorLitBin ci" using Cons.prems(3) by simp
    then show ?thesis unfolding e using Cons.IH [of ?infos] True Cons.prems by simp
  next
    case False
    then have "sc_idx s = i" using Cons.prems(1) by auto
    then have "?infos ! i = (infos ! i)\<lparr>isSat := isSat ci, nbUnsat := nbUnsat ci\<rparr>"
      using Cons.prems(2,4) by simp
    also have "\<dots> = ci" by (rule ClauseInfo.equality) (use Cons.prems(3) in simp_all)
    finally show ?thesis unfolding e restoreInfos_other [OF False] .
  qed
qed simp

lemma cl_ph_restore:
  assumes ph: "cl_ph m info0 sc0 info sc mk" and len: "length info0 = m"
  shows "restoreInfos (drop (length sc0) sc) info = info0"
proof (rule nth_equalityI)
  obtain seg where seg: "sc = sc0 @ seg"
    "\<forall>s\<in>set seg. sc_idx s < m \<and> sc_isSat s = isSat (info0 ! sc_idx s) \<and> sc_nbUnsat s = nbUnsat (info0 ! sc_idx s)"
    "\<forall>i<m. mk ! i \<longleftrightarrow> i \<in> sc_idx ` set seg" "\<forall>i<m. \<not> mk ! i \<longrightarrow> info ! i = info0 ! i"
    using ph unfolding cl_ph_def by blast
  have l: "length info = m" "\<forall>i<m. xorLitBin (info ! i) = xorLitBin (info0 ! i)" using ph by (auto simp: cl_ph_def)
  show "length (restoreInfos (drop (length sc0) sc) info) = length info0" using l(1) len by simp
  fix i assume "i < length (restoreInfos (drop (length sc0) sc) info)"
  then have i: "i < m" using l(1) by simp
  show "restoreInfos (drop (length sc0) sc) info ! i = info0 ! i"
  proof (cases "i \<in> sc_idx ` set seg")
    case True
    then show ?thesis using restoreInfos_in [of i seg info "info0 ! i"] i l seg(1,2) by simp
  next
    case False
    then show ?thesis using restoreInfos_other [OF False] seg i by simp
  qed
qed

lemma cl_ph_unmark:
  assumes ph: "cl_ph m info0 sc0 info sc mk"
  shows "foldl (\<lambda>mk s. mk[sc_idx s := False]) mk (drop (length sc0) sc) = replicate (m + 1) False"
proof -
  obtain seg where seg: "sc = sc0 @ seg" "\<forall>i<m. mk ! i \<longleftrightarrow> i \<in> sc_idx ` set seg"
    using ph unfolding cl_ph_def by blast
  have l: "length mk = m + 1" "\<not> mk ! m" using ph by (simp_all add: cl_ph_def)
  have len: "length (foldl (\<lambda>mk s. mk[sc_idx s := False]) mk ss) = length mk" for mk ss
    by (induction ss arbitrary: mk) auto
  have nth: "foldl (\<lambda>mk s. mk[sc_idx s := False]) mk ss ! i \<longleftrightarrow> mk ! i \<and> i \<notin> sc_idx ` set ss"
    if "i < length mk" for mk ss i
    using that
  proof (induction ss arbitrary: mk)
    case (Cons s ss)
    then show ?case by (cases "sc_idx s = i") auto
  qed simp
  show ?thesis
  proof (rule nth_equalityI)
    fix i assume "i < length (foldl (\<lambda>mk s. mk[sc_idx s := False]) mk (drop (length sc0) sc))"
    then have i: "i < m + 1" unfolding len l(1) .
    then have "\<not> (mk ! i \<and> i \<notin> sc_idx ` set seg)" using seg(2) l(2) less_Suc_eq by auto
    then show "foldl (\<lambda>mk s. mk[sc_idx s := False]) mk (drop (length sc0) sc) ! i = replicate (m + 1) False ! i"
      using nth [of i mk seg] i l(1) seg(1) by (simp del: replicate_Suc)
  qed (simp add: len l)
qed


section \<open>The laws of the trail\<close>

lemma pre_ok:
  assumes c: "core_ok n F T f" and sc: "scratch_ok n F f" and F: "cnf_ok n F"
    and us: "distinct (map var us)" "\<forall>l\<in>set us. var l \<le> n" "var ` set us \<inter> var ` T = {}"
    and pre: "cnf_preUpdate noInprocessing f us = (us', f')"
  shows "us' = us" "core_ok n F (T \<union> set us) f'" "scratch_ok n F f'" "equiv f (cnf_postUpdate f' us)"
proof -
  let ?T = "T \<union> set us" and ?m = "length F"
  define f1 where "f1 = assignListLit us (pushStacks f)"
  define g where "g = propagateTrue us f1"
  define h where "h = propagateFalseInNotBin us g"
  have r: "us' = us" "f' = unmarkLastClausesSaved h"
    using pre by (auto simp: cnf_preUpdate_def noInprocessing_def f1_def g_def h_def Let_def)
  show "us' = us" by (rule r(1))
  have cc: "cm_nbVar f = n" "length (cm_currentValue f) = n + 1" "\<forall>v\<le>n. cm_currentValue f ! v = value_of T v"
    "clauses_ok F T (cm_clauses f)" "info_ok F T (cm_infoClauses f)" "length (cm_occurrence f) = 2 * (n + 1)"
    "\<forall>x<2 * (n + 1). occ_level F T x (cm_occurrence f ! x)" "\<not> cm_keepListNotSatisfiedClauses f"
    using c unfolding core_ok_def by blast+
  have ss: "cm_markedClauseIdx f = replicate (?m + 1) False" "length (cm_markedLitStack f) = 2 * (n + 1)"
    "\<forall>m\<in>set (cm_markedLitStack f). m \<le> cm_currentMarkedLitStackIndex f"
    "length (cm_markedLitRemove f) = 2 * (n + 1)"
    "\<forall>m\<in>set (cm_markedLitRemove f). m \<le> cm_currentMarkedLitRemoveIndex f"
    using sc unfolding scratch_ok_def by blast+
  have e1: "cm_nbVar f1 = n" "cm_clauses f1 = cm_clauses f" "cm_infoClauses f1 = cm_infoClauses f"
    "cm_occurrence f1 = cm_occurrence f" "cm_savedStateOccs f1 = cm_savedStateOccs f"
    "cm_savedStateClauses f1 = cm_savedStateClauses f"
    "cm_stackPosOcc f1 = cm_stackPosOcc f @ [length (cm_savedStateOccs f)]"
    "cm_stackPosClause f1 = cm_stackPosClause f @ [length (cm_savedStateClauses f)]"
    "cm_currentMarkedLitStackIndex f1 = cm_currentMarkedLitStackIndex f + 1"
    "cm_currentValue f1 = foldl (\<lambda>val l. val[var l := lbool_of_sign (sign l)]) (cm_currentValue f) us"
    "cm_markedClauseIdx f1 = cm_markedClauseIdx f" "cm_markedLitStack f1 = cm_markedLitStack f"
    "cm_markedLitRemove f1 = cm_markedLitRemove f"
    "cm_currentMarkedLitRemoveIndex f1 = cm_currentMarkedLitRemoveIndex f"
    "cm_keepListNotSatisfiedClauses f1 = cm_keepListNotSatisfiedClauses f"
    "cm_markView f1 = cm_markView f" "cm_mustUnMark f1 = cm_mustUnMark f" "cm_infoCluster f1 = cm_infoCluster f"
    "cm_inCurrentComponent f1 = cm_inCurrentComponent f" "cm_idxComponent f1 = cm_idxComponent f"
    using cc(1) by (simp_all add: f1_def assignListLit_def pushStacks_def)
  have st: "start_ok n F T f1"
  proof -
    have *: "\<forall>m\<in>set (cm_markedLitStack f). m < cm_currentMarkedLitStackIndex f + 1"
      using ss(3) by (simp add: less_Suc_eq_le)
    show ?thesis unfolding start_ok_def e1 by (intro conjI * cc(4-8) ss(1,2,4,5))
  qed
  have du: "distinct us" using us(1) by (simp add: distinct_map)
  have dj: "T \<inter> set us = {}" using us(3) by auto
  have v1: "\<forall>v\<le>n. cm_currentValue f1 ! v = value_of ?T v"
    unfolding e1 by (rule assign_values [OF cc(3,2) us(1,2,3)])
  note pf = propagateFalse_ok [OF st F du us(2) dj v1 g_def h_def]
  have up: "updated n F T (set us) f1 g" using propagateTrue_ok(1) [OF st F du us(2)] by (simp add: g_def)
  then obtain S where up1: "frame f1 g" "f_occ_ph n S (cm_occurrence f1) (cm_savedStateOccs f1) g"
    "\<forall>x<2 * (n + 1). occ_level F ?T x (cm_occurrence g ! x)" "length (cm_markedLitRemove g) = 2 * (n + 1)"
    "\<forall>m\<in>set (cm_markedLitRemove g). m \<le> cm_currentMarkedLitRemoveIndex g"
    unfolding updated_def by blast
  have gh: "frame f1 h" "f_occ_ph n S (cm_occurrence f1) (cm_savedStateOccs f1) h"
    "cm_occurrence h = cm_occurrence g" "length (cm_markedLitRemove h) = 2 * (n + 1)"
    "\<forall>m\<in>set (cm_markedLitRemove h). m \<le> cm_currentMarkedLitRemoveIndex h"
    using pf(1) up1 by (auto simp: same_rest_def frame_def)
  have fr: "cm_nbVar h = n" "cm_currentValue h = cm_currentValue f1"
    "cm_stackPosOcc h = cm_stackPosOcc f @ [length (cm_savedStateOccs f)]"
    "cm_stackPosClause h = cm_stackPosClause f @ [length (cm_savedStateClauses f)]"
    "cm_keepListNotSatisfiedClauses h = cm_keepListNotSatisfiedClauses f" "cm_markView h = cm_markView f"
    "cm_mustUnMark h = cm_mustUnMark f" "cm_infoCluster h = cm_infoCluster f"
    "cm_inCurrentComponent h = cm_inCurrentComponent f" "cm_idxComponent h = cm_idxComponent f"
    using gh(1) unfolding frame_def e1 by blast+
  have um: "cm_markedClauseIdx f' = replicate (?m + 1) False"
    using cl_ph_unmark [OF pf(2)] by (simp add: r(2) unmarkLastClausesSaved_def fr e1 del: replicate_Suc)
  have e': "cm_nbVar f' = cm_nbVar h" "cm_currentValue f' = cm_currentValue h" "cm_clauses f' = cm_clauses h"
    "cm_infoClauses f' = cm_infoClauses h" "cm_occurrence f' = cm_occurrence h"
    "cm_keepListNotSatisfiedClauses f' = cm_keepListNotSatisfiedClauses h"
    "cm_markedLitStack f' = cm_markedLitStack h"
    "cm_currentMarkedLitStackIndex f' = cm_currentMarkedLitStackIndex h"
    "cm_markedLitRemove f' = cm_markedLitRemove h"
    "cm_currentMarkedLitRemoveIndex f' = cm_currentMarkedLitRemoveIndex h"
    "cm_markView f' = cm_markView h" "cm_mustUnMark f' = cm_mustUnMark h" "cm_infoCluster f' = cm_infoCluster h"
    "cm_inCurrentComponent f' = cm_inCurrentComponent h" "cm_idxComponent f' = cm_idxComponent h"
    by (simp_all add: r(2) unmarkLastClausesSaved_def)
  have lenO: "length (cm_occurrence h) = 2 * (n + 1)" "length (cm_markedLitStack h) = 2 * (n + 1)"
    "\<forall>m\<in>set (cm_markedLitStack h). m \<le> cm_currentMarkedLitStackIndex h"
    using gh(2) unfolding occ_ph_def by blast+
  show "core_ok n F ?T f'"
    unfolding core_ok_def e' fr using pf(3,4) v1 cc lenO up1(3) by (simp add: gh(3) e1(10))
  show "scratch_ok n F f'"
    using sc unfolding scratch_ok_def e' fr by (intro conjI um lenO gh) blast+
  let ?p = "cnf_postUpdate f' us"
  have p: "cm_nbVar ?p = n" "cm_occurrence ?p = restoreOccs (drop (length (cm_savedStateOccs f)) (cm_savedStateOccs h)) (cm_occurrence h)"
    "cm_infoClauses ?p = restoreInfos (drop (length (cm_savedStateClauses f)) (cm_savedStateClauses h)) (cm_infoClauses h)"
    "cm_savedStateOccs ?p = take (length (cm_savedStateOccs f)) (cm_savedStateOccs h)"
    "cm_savedStateClauses ?p = take (length (cm_savedStateClauses f)) (cm_savedStateClauses h)"
    "cm_stackPosOcc ?p = cm_stackPosOcc f" "cm_stackPosClause ?p = cm_stackPosClause f"
    "cm_currentValue ?p = foldl (\<lambda>val l. val[var l := l_Undef]) (cm_currentValue h) us"
    "cm_clauses ?p = cm_clauses h" "cm_keepListNotSatisfiedClauses ?p = cm_keepListNotSatisfiedClauses f"
    using cc(8) by (simp_all add: cnf_postUpdate_def r(2) unmarkLastClausesSaved_def fr Let_def)
  have vU: "\<forall>v\<in>var ` set us. cm_currentValue f ! v = l_Undef"
    using us(2,3) cc(3) value_of_Undef by fastforce
  have val: "cm_currentValue ?p = cm_currentValue f"
    unfolding p(8) fr(2) e1(10) by (rule unassign_values [OF vU])
  have "cm_infoClauses ?p = cm_infoClauses f"
    using cl_ph_restore [OF pf(2)] cc(5) unfolding p e1 by (simp add: info_ok_def)
  moreover have "cm_savedStateOccs ?p = cm_savedStateOccs f" "cm_savedStateClauses ?p = cm_savedStateClauses f"
    using gh(2) pf(2) unfolding p(4,5) e1 occ_ph_def cl_ph_def by auto
  moreover have "occ_eq (cm_occurrence f ! x) (cm_occurrence ?p ! x)" if "x < 2 * (n + 1)" for x
    using occ_ph_restore [OF gh(2) that] unfolding p e1 .
  moreover have "same_clauses (cm_currentValue f) (cm_clauses f) (cm_clauses ?p)"
  proof -
    have "cm_currentValue f ! v = l_Undef" if "cm_currentValue f1 ! v = l_Undef" for v
    proof (cases "v \<in> var ` set us")
      case True
      then show ?thesis using vU by blast
    next
      case False
      then show ?thesis using that unfolding e1 by (simp add: assign_other)
    qed
    then show ?thesis using pf(5) unfolding p e1 same_clauses_def by blast
  qed
  ultimately show "equiv f ?p" unfolding equiv_def using val p cc lenO by simp
qed

end
