(* ===== verification/CnfLaws.thy ===== *)
theory CnfLaws
  imports CnfPropagate
begin

text \<open>
  The invariant of \<^verbatim>\<open>CnfManagerDyn\<close> as the search sees it, with a stack of assigned levels: the
  constructor establishes it, \<^verbatim>\<open>preUpdate\<close> pushes a level and \<^verbatim>\<open>postUpdate\<close> pops one.
\<close>

definition dyn_inv :: "nat \<Rightarrow> cnf \<Rightarrow> cnfManagerDyn \<Rightarrow> lit list list \<Rightarrow> bool" where
  "dyn_inv n F f stk \<longleftrightarrow> cnf_ok n F \<and> trail_ok n (concat stk) \<and> scratch_ok n F f \<and> cm_inv n F f stk"

lemma trail_ok_append:
  "trail_ok n (us @ T) \<longleftrightarrow> trail_ok n us \<and> trail_ok n T \<and> var ` set us \<inter> var ` set T = {}"
  by (auto simp: trail_ok_def)

lemma dyn_pre:
  assumes inv: "dyn_inv n F f stk" and us: "trail_ok n (us @ concat stk)"
    and pre: "cnf_preUpdate noInprocessing f us = (us', f')"
  shows "us' = us" "dyn_inv n F f' (us # stk)" "equiv f (cnf_postUpdate f' us)"
proof -
  have i: "cnf_ok n F" "scratch_ok n F f" "cm_inv n F f stk" using inv by (auto simp: dyn_inv_def)
  have u: "distinct (map var us)" "\<forall>l\<in>set us. var l \<le> n" "var ` set us \<inter> var ` set (concat stk) = {}"
    using us unfolding trail_ok_append by (auto simp: trail_ok_def)
  note p = pre_ok [OF cm_inv_core [OF i(3)] i(2,1) u pre]
  show "us' = us" by (rule p(1))
  show e: "equiv f (cnf_postUpdate f' us)" by (rule p(4))
  have "core_ok n F (set us \<union> set (concat stk)) f'" using p(2) by (simp add: Un_commute)
  then show "dyn_inv n F f' (us # stk)"
    unfolding dyn_inv_def using i(1) us p(3) cm_inv_equiv [OF i(3) e i(1)] by simp
qed

lemma post_scratch: "scratch_ok n F f \<Longrightarrow> scratch_ok n F (cnf_postUpdate f us)"
  by (simp add: scratch_ok_def cnf_postUpdate_def Let_def del: replicate_Suc)

lemma dyn_post: "dyn_inv n F f (us # stk) \<Longrightarrow> dyn_inv n F (cnf_postUpdate f us) stk"
  by (auto simp: dyn_inv_def post_scratch trail_ok_append)

section \<open>The constructor\<close>

lemma initOccurrence_loop:
  assumes "foldl (\<lambda>(mem, nb, posNotBin) idx.
       if length (clauses ! idx) = 2 then (mem[nb := idx], nb + 1, posNotBin)
       else (mem[posNotBin - 1 := idx], nb, posNotBin - 1)) (B @ replicate k 0 @ N, length B, length B + k) occList
     = (mem, nb, posNotBin)" "length occList \<le> k"
  shows "mem = (B @ filter (\<lambda>i. length (clauses ! i) = 2) occList) @ replicate (k - length occList) 0
      @ rev (filter (\<lambda>i. length (clauses ! i) \<noteq> 2) occList) @ N
    \<and> nb = length B + length (filter (\<lambda>i. length (clauses ! i) = 2) occList)
    \<and> posNotBin = nb + (k - length occList)"
  using assms
proof (induction occList arbitrary: B N k)
  case (Cons i occList)
  obtain j where j: "k = Suc j" using Cons.prems(2) by (cases k) auto
  show ?case
  proof (cases "length (clauses ! i) = 2")
    case True
    have "(B @ replicate k 0 @ N)[length B := i] = (B @ [i]) @ replicate j 0 @ N"
      by (simp add: j list_update_append)
    then show ?thesis using Cons.IH [of "B @ [i]" j N] Cons.prems True j by simp
  next
    case False
    have "replicate k 0 = replicate j (0::nat) @ [0]" by (simp add: j replicate_append_same)
    then have "(B @ replicate k 0 @ N)[length B + k - 1 := i] = B @ replicate j 0 @ i # N"
      by (simp add: j list_update_append del: replicate_Suc)
    then show ?thesis using Cons.IH [of B j "i # N"] Cons.prems False j by simp
  qed
qed simp

lemma initOccurrence_is:
  "occ_is (initOccurrence clauses occList) [] (filter (\<lambda>i. length (clauses ! i) = 2) occList)
     (rev (filter (\<lambda>i. length (clauses ! i) \<noteq> 2) occList)) []"
proof -
  obtain mem nb pos where r: "foldl (\<lambda>(mem, nb, posNotBin) idx.
       if length (clauses ! idx) = 2 then (mem[nb := idx], nb + 1, posNotBin)
       else (mem[posNotBin - 1 := idx], nb, posNotBin - 1))
       (replicate (length occList) 0, 0, length occList) occList = (mem, nb, pos)"
    by (cases "foldl (\<lambda>(mem, nb, posNotBin) idx.
       if length (clauses ! idx) = 2 then (mem[nb := idx], nb + 1, posNotBin)
       else (mem[posNotBin - 1 := idx], nb, posNotBin - 1))
       (replicate (length occList) 0, 0, length occList) occList")
  note l = initOccurrence_loop [of clauses "[]" "length occList" "[]" occList mem nb pos]
  have "length occList - length (filter (\<lambda>i. length (clauses ! i) = 2) occList) =
      length (filter (\<lambda>i. length (clauses ! i) \<noteq> 2) occList)"
    using sum_length_filter_compl [of "\<lambda>i. length (clauses ! i) = 2" occList] by simp
  then show ?thesis using l r by (simp add: initOccurrence_def occ_is_def)
qed

lemma sat_by_empty [simp]: "\<not> sat_by {} c"
  by (simp add: sat_by_def)

text \<open>The fields of a new manager.\<close>

lemma init_fields:
  fixes p :: "'a problem"
  defines "f \<equiv> initCnfManagerDyn p False"
  shows "cm_nbVar f = m_nbVar p" "cm_currentValue f = replicate (m_nbVar p + 1) l_Undef"
    "cm_clauses f = m_clauses p" "cm_infoClauses f = map initInfoClause (m_clauses p)"
    "cm_inCurrentComponent f = replicate (m_nbVar p + 1) False"
    "cm_occurrence f = map (\<lambda>i. initOccurrence (m_clauses p) (occurrenceIdx (m_clauses p) i)) [0 ..< 2 * (m_nbVar p + 1)]"
    "cm_infoCluster f = replicate (m_nbVar p + length (m_clauses p) + 1) \<lparr>ic_parent = 0, ic_size = 0, ic_pos = - 1\<rparr>"
    "cm_mustUnMark f = []" "cm_idxComponent f = replicate (m_nbVar p + 1) 0"
    "cm_markView f = replicate (length (m_clauses p)) False" "\<not> cm_keepListNotSatisfiedClauses f"
    "cm_markedLitStack f = replicate (2 * (m_nbVar p + 1)) 0" "cm_markedLitRemove f = replicate (2 * (m_nbVar p + 1)) 0"
    "cm_markedClauseIdx f = replicate (length (m_clauses p) + 1) False"
  by (simp_all add: f_def initCnfManagerDyn_def initCnfManager_def Let_def cnfManager.defs push_bit_eq_mult
      mult.commute [of _ 2] del: replicate_Suc upt_Suc)

lemma init_core:
  fixes p :: "'a problem"
  shows "core_ok (m_nbVar p) (m_clauses p) {} (initCnfManagerDyn p False)"
proof -
  let ?F = "m_clauses p" and ?f = "initCnfManagerDyn p False"
  have "occ_level ?F {} x (cm_occurrence ?f ! x)" if "x < 2 * (m_nbVar p + 1)" for x
  proof -
    have "cm_occurrence ?f ! x = initOccurrence ?F (occurrenceIdx ?F x)" 
      using that by (simp add: init_fields del: upt_Suc)
    moreover have "mset (filter (\<lambda>i. length (?F ! i) = 2) (occurrenceIdx ?F x)) = mset (occB ?F {} x)"
      "mset (rev (filter (\<lambda>i. length (?F ! i) \<noteq> 2) (occurrenceIdx ?F x))) = mset (occN ?F {} x)"
      by (simp_all add: occB_def occN_def)
    ultimately show ?thesis unfolding occ_level_def using initOccurrence_is by metis
  qed
  moreover have "info_ok ?F {} (cm_infoClauses ?f)"
    by (simp add: info_ok_def init_fields initInfoClause_def)
  moreover have "clauses_ok ?F {} (cm_clauses ?f)" by (simp add: clauses_ok_def init_fields)
  moreover have "\<forall>v\<le>m_nbVar p. cm_currentValue ?f ! v = value_of {} v"
    by (simp add: init_fields value_of_def del: replicate_Suc)
  ultimately show ?thesis unfolding core_ok_def by (simp add: init_fields)
qed

lemma init_ok:
  fixes p :: "'a problem"
  assumes "cnf_ok (m_nbVar p) (m_clauses p)"
  shows "dyn_inv (m_nbVar p) (m_clauses p) (initCnfManagerDyn p False) []"
  using assms init_core by (simp add: dyn_inv_def trail_ok_def scratch_ok_def init_fields del: replicate_Suc)

end
