(* ===== verification/Components.thy ===== *)
theory Components
  imports UnionFind CnfLaws
begin

text \<open>
  \<^verbatim>\<open>computeConnectedComponent\<close> partitions the unassigned variables of a closed set: variables of a
  common active clause get the same root, the free variables are those without an active clause,
  and the scratch arrays are left as they were found.
\<close>

section \<open>Visiting the clauses\<close>

definition comp_inv ::
  "nat \<Rightarrow> nat \<Rightarrow> nat set \<Rightarrow> nat set \<Rightarrow> (nat \<times> nat) set \<Rightarrow> InfoCluster list \<Rightarrow> bool list \<Rightarrow> nat list \<Rightarrow> bool" where
  "comp_inv n m S U D ic mk mu \<longleftrightarrow> uf_ok S ic \<and> length ic = n + m + 1 \<and> length mk = m
     \<and> (\<forall>i<m. mk ! i \<longrightarrow> ic_par ic (i + n + 1) \<in> S - U
          \<and> (\<forall>r. leads ic (ic_par ic (i + n + 1)) r \<longrightarrow> 2 \<le> ic_size (ic ! r)))
     \<and> (\<forall>(v, i)\<in>D. i < m \<and> mk ! i \<and> v \<in> S \<and> (\<forall>r. leads ic v r \<longleftrightarrow> leads ic (ic_par ic (i + n + 1)) r))
     \<and> (\<forall>x<length ic. ic_pos (ic ! x) = - 1)
     \<and> set mu = {i. i < m \<and> mk ! i}
     \<and> (\<forall>u\<in>U. ic_par ic u = u) \<and> (\<forall>x\<in>S - U. \<forall>r. leads ic x r \<longrightarrow> r \<notin> U)"

lemma comp_invD:
  assumes "comp_inv n m S U D ic mk mu"
  shows "uf_ok S ic" "length ic = n + m + 1" "length mk = m"
    "\<forall>i<m. mk ! i \<longrightarrow> ic_par ic (i + n + 1) \<in> S - U
       \<and> (\<forall>r. leads ic (ic_par ic (i + n + 1)) r \<longrightarrow> 2 \<le> ic_size (ic ! r))"
    "\<forall>(v, i)\<in>D. i < m \<and> mk ! i \<and> v \<in> S \<and> (\<forall>r. leads ic v r \<longleftrightarrow> leads ic (ic_par ic (i + n + 1)) r)"
    "\<forall>x<length ic. ic_pos (ic ! x) = - 1" "set mu = {i. i < m \<and> mk ! i}"
    "\<forall>u\<in>U. ic_par ic u = u" "\<forall>x\<in>S - U. \<forall>r. leads ic x r \<longrightarrow> r \<notin> U"
  by (insert assms, unfold comp_inv_def, (elim conjE, assumption)+)

text \<open>A search for a root keeps the invariant.\<close>

lemma comp_inv_same_uf:
  assumes c: "comp_inv n m S U D ic mk mu" and s: "same_uf S ic ic'" and S: "S \<subseteq> {..n}" and U: "U \<subseteq> S"
  shows "comp_inv n m S U D ic' mk mu"
proof -
  have e: "uf_ok S ic'" "length ic' = length ic" "\<And>x y. leads ic' x y = leads ic x y"
    "\<And>x. ic_size (ic' ! x) = ic_size (ic ! x)" "\<And>x. ic_pos (ic' ! x) = ic_pos (ic ! x)"
    "\<And>x. x \<notin> S \<Longrightarrow> ic_par ic' x = ic_par ic x"
    using s unfolding same_uf_def by blast+
  have cl: "ic_par ic' (i + n + 1) = ic_par ic (i + n + 1)" for i using S by (intro e(6)) auto
  have "ic_par ic' u = u" if "u \<in> U" for u
    using comp_invD(8) [OF c] that leads_self [of ic u] leads_self [of ic' u] e(3) by blast
  then show ?thesis using comp_invD(1-7,9) [OF c] unfolding comp_inv_def e(2-5) cl by (intro conjI e(1)) blast+
qed

text \<open>Merging two roots keeps it too.\<close>

lemma comp_inv_union:
  assumes c: "comp_inv n m S U D ic mk mu" and S: "S \<subseteq> {..n}" and U: "U \<subseteq> S"
    and ab: "a \<in> S - U" "b \<in> S - U" "a \<noteq> b" "ic_par ic a = a" "ic_par ic b = b"
    and s: "ic_size (ic ! a) < s" "ic_size (ic ! b) \<le> s"
  defines "ic' \<equiv> set_parent (set_size ic b s) a b"
  shows "comp_inv n m S U D ic' mk mu"
proof -
  note i = comp_invD [OF c]
  have ab': "a \<in> S" "b \<in> S" using ab by auto
  note u = union_ok [OF i(1) ab' ab(3-5) s, folded ic'_def]
  have len: "a < length ic" "b < length ic" using uf_okD(1) [OF i(1)] ab' by auto
  have par: "ic_par ic' z = (if z = a then b else ic_par ic z)" for z using len by (simp add: ic'_def)
  have size: "ic_size (ic' ! z) = (if z = b then s else ic_size (ic ! z))" for z using len by (simp add: ic'_def)
  have cl: "ic_par ic' (k + n + 1) = ic_par ic (k + n + 1)" for k using ab'(1) S by (auto simp: par)
  have big: "ic_size (ic ! z) \<le> ic_size (ic' ! z)" for z using s(2) by (simp add: size)
  have "2 \<le> ic_size (ic' ! r)" if k: "k < m" "mk ! k" and l: "leads ic' (ic_par ic (k + n + 1)) r" for k r
  proof -
    have two: "2 \<le> ic_size (ic ! x)" if "leads ic (ic_par ic (k + n + 1)) x" for x using i(4) k that by blast
    from l u(2) consider "leads ic (ic_par ic (k + n + 1)) a" "r = b" | "leads ic (ic_par ic (k + n + 1)) r" by blast
    then show ?thesis
    proof cases
      case 1
      then show ?thesis using two [OF 1(1)] s(1) by (simp add: size)
    next
      case 2
      then show ?thesis using two [OF 2] big [of r] by linarith
    qed
  qed
  then have m: "\<forall>k<m. mk ! k \<longrightarrow> ic_par ic (k + n + 1) \<in> S - U
       \<and> (\<forall>r. leads ic' (ic_par ic (k + n + 1)) r \<longrightarrow> 2 \<le> ic_size (ic' ! r))"
    using i(4) by blast
  have d: "\<forall>(v, k)\<in>D. k < m \<and> mk ! k \<and> v \<in> S \<and> (\<forall>r. leads ic' v r \<longleftrightarrow> leads ic' (ic_par ic (k + n + 1)) r)"
    using i(5) unfolding u(2) by blast
  have "ic_par ic' x = x" if "x \<in> U" for x using i(8) that ab(1) by (auto simp: par)
  moreover have "r \<notin> U" if "x \<in> S - U" "leads ic' x r" for x r
    using that i(9) ab(2) unfolding u(2) by blast
  moreover have "length ic' = length ic" "\<And>x. ic_pos (ic' ! x) = ic_pos (ic ! x)" by (simp_all add: ic'_def)
  ultimately show ?thesis unfolding comp_inv_def cl using i(2,3,6,7) m d by (intro conjI u(1)) auto
qed

text \<open>A clause seen for the first time is attached to the root of the variable.\<close>

lemma comp_inv_attach:
  assumes c: "comp_inv n m S U D ic mk mu" and S: "S \<subseteq> {..n}" and U: "U \<subseteq> S"
    and v: "v \<in> S - U" "leads ic v r" and k: "k < m" "\<not> mk ! k"
  defines "ic1 \<equiv> set_parent ic (k + n + 1) r"
  shows "comp_inv n m S U (insert (v, k) D) (set_size ic1 r (ic_size (ic1 ! r) + 1)) (mk[k := True]) (mu @ [k])"
proof -
  note i = comp_invD [OF c]
  let ?ic = "set_size ic1 r (ic_size (ic1 ! r) + 1)"
  have r: "r \<in> S" "r \<notin> U" "ic_par ic r = r"
    using leads_in [OF v(2) i(1)] i(9) v leads_root [OF v(2)] by auto
  have cS: "k + n + 1 \<notin> S" "k + n + 1 < length ic" using S k i(2) by auto
  note a = attach_ok [OF i(1) cS, where r = r, folded ic1_def]
  have len: "r < length ic" "length ic1 = length ic" using uf_okD(1) [OF i(1) r(1)] by (simp_all add: ic1_def)
  have par: "ic_par ?ic z = (if z = k + n + 1 then r else ic_par ic z)" for z using cS by (simp add: ic1_def)
  have size: "ic_size (?ic ! z) = (if z = r then ic_size (ic ! r) + 1 else ic_size (ic ! z))" for z
    using len by (simp add: ic1_def)
  have lead: "leads ?ic x y = leads ic x y" if "x \<in> S" for x y using a(2) [OF that] by simp
  have lr: "leads ic r y \<longleftrightarrow> y = r" for y by (rule leads_of_root [OF r(3)])
  have lv: "leads ic v y \<longleftrightarrow> y = r" for y using v(2) leads_det by blast
  have uf: "uf_ok S ?ic"
    unfolding uf_ok_def
  proof (intro conjI ballI)
    show "finite S" using i(1) by (simp add: uf_ok_def)
    fix z assume z: "z \<in> S"
    note e = uf_okD [OF i(1) z]
    have p: "ic_par ?ic z = ic_par ic z" using z cS(1) unfolding par by auto
    show "z < length ?ic" "ic_par ?ic z \<in> S" "1 \<le> ic_size (?ic ! z)" using e len unfolding p size by auto
    show "ic_par ?ic z \<noteq> z \<longrightarrow> ic_size (?ic ! z) < ic_size (?ic ! ic_par ?ic z)"
      using e(4) r(3) unfolding p size by auto
  qed
  have cl: "ic_par ?ic (j + n + 1) = (if j = k then r else ic_par ic (j + n + 1))" for j unfolding par by simp
  have mk: "mk[k := True] ! j \<longleftrightarrow> j = k \<or> mk ! j" for j
    using k i(3) by (cases "j = k") auto
  have m: "\<forall>j<m. mk[k := True] ! j \<longrightarrow> ic_par ?ic (j + n + 1) \<in> S - U
       \<and> (\<forall>y. leads ?ic (ic_par ?ic (j + n + 1)) y \<longrightarrow> 2 \<le> ic_size (?ic ! y))"
  proof (intro allI impI)
    fix j assume j: "j < m" "mk[k := True] ! j"
    show "ic_par ?ic (j + n + 1) \<in> S - U
       \<and> (\<forall>y. leads ?ic (ic_par ?ic (j + n + 1)) y \<longrightarrow> 2 \<le> ic_size (?ic ! y))"
    proof (cases "j = k")
      case True
      have "1 \<le> ic_size (ic ! r)" using uf_okD(3) [OF i(1) r(1)] .
      then show ?thesis using True r lead [OF r(1)] lr unfolding cl size by auto
    next
      case False
      then have "ic_par ic (j + n + 1) \<in> S - U"
        "\<forall>y. leads ic (ic_par ic (j + n + 1)) y \<longrightarrow> 2 \<le> ic_size (ic ! y)" using i(4) j unfolding mk by auto
      then show ?thesis using False lead unfolding cl size by auto
    qed
  qed
  have d: "\<forall>(x, j)\<in>insert (v, k) D. j < m \<and> mk[k := True] ! j \<and> x \<in> S
      \<and> (\<forall>y. leads ?ic x y \<longleftrightarrow> leads ?ic (ic_par ?ic (j + n + 1)) y)"
  proof (rule ballI)
    fix xj assume "xj \<in> insert (v, k) D"
    then consider "xj = (v, k)" | x j where "xj = (x, j)" "(x, j) \<in> D" by (cases xj) auto
    then show "case xj of (x, j) \<Rightarrow> j < m \<and> mk[k := True] ! j \<and> x \<in> S
      \<and> (\<forall>y. leads ?ic x y \<longleftrightarrow> leads ?ic (ic_par ?ic (j + n + 1)) y)"
    proof cases
      case 1
      then show ?thesis using k v(1) lead [OF r(1)] lead [of v] lr lv unfolding cl mk by simp
    next
      case 2
      have D: "j < m" "mk ! j" "x \<in> S" "\<forall>y. leads ic x y \<longleftrightarrow> leads ic (ic_par ic (j + n + 1)) y"
        using i(5) 2(2) by auto
      have "j \<noteq> k" "ic_par ic (j + n + 1) \<in> S" using D k(2) i(4) by auto
      then show ?thesis using D 2(1) lead unfolding cl mk by simp
    qed
  qed
  have pos: "\<forall>x<length ?ic. ic_pos (?ic ! x) = - 1" using i(6) len by (simp add: ic1_def)
  have mu: "set (mu @ [k]) = {j. j < m \<and> mk[k := True] ! j}" using i(7) k(1) unfolding mk by auto
  have "ic_par ?ic u = u" if "u \<in> U" for u using i(8) that U cS(1) unfolding par by auto
  moreover have "y \<notin> U" if "x \<in> S - U" "leads ?ic x y" for x y
    using i(9) that lead by blast
  ultimately show ?thesis
    unfolding comp_inv_def using i(2,3) len m d pos mu by (intro conjI uf) auto
qed

lemma visitClause_ok:
  assumes c: "comp_inv n m S U D ic mk mu" and S: "S \<subseteq> {..n}" and U: "U \<subseteq> S"
    and v: "v \<in> S - U" "leads ic v r" and k: "k < m"
    and e: "visitClause n k (r, ic, mk, mu) = (r', ic', mk', mu')"
  shows "comp_inv n m S U (insert (v, k) D) ic' mk' mu' \<and> leads ic' v r'"
proof -
  note i = comp_invD [OF c]
  have rS: "r \<in> S - U" "ic_par ic r = r"
    using leads_in [OF v(2) i(1)] i(9) v leads_root [OF v(2)] by auto
  have add: "comp_inv n m S U (insert (v, k) D) icx mk mu"
    if "comp_inv n m S U D icx mk mu" "mk ! k" "\<forall>y. leads icx v y \<longleftrightarrow> leads icx (ic_par icx (k + n + 1)) y" for icx
  proof -
    note j = comp_invD [OF that(1)]
    have d: "\<forall>(x, j)\<in>insert (v, k) D. j < m \<and> mk ! j \<and> x \<in> S
        \<and> (\<forall>y. leads icx x y \<longleftrightarrow> leads icx (ic_par icx (j + n + 1)) y)"
      using j(5) that(2,3) k v(1) by blast
    show ?thesis unfolding comp_inv_def by (intro conjI j(1-4,6-9) d)
  qed
  show ?thesis
  proof (cases "mk ! k")
    case False
    have "r' = r" "ic' = set_size (set_parent ic (k + n + 1) r) r (ic_size (set_parent ic (k + n + 1) r ! r) + 1)"
      "mk' = mk[k := True]" "mu' = mu @ [k]"
      using e False by (auto simp: visitClause_def Let_def)
    moreover have "leads (set_parent ic (k + n + 1) r) v r"
    proof -
      have "k + n + 1 \<notin> S" "k + n + 1 < length ic" using S k i(2) by auto
      from attach_ok(2) [OF i(1) this] v show ?thesis by simp
    qed
    ultimately show ?thesis using comp_inv_attach [OF c S U v k False] by simp
  next
    case True
    let ?p = "ic_par ic (k + n + 1)"
    have p: "?p \<in> S - U" using i(4) k True by blast
    obtain w ic1 where f: "findRoot (length ic) ic ?p = (w, ic1)" by fastforce
    have F: "leads ic ?p w" "same_uf S ic ic1" using findRoot_length [OF i(1) _ f] p by auto
    have cl: "ic_par ic1 (k + n + 1) = ?p" using F(2) S unfolding same_uf_def by auto
    have l1: "leads ic1 x y \<longleftrightarrow> leads ic x y" for x y using F(2) by (simp add: same_uf_def)
    have w: "w \<in> S - U" using leads_in [OF F(1) i(1)] i(9) p F(1) by blast
    have "leads ic1 ?p w" "leads ic1 r r" using F(1) leads_self [of ic r] rS(2) unfolding l1 by simp_all
    then have wr: "ic_par ic1 w = w" "ic_par ic1 r = r" using leads_root by blast+
    have c1: "comp_inv n m S U D ic1 mk mu" by (rule comp_inv_same_uf [OF c F(2) S U])
    have lv: "leads ic1 v y \<longleftrightarrow> y = r" and lp: "leads ic1 ?p y \<longleftrightarrow> y = w" for y
      using v(2) F(1) leads_det unfolding l1 by blast+
    have pos: "1 \<le> ic_size (ic1 ! r)" "1 \<le> ic_size (ic1 ! w)"
      using comp_invD(1) [OF c1] uf_okD(3) rS w by auto
    show ?thesis
    proof (cases "r = w")
      case True
      then have "r' = r" "ic' = ic1" "mk' = mk" "mu' = mu" using e \<open>mk ! k\<close> f by (simp_all add: visitClause_def)
      then show ?thesis using add [OF c1 \<open>mk ! k\<close>] True lv lp cl by simp
    next
      case False
      have merge: "comp_inv n m S U (insert (v, k) D) icx mk mu \<and> leads icx v b"
        if ab: "{a, b} = {r, w}" "a \<noteq> b" and icx: "icx = set_parent (set_size ic1 b s) a b"
          and s: "ic_size (ic1 ! a) < s" "ic_size (ic1 ! b) \<le> s" for a b s icx
      proof -
        have ab': "a \<in> S - U" "b \<in> S - U" "ic_par ic1 a = a" "ic_par ic1 b = b"
          using ab rS(1) w wr by (auto simp: doubleton_eq_iff)
        note u = union_ok(2) [OF comp_invD(1) [OF c1] _ _ ab(2) ab'(3,4) s, folded icx]
        have u': "leads icx x y \<longleftrightarrow> (leads ic1 x a \<and> y = b) \<or> (leads ic1 x y \<and> y \<noteq> a)" for x y
          using u ab'(1,2) by blast
        have lb: "leads icx v y \<longleftrightarrow> y = b" "leads icx ?p y \<longleftrightarrow> y = b" for y
          unfolding u' lv lp using ab by (auto simp: doubleton_eq_iff)
        have "a < length ic1" "a \<noteq> k + n + 1" using uf_okD(1) [OF comp_invD(1) [OF c1]] ab'(1) S by auto
        then have "ic_par icx (k + n + 1) = ?p" using cl by (simp add: icx)
        then show ?thesis
          using add [of icx] comp_inv_union [OF c1 S U ab'(1,2) ab(2) ab'(3,4) s, folded icx] \<open>mk ! k\<close> lb by simp
      qed
      have lenS: "r < length ic1" "w < length ic1" using uf_okD(1) [OF comp_invD(1) [OF c1]] rS w by auto
      show ?thesis
      proof (cases "ic_size (ic1 ! r) < ic_size (ic1 ! w)")
        case True
        then have "r' = w" "ic' = set_parent (set_size ic1 w (ic_size (ic1 ! w) + ic_size (ic1 ! r))) r w"
          "mk' = mk" "mu' = mu"
          using e \<open>mk ! k\<close> f False wr(1) by (auto simp: visitClause_def Let_def)
        then show ?thesis using merge [of r w ic' "ic_size (ic1 ! w) + ic_size (ic1 ! r)"] True False by simp
      next
        case gt: False
        then have "r' = r" "ic' = set_parent (set_size ic1 r (ic_size (ic1 ! r) + ic_size (ic1 ! w))) w r"
          "mk' = mk" "mu' = mu"
          using e \<open>mk ! k\<close> f False wr(2) by (auto simp: visitClause_def Let_def)
        then show ?thesis using merge [of w r ic' "ic_size (ic1 ! r) + ic_size (ic1 ! w)"] False pos
          by (simp add: insert_commute)
      qed
    qed
  qed
qed


section \<open>The first loop\<close>

lemma visitClauses_ok:
  assumes "comp_inv n m S U D ic mk mu" "S \<subseteq> {..n}" "U \<subseteq> S" "v \<in> S - U" "leads ic v r" "\<forall>k\<in>set ks. k < m"
    "fold (visitClause n) ks (r, ic, mk, mu) = (r', ic', mk', mu')"
  shows "comp_inv n m S U (D \<union> Pair v ` set ks) ic' mk' mu'"
  using assms
proof (induction ks arbitrary: D r ic mk mu)
  case (Cons k ks)
  obtain r1 ic1 mk1 mu1 where e: "visitClause n k (r, ic, mk, mu) = (r1, ic1, mk1, mu1)"
    by (metis prod_cases4)
  have k: "k < m" using Cons.prems(6) by simp
  note s = visitClause_ok [OF Cons.prems(1-5) k e]
  have "comp_inv n m S U (insert (v, k) D \<union> Pair v ` set ks) ic' mk' mu'"
    by (rule Cons.IH [where ic = ic1 and mk = mk1 and mu = mu1 and r = r1, OF _ Cons.prems(2-4)])
      (use s Cons.prems(6,7) e in auto)
  moreover have "insert (v, k) D \<union> Pair v ` set ks = D \<union> Pair v ` set (k # ks)" by auto
  ultimately show ?case by simp
qed simp

definition active_idx :: "cnf \<Rightarrow> lit set \<Rightarrow> var \<Rightarrow> nat set" where
  "active_idx F T v = {i. i < length F \<and> \<not> sat_by T (F ! i) \<and> v \<in> clause_vars (F ! i)}"

lemma occurrences_of_var:
  assumes c: "core_ok n F T f" and v: "v \<le> n"
  shows "set (getVecIdxClause f (makeLit v False) @ getVecIdxClause f (neg (makeLit v False))) = active_idx F T v"
proof -
  have lv: "occ_level F T (intern l) (occ_of f l)" if "var l = v" for l
  proof -
    have "intern l < 2 * (n + 1)" using v that intern_bound [of l "n + 1"] by simp
    then show ?thesis using c by (simp add: core_ok_def occ_of_def)
  qed
  have s: "set (getVecIdxClause f l) = {i. i < length F \<and> \<not> sat_by T (F ! i) \<and> l \<in> set (F ! i)}"
    if "var l = v" for l
    unfolding getVecIdxClause_def level_clauses(1) [OF lv [OF that]] by auto
  have "v \<in> clause_vars c \<longleftrightarrow> makeLit v False \<in> set c \<or> makeLit v True \<in> set c" for c
  proof
    assume "v \<in> clause_vars c"
    then obtain l where l: "l \<in> set c" "var l = v" by (auto simp: clause_vars_def)
    then have "makeLit v (sign l) \<in> set c" using makeLit_var_sign [of l] by simp
    then show "makeLit v False \<in> set c \<or> makeLit v True \<in> set c" by (cases "sign l") simp_all
  next
    assume "makeLit v False \<in> set c \<or> makeLit v True \<in> set c"
    then have "v = var (makeLit v False) \<and> makeLit v False \<in> set c \<or> v = var (makeLit v True) \<and> makeLit v True \<in> set c"
      by simp
    then show "v \<in> clause_vars c" unfolding clause_vars_def by blast
  qed
  then show ?thesis using s [of "makeLit v False"] s [of "neg (makeLit v False)"] by (auto simp: active_idx_def)
qed

lemma comp_inv_shrink:
  assumes c: "comp_inv n m S U D ic mk mu" and v: "v \<in> U" "U \<subseteq> S"
  shows "comp_inv n m S (U - {v}) D ic mk mu"
proof -
  note i = comp_invD [OF c]
  have "r \<notin> U - {v}" if "x \<in> S - (U - {v})" "leads ic x r" for x r
  proof (cases "x = v")
    case True
    then show ?thesis using i(8) v(1) leads_of_root [of ic v r] that(2) by auto
  qed (use i(9) that in auto)
  then show ?thesis using i v unfolding comp_inv_def by blast
qed

lemma visitVar_ok:
  assumes c: "comp_inv n (length F) S U D ic mk mu" and S: "S \<subseteq> {..n}" and U: "U \<subseteq> S" and v: "v \<in> U"
    and f: "core_ok n F T f" and e: "visitVar f (ic, mk, mu) v = (ic', mk', mu')"
  shows "comp_inv n (length F) S (U - {v}) (D \<union> {(v, i) | i. v \<notin> var ` T \<and> i \<in> active_idx F T v}) ic' mk' mu'"
proof -
  have vn: "v \<le> n" using v U S by auto
  have a: "varIsAssigned f v \<longleftrightarrow> v \<in> var ` T"
    using f vn value_of_Undef by (auto simp: varIsAssigned_def core_ok_def)
  note c' = comp_inv_shrink [OF c v U]
  show ?thesis
  proof (cases "v \<in> var ` T")
    case True
    then have 0: "{(v, i) | i. v \<notin> var ` T \<and> i \<in> active_idx F T v} = {}" by blast
    have "ic' = ic" "mk' = mk" "mu' = mu" using e a True by (auto simp: visitVar_def)
    then show ?thesis unfolding 0 using c' by simp
  next
    case False
    let ?ks = "getVecIdxClause f (makeLit v False) @ getVecIdxClause f (neg (makeLit v False))"
    obtain r' where r': "fold (visitClause n) ?ks (v, ic, mk, mu) = (r', ic', mk', mu')"
      using e False a f by (cases "fold (visitClause n) ?ks (v, ic, mk, mu)")
        (auto simp: visitVar_def core_ok_def Let_def)
    have ks: "set ?ks = active_idx F T v" by (rule occurrences_of_var [OF f vn])
    have "comp_inv n (length F) S (U - {v}) (D \<union> Pair v ` set ?ks) ic' mk' mu'"
    proof (rule visitClauses_ok [OF c' S _ _ _ _ r'])
      show "U - {v} \<subseteq> S" "v \<in> S - (U - {v})" using U v by auto
      show "leads ic v v" using comp_invD(8) [OF c] v by (auto intro: leads.root)
      show "\<forall>k\<in>set ?ks. k < length F" unfolding ks by (auto simp: active_idx_def)
    qed
    moreover have "Pair v ` set ?ks = {(v, i) | i. v \<notin> var ` T \<and> i \<in> active_idx F T v}" unfolding ks using False by auto
    ultimately show ?thesis by simp
  qed
qed

lemma visitVars_ok:
  assumes "comp_inv n (length F) S U D ic mk mu" "S \<subseteq> {..n}" "U \<subseteq> S" "set vs \<subseteq> U" "distinct vs" "core_ok n F T f"
    "foldl (visitVar f) (ic, mk, mu) vs = (ic', mk', mu')"
  shows "comp_inv n (length F) S (U - set vs)
    (D \<union> {(v, i). v \<in> set vs \<and> v \<notin> var ` T \<and> i \<in> active_idx F T v}) ic' mk' mu'"
  using assms
proof (induction vs arbitrary: U D ic mk mu)
  case (Cons v vs)
  obtain ic1 mk1 mu1 where e: "visitVar f (ic, mk, mu) v = (ic1, mk1, mu1)" by (metis prod_cases3)
  have v: "v \<in> U" using Cons.prems(4) by simp
  note s = visitVar_ok [OF Cons.prems(1-3) v Cons.prems(6) e]
  have "comp_inv n (length F) S (U - {v} - set vs)
      ((D \<union> {(v, i) | i. v \<notin> var ` T \<and> i \<in> active_idx F T v})
        \<union> {(v, i). v \<in> set vs \<and> v \<notin> var ` T \<and> i \<in> active_idx F T v}) ic' mk' mu'"
    using Cons.IH [OF s Cons.prems(2)] Cons.prems(3-7) e by auto
  moreover have "U - {v} - set vs = U - set (v # vs)" by auto
  moreover have "(D \<union> {(v, i) | i. v \<notin> var ` T \<and> i \<in> active_idx F T v})
        \<union> {(v, i). v \<in> set vs \<and> v \<notin> var ` T \<and> i \<in> active_idx F T v} =
      D \<union> {(x, i). x \<in> set (v # vs) \<and> x \<notin> var ` T \<and> i \<in> active_idx F T x}" by auto
  ultimately show ?case by simp
qed simp

lemma init_clusters:
  assumes "\<forall>v\<in>set vs. v < length ic"
  defines "ic0 \<equiv> foldl (\<lambda>ic v. set_size (set_parent ic v v) v 1) ic vs"
  shows "length ic0 = length ic" "\<forall>x. ic_pos (ic0 ! x) = ic_pos (ic ! x)"
    "\<forall>v\<in>set vs. ic_par ic0 v = v \<and> ic_size (ic0 ! v) = 1"
proof -
  have "length ic0 = length ic \<and> (\<forall>x. ic_pos (ic0 ! x) = ic_pos (ic ! x))
    \<and> (\<forall>v. v \<in> set vs \<or> (v < length ic \<and> ic_par ic v = v \<and> ic_size (ic ! v) = 1) \<longrightarrow>
          ic_par ic0 v = v \<and> ic_size (ic0 ! v) = 1)"
    using assms(1) unfolding ic0_def
  proof (induction vs arbitrary: ic)
    case (Cons v vs)
    let ?ic = "set_size (set_parent ic v v) v 1"
    note IH = Cons.IH [of ?ic]
    show ?case using IH Cons.prems by auto
  qed simp
  then show "length ic0 = length ic" "\<forall>x. ic_pos (ic0 ! x) = ic_pos (ic ! x)"
    "\<forall>v\<in>set vs. ic_par ic0 v = v \<and> ic_size (ic0 ! v) = 1" by blast+
qed

section \<open>The second loop\<close>

definition isolated :: "InfoCluster list \<Rightarrow> var \<Rightarrow> bool" where
  "isolated ic v \<longleftrightarrow> leads ic v v \<and> ic_size (ic ! v) = 1"

definition coll_inv where
  "coll_inv S A ic1 ps varCo fs rootSet ic \<longleftrightarrow>
     uf_ok S ic \<and> length ic = length ic1 \<and> (\<forall>x y. leads ic x y \<longleftrightarrow> leads ic1 x y)
     \<and> (\<forall>x. ic_size (ic ! x) = ic_size (ic1 ! x))
     \<and> distinct rootSet \<and> set rootSet \<subseteq> S \<and> length varCo = length rootSet
     \<and> (\<forall>x<length ic. ic_pos (ic ! x) = - 1 \<and> x \<notin> set rootSet \<or> (\<exists>k<length rootSet. rootSet ! k = x \<and> ic_pos (ic ! x) = int k))
     \<and> fs = filter (\<lambda>v. v \<notin> A \<and> isolated ic1 v) ps
     \<and> (\<forall>k<length rootSet. varCo ! k = filter (\<lambda>v. v \<notin> A \<and> \<not> isolated ic1 v \<and> leads ic1 v (rootSet ! k)) ps
          \<and> varCo ! k \<noteq> [])
     \<and> (\<forall>v\<in>set ps. v \<notin> A \<longrightarrow> \<not> isolated ic1 v \<longrightarrow> (\<exists>r\<in>set rootSet. leads ic1 v r))"

lemma coll_invD:
  assumes "coll_inv S A ic1 ps varCo fs rootSet ic"
  shows "uf_ok S ic" "length ic = length ic1" "\<forall>x y. leads ic x y \<longleftrightarrow> leads ic1 x y"
    "\<forall>x. ic_size (ic ! x) = ic_size (ic1 ! x)" "distinct rootSet" "set rootSet \<subseteq> S" "length varCo = length rootSet"
    "\<forall>x<length ic. ic_pos (ic ! x) = - 1 \<and> x \<notin> set rootSet \<or> (\<exists>k<length rootSet. rootSet ! k = x \<and> ic_pos (ic ! x) = int k)"
    "fs = filter (\<lambda>v. v \<notin> A \<and> isolated ic1 v) ps"
    "\<forall>k<length rootSet. varCo ! k = filter (\<lambda>v. v \<notin> A \<and> \<not> isolated ic1 v \<and> leads ic1 v (rootSet ! k)) ps
       \<and> varCo ! k \<noteq> []"
    "\<forall>v\<in>set ps. v \<notin> A \<longrightarrow> \<not> isolated ic1 v \<longrightarrow> (\<exists>r\<in>set rootSet. leads ic1 v r)"
  by (insert assms, unfold coll_inv_def, (elim conjE, assumption)+)

text \<open>One variable goes to the list of its root.\<close>

lemma coll_inv_put:
  assumes c: "coll_inv S A ic1 ps varCo fs rootSet ic" and v: "v \<notin> A" "\<not> isolated ic1 v"
    and k: "k < length rootSet" "leads ic1 v (rootSet ! k)"
  shows "coll_inv S A ic1 (ps @ [v]) (varCo[k := varCo ! k @ [v]]) fs rootSet ic"
proof -
  note i = coll_invD [OF c]
  have "leads ic1 v (rootSet ! j) \<longleftrightarrow> j = k" if "j < length rootSet" for j
    using k leads_det [OF k(2)] nth_eq_iff_index_eq [OF i(5) that k(1)] by blast
  then have d: "\<forall>j<length rootSet. varCo[k := varCo ! k @ [v]] ! j =
        filter (\<lambda>v. v \<notin> A \<and> \<not> isolated ic1 v \<and> leads ic1 v (rootSet ! j)) (ps @ [v])
      \<and> varCo[k := varCo ! k @ [v]] ! j \<noteq> []"
    using i(7,10) k(1) v by (auto simp: nth_list_update)
  moreover have "\<exists>r\<in>set rootSet. leads ic1 v r" using k nth_mem by blast
  ultimately show ?thesis
    unfolding coll_inv_def using i(7,9,11) v by (intro conjI i(1-6,8) d) simp_all
qed


text \<open>A variable whose root has no list yet opens one.\<close>

lemma coll_inv_new:
  assumes c: "coll_inv S A ic1 ps varCo fs rootSet ic" and v: "v \<notin> A" "\<not> isolated ic1 v"
    and r: "leads ic1 v r" "r \<in> S" "r \<notin> set rootSet"
  shows "coll_inv S A ic1 (ps @ [v]) (varCo @ [[v]]) fs (rootSet @ [r]) (set_pos ic r (int (length varCo)))"
proof -
  note i = coll_invD [OF c]
  let ?ic = "set_pos ic r (int (length varCo))" and ?rs = "rootSet @ [r]" and ?Q = "\<lambda>r v. v \<notin> A \<and> \<not> isolated ic1 v \<and> leads ic1 v r"
  have rl: "r < length ic" by (rule uf_okD(1) [OF i(1) r(2)])
  have "\<not> ?Q r v'" if "v' \<in> set ps" for v'
  proof
    assume q: "?Q r v'"
    with i(11) that obtain r' where "r' \<in> set rootSet" "leads ic1 v' r'" by blast
    with q r(3) leads_det show False by blast
  qed
  then have none: "filter (?Q r) ps = []" by (simp add: filter_empty_conv)
  have d: "\<forall>j<length ?rs. (varCo @ [[v]]) ! j = filter (?Q (?rs ! j)) (ps @ [v]) \<and> (varCo @ [[v]]) ! j \<noteq> []"
  proof (intro allI impI)
    fix j assume j: "j < length ?rs"
    show "(varCo @ [[v]]) ! j = filter (?Q (?rs ! j)) (ps @ [v]) \<and> (varCo @ [[v]]) ! j \<noteq> []"
    proof (cases "j < length rootSet")
      case True
      have "rootSet ! j \<noteq> r" using r(3) True nth_mem by blast
      then have "\<not> leads ic1 v (rootSet ! j)" using leads_det r(1) by blast
      then show ?thesis using i(7) i(10) [rule_format, OF True] True by (auto simp: nth_append)
    next
      case False
      then have "j = length rootSet" using j by simp
      then show ?thesis using none v r(1) i(7) by (simp add: nth_append)
    qed
  qed
  have pos: "\<forall>x<length ?ic. ic_pos (?ic ! x) = - 1 \<and> x \<notin> set ?rs \<or> (\<exists>k<length ?rs. ?rs ! k = x \<and> ic_pos (?ic ! x) = int k)"
  proof (intro allI impI)
    fix x assume x: "x < length ?ic"
    show "ic_pos (?ic ! x) = - 1 \<and> x \<notin> set ?rs \<or> (\<exists>k<length ?rs. ?rs ! k = x \<and> ic_pos (?ic ! x) = int k)"
    proof (cases "x = r")
      case True
      then have "?rs ! length rootSet = x \<and> ic_pos (?ic ! x) = int (length rootSet)" using rl i(7) by simp
      moreover have "length rootSet < length ?rs" by simp
      ultimately show ?thesis by blast
    next
      case False
      then have p: "ic_pos (?ic ! x) = ic_pos (ic ! x)" using rl by simp
      from i(8) x consider "ic_pos (ic ! x) = - 1" "x \<notin> set rootSet" |
        k where "k < length rootSet" "rootSet ! k = x" "ic_pos (ic ! x) = int k" by auto
      then show ?thesis
      proof cases
        case 1
        then show ?thesis using False p by simp
      next
        case 2
        then have "k < length ?rs" "?rs ! k = x" by (simp_all add: nth_append)
        with 2(3) p show ?thesis by metis
      qed
    qed
  qed
  show ?thesis
    unfolding coll_inv_def using i(1-6,7,9,11) v r rl by (intro conjI d pos) (auto simp del: set_pos_reads(3))
qed

lemma coll_inv_skip:
  assumes c: "coll_inv S A ic1 ps varCo fs rootSet ic" and v: "v \<in> A \<or> isolated ic1 v"
  shows "coll_inv S A ic1 (ps @ [v]) varCo (if v \<in> A then fs else fs @ [v]) rootSet ic"
proof -
  note i = coll_invD [OF c]
  have f: "(if v \<in> A then fs else fs @ [v]) = filter (\<lambda>v. v \<notin> A \<and> isolated ic1 v) (ps @ [v])"
    using i(9) v by auto
  have "filter (\<lambda>v. v \<notin> A \<and> \<not> isolated ic1 v \<and> leads ic1 v r) (ps @ [v]) =
      filter (\<lambda>v. v \<notin> A \<and> \<not> isolated ic1 v \<and> leads ic1 v r) ps" for r
    using v by auto
  then have d: "\<forall>k<length rootSet. varCo ! k = filter (\<lambda>v. v \<notin> A \<and> \<not> isolated ic1 v \<and> leads ic1 v (rootSet ! k)) (ps @ [v])
      \<and> varCo ! k \<noteq> []"
    using i(10) by metis
  have g: "\<forall>v\<in>set (ps @ [v]). v \<notin> A \<longrightarrow> \<not> isolated ic1 v \<longrightarrow> (\<exists>r\<in>set rootSet. leads ic1 v r)"
    using i(11) v by auto
  show ?thesis unfolding coll_inv_def by (intro conjI i(1-8) f d g)
qed

lemma collectVar_ok:
  assumes c: "coll_inv S (var ` T) ic1 ps varCo fs rootSet ic" and S: "S \<subseteq> {..n}" and v: "v \<in> S"
    and f: "core_ok n F T f" and e: "collectVar f (varCo, fs, rootSet, ic) v = (varCo', fs', rootSet', ic')"
  shows "coll_inv S (var ` T) ic1 (ps @ [v]) varCo' fs' rootSet' ic'"
proof -
  note i = coll_invD [OF c]
  have a: "varIsAssigned f v \<longleftrightarrow> v \<in> var ` T"
    using f v S value_of_Undef by (auto simp: varIsAssigned_def core_ok_def)
  have iso: "ic_par ic v = v \<and> ic_size (ic ! v) = 1 \<longleftrightarrow> isolated ic1 v"
    using i(3,4) leads_self [of ic v] by (simp add: isolated_def)
  consider "v \<in> var ` T" | "v \<notin> var ` T" "isolated ic1 v" | "v \<notin> var ` T" "\<not> isolated ic1 v" by blast
  then show ?thesis
  proof cases
    case 1
    then have "varCo' = varCo" "fs' = fs" "rootSet' = rootSet" "ic' = ic" using e a by (auto simp: collectVar_def)
    then show ?thesis using coll_inv_skip [OF c, of v] 1 by simp
  next
    case 2
    then have "varCo' = varCo" "fs' = fs @ [v]" "rootSet' = rootSet" "ic' = ic"
      using e a iso by (auto simp: collectVar_def)
    then show ?thesis using coll_inv_skip [OF c, of v] 2 by simp
  next
    case 3
    obtain r icx where fr: "findRoot (length ic) ic (ic_par ic v) = (r, icx)" by fastforce
    have F: "leads ic (ic_par ic v) r" "same_uf S ic icx"
      using findRoot_length [OF i(1) uf_okD(2) [OF i(1) v] fr] by auto
    have "leads ic v r" using F(1) leads.step [of ic v r] by (cases "ic_par ic v = v") auto
    then have l: "leads ic1 v r" using i(3) by blast
    have r: "r \<in> S" using leads_in [OF F(1) i(1) uf_okD(2) [OF i(1) v]] by blast
    have x: "uf_ok S icx" "length icx = length ic" "\<forall>x y. leads icx x y \<longleftrightarrow> leads ic x y"
      "\<forall>x. ic_size (icx ! x) = ic_size (ic ! x)" "\<forall>x. ic_pos (icx ! x) = ic_pos (ic ! x)"
      using F(2) unfolding same_uf_def by blast+
    have cx: "coll_inv S (var ` T) ic1 ps varCo fs rootSet icx"
      unfolding coll_inv_def using i(2-4,8) x by (intro conjI x(1) i(5-7,9-11)) auto
    have rl: "r < length icx" by (rule uf_okD(1) [OF x(1) r])
    have e': "(varCo', fs', rootSet', ic') =
       (let (varCo1, rootSet1, ic2) =
              (if ic_pos (icx ! r) = - 1
               then (varCo @ [[]], rootSet @ [r], set_pos icx r (int (length varCo)))
               else (varCo, rootSet, icx));
            k = nat (ic_pos (ic2 ! r))
        in (varCo1[k := varCo1 ! k @ [v]], fs, rootSet1, ic2))"
    proof -
      have "\<not> (ic_par ic v = v \<and> ic_size (ic ! v) = 1)" "\<not> varIsAssigned f v" using iso a 3 by blast+
      then show ?thesis using e fr unfolding collectVar_def prod.case Let_def by (simp only: if_False prod.case)
    qed
    show ?thesis
    proof (cases "ic_pos (icx ! r) = - 1")
      case True
      then have "r \<notin> set rootSet" using coll_invD(8) [OF cx] rl by auto
      moreover have "varCo' = varCo @ [[v]]" "fs' = fs" "rootSet' = rootSet @ [r]" "ic' = set_pos icx r (int (length varCo))"
        using e' True rl by (simp_all add: Let_def)
      ultimately show ?thesis using coll_inv_new [OF cx 3 l r] by simp
    next
      case False
      then obtain k where k: "k < length rootSet" "rootSet ! k = r" "ic_pos (icx ! r) = int k"
        using coll_invD(8) [OF cx] rl by blast
      then have "varCo' = varCo[k := varCo ! k @ [v]]" "fs' = fs" "rootSet' = rootSet" "ic' = icx"
        using e' False by (simp_all add: Let_def)
      then show ?thesis using coll_inv_put [OF cx 3 k(1)] l k(2) by simp
    qed
  qed
qed

lemma collectVars_ok:
  assumes "coll_inv S (var ` T) ic1 ps varCo fs rootSet ic" "S \<subseteq> {..n}" "set vs \<subseteq> S" "core_ok n F T f"
    "foldl (collectVar f) (varCo, fs, rootSet, ic) vs = (varCo', fs', rootSet', ic')"
  shows "coll_inv S (var ` T) ic1 (ps @ vs) varCo' fs' rootSet' ic'"
  using assms
proof (induction vs arbitrary: ps varCo fs rootSet ic)
  case (Cons v vs)
  obtain v1 f1 r1 i1 where e: "collectVar f (varCo, fs, rootSet, ic) v = (v1, f1, r1, i1)" by (metis prod_cases4)
  have v: "v \<in> S" using Cons.prems(3) by simp
  note s = collectVar_ok [OF Cons.prems(1,2) v Cons.prems(4) e]
  show ?case using Cons.IH [OF s Cons.prems(2) _ Cons.prems(4)] Cons.prems(3,5) e by simp
qed simp


section \<open>The partition\<close>

lemma partition_ok:
  assumes c: "comp_inv n (length F) (set S) {} {(v, i). v \<in> set S \<and> v \<notin> A \<and> i \<in> active_idx F T v} ic1 mk mu"
    and k: "coll_inv (set S) A ic1 S varCo fs rootSet ic" and S: "distinct S" and A: "A = var ` T"
  shows "comps_ok F T S varCo fs"
proof -
  note k' = coll_invD [OF k]
  let ?Q = "\<lambda>r v. v \<notin> A \<and> \<not> isolated ic1 v \<and> leads ic1 v r"
  have D: "mk ! i" "leads ic1 v r \<longleftrightarrow> leads ic1 (ic_par ic1 (i + n + 1)) r" "i < length F"
    if "v \<in> set S" "v \<notin> A" "i \<in> active_idx F T v" for v i r
    using comp_invD(5) [OF c] that by blast+
  have noniso: "\<not> isolated ic1 v" if "v \<in> set S" "v \<notin> A" "i \<in> active_idx F T v" for v i
  proof
    assume iso: "isolated ic1 v"
    then have "leads ic1 (ic_par ic1 (i + n + 1)) v" using D(2) [OF that] by (simp add: isolated_def)
    then have "2 \<le> ic_size (ic1 ! v)" using comp_invD(4) [OF c] D(1,3) [OF that] by blast
    with iso show False by (simp add: isolated_def)
  qed
  have sets: "set (varCo ! j) = {v \<in> set S. ?Q (rootSet ! j) v}" if "j < length varCo" for j
    using k'(7,10) that by auto
  have in_cs: "(\<exists>C\<in>set varCo. v \<in> set C) \<longleftrightarrow> v \<in> set S \<and> v \<notin> A \<and> \<not> isolated ic1 v" for v
  proof
    assume "\<exists>C\<in>set varCo. v \<in> set C"
    then obtain j where "j < length varCo" "v \<in> set (varCo ! j)" by (metis in_set_conv_nth)
    then show "v \<in> set S \<and> v \<notin> A \<and> \<not> isolated ic1 v" using sets by blast
  next
    assume v: "v \<in> set S \<and> v \<notin> A \<and> \<not> isolated ic1 v"
    then obtain j where j: "j < length rootSet" "leads ic1 v (rootSet ! j)" using k'(11) by (metis in_set_conv_nth)
    then have "v \<in> set (varCo ! j)" using sets v k'(7) by auto
    then show "\<exists>C\<in>set varCo. v \<in> set C" using j k'(7) by (metis nth_mem)
  qed
  have fs: "set fs = {v \<in> set S. v \<notin> A \<and> isolated ic1 v}" using k'(9) by auto
  have ci: "\<exists>i\<in>active_idx F T v. F ! i = cl" if "cl \<in> set F" "\<not> sat_by T cl" "v \<in> clause_vars cl" for cl v
    using that by (auto simp: active_idx_def in_set_conv_nth)
  show ?thesis
    unfolding comps_ok_def
  proof (intro conjI)
    show "distinct fs" using k'(9) S by simp
    show "\<forall>C\<in>set varCo. C \<noteq> [] \<and> distinct C \<and> (sorted S \<longrightarrow> sorted C)"
    proof
      fix C assume "C \<in> set varCo"
      then obtain j where "j < length varCo" "C = varCo ! j" by (metis in_set_conv_nth)
      then have "C = filter (?Q (rootSet ! j)) S" "C \<noteq> []" using k'(7,10) by auto
      then show "C \<noteq> [] \<and> distinct C \<and> (sorted S \<longrightarrow> sorted C)" using S by (simp add: sorted_wrt_filter)
    qed
    show "\<forall>i<length varCo. \<forall>j<length varCo. i \<noteq> j \<longrightarrow> set (varCo ! i) \<inter> set (varCo ! j) = {}"
    proof (intro allI impI)
      fix i j assume ij: "i < length varCo" "j < length varCo" "i \<noteq> j"
      then have "rootSet ! i \<noteq> rootSet ! j" using k'(5,7) by (simp add: nth_eq_iff_index_eq)
      then have "\<not> (leads ic1 v (rootSet ! i) \<and> leads ic1 v (rootSet ! j))" for v using leads_det by blast
      then show "set (varCo ! i) \<inter> set (varCo ! j) = {}" using sets ij by auto
    qed
    show "set fs \<inter> (\<Union>C\<in>set varCo. set C) = {}" using in_cs fs by blast
    show "set fs \<union> (\<Union>C\<in>set varCo. set C) = set S - var ` T" using in_cs fs unfolding A by blast
    show "\<forall>cl\<in>set F. \<not> sat_by T cl \<longrightarrow> clause_vars cl \<inter> set fs = {}"
      using ci noniso unfolding fs by blast
    show "\<forall>cl\<in>set F. \<not> sat_by T cl \<longrightarrow> (\<forall>C\<in>set varCo. clause_vars cl \<inter> set C \<noteq> {} \<longrightarrow>
           clause_vars cl \<inter> (set S - var ` T) \<subseteq> set C)"
    proof (intro ballI impI subsetI)
      fix cl C u assume cl: "cl \<in> set F" "\<not> sat_by T cl" and C: "C \<in> set varCo" "clause_vars cl \<inter> set C \<noteq> {}"
        and u: "u \<in> clause_vars cl \<inter> (set S - var ` T)"
      obtain j where j: "j < length varCo" "C = varCo ! j" using C(1) by (metis in_set_conv_nth)
      obtain v where v: "v \<in> clause_vars cl" "v \<in> set C" using C(2) by blast
      obtain i where i: "i \<in> active_idx F T v" "F ! i = cl" using ci [OF cl v(1)] by blast
      have ui: "i \<in> active_idx F T u" using i u cl by (auto simp: active_idx_def)
      have vS: "v \<in> set S" "v \<notin> A" "leads ic1 v (rootSet ! j)" using v(2) sets j by auto
      have uS: "u \<in> set S" "u \<notin> A" using u A by auto
      have "leads ic1 u (rootSet ! j)" using D(2) [OF vS(1,2) i(1)] D(2) [OF uS ui] vS(3) by blast
      then show "u \<in> set C" using sets j uS noniso [OF uS ui] by simp
    qed
  qed
qed

section \<open>Leaving the scratch arrays clean\<close>

lemma reset_pos:
  assumes "\<forall>x<length ic. ic_pos (ic ! x) = - 1 \<or> x \<in> set rs"
  shows "\<forall>c\<in>set (foldl (\<lambda>ic v. set_pos ic v (- 1)) ic rs). ic_pos c = - 1"
    "length (foldl (\<lambda>ic v. set_pos ic v (- 1)) ic rs) = length ic"
proof -
  have "length (foldl (\<lambda>ic v. set_pos ic v (- 1)) ic rs) = length ic
    \<and> (\<forall>x<length ic. ic_pos (foldl (\<lambda>ic v. set_pos ic v (- 1)) ic rs ! x) = - 1)"
    using assms
  proof (induction rs arbitrary: ic)
    case (Cons r rs)
    have "\<forall>x<length (set_pos ic r (- 1)). ic_pos (set_pos ic r (- 1) ! x) = - 1 \<or> x \<in> set rs"
      using Cons.prems by (cases "r < length ic") (auto simp: set_pos_def nth_list_update)
    from Cons.IH [OF this] show ?case by simp
  qed simp
  then show "\<forall>c\<in>set (foldl (\<lambda>ic v. set_pos ic v (- 1)) ic rs). ic_pos c = - 1"
    "length (foldl (\<lambda>ic v. set_pos ic v (- 1)) ic rs) = length ic"
    by (auto simp: in_set_conv_nth)
qed

lemma reset_marks:
  assumes "set mu = {i. i < length mk \<and> mk ! i}"
  shows "foldl (\<lambda>mk idx. mk[idx := False]) mk mu = replicate (length mk) False"
proof -
  have len: "length (foldl (\<lambda>mk idx. mk[idx := False]) mk mu) = length mk" for mk :: "bool list" and mu
    by (induction mu arbitrary: mk) auto
  have nth: "foldl (\<lambda>mk idx. mk[idx := False]) mk mu ! i \<longleftrightarrow> mk ! i \<and> i \<notin> set mu"
    if "i < length mk" for mk mu i
    using that
  proof (induction mu arbitrary: mk)
    case (Cons j mu)
    then show ?case by (cases "j = i") auto
  qed simp
  show ?thesis
  proof (rule nth_equalityI)
    fix i assume "i < length (foldl (\<lambda>mk idx. mk[idx := False]) mk mu)"
    then have i: "i < length mk" unfolding len .
    then show "foldl (\<lambda>mk idx. mk[idx := False]) mk mu ! i = replicate (length mk) False ! i"
      using nth [OF i, of mu] assms by simp
  qed (simp add: len)
qed

lemma occ_eq_refl: "occ_is oc A B N Z \<Longrightarrow> occ_eq oc oc"
  unfolding occ_eq_def by blast

lemma equiv_scratch:
  assumes "core_ok n F T f"
  shows "equiv f (f\<lparr>cm_infoCluster := ic, cm_markView := mk, cm_mustUnMark := mu\<rparr>)"
proof -
  have "occ_eq (cm_occurrence f ! x) (cm_occurrence f ! x)" if "x < length (cm_occurrence f)" for x
    using assms that occ_eq_refl unfolding core_ok_def occ_level_def by metis
  then show ?thesis by (simp add: equiv_def)
qed

lemma computeConnectedComponent_ok:
  assumes inv: "dyn_inv n F f stk" and S: "distinct S" "\<forall>v\<in>set S. 1 \<le> v \<and> v \<le> n"
    and e: "cnf_computeConnectedComponent f S = ((cs, fs), f')"
  shows "dyn_inv n F f' stk \<and> comps_ok F (set (concat stk)) S cs fs"
proof -
  let ?T = "set (concat stk)" and ?m = "length F"
  have i: "cnf_ok n F" "trail_ok n (concat stk)" "scratch_ok n F f" "cm_inv n F f stk"
    using inv by (simp_all add: dyn_inv_def)
  note core = cm_inv_core [OF i(4)]
  have sc: "cm_markView f = replicate ?m False" "cm_mustUnMark f = []" "length (cm_infoCluster f) = n + ?m + 1"
    "\<forall>c\<in>set (cm_infoCluster f). ic_pos c = - 1"
    using i(3) unfolding scratch_ok_def by blast+
  define ic0 where "ic0 = foldl (\<lambda>ic v. set_size (set_parent ic v v) v 1) (cm_infoCluster f) S"
  have "\<forall>v\<in>set S. v < length (cm_infoCluster f)" using S(2) sc(3) by auto
  note i0 = init_clusters [OF this, folded ic0_def]
  obtain ic1 mk mu where e1: "foldl (visitVar f) (ic0, cm_markView f, cm_mustUnMark f) S = (ic1, mk, mu)"
    by (metis prod_cases3)
  obtain v2 f2 rs ic2 where e2: "foldl (collectVar f) ([], [], [], ic1) S = (v2, f2, rs, ic2)" by (metis prod_cases4)
  have r: "cs = v2" "fs = f2" "f' = f\<lparr>cm_infoCluster := foldl (\<lambda>ic v. set_pos ic v (- 1)) ic2 rs,
      cm_markView := foldl (\<lambda>mk idx. mk[idx := False]) mk mu, cm_mustUnMark := []\<rparr>"
    using e e1 e2 by (auto simp: cnf_computeConnectedComponent_def ic0_def)
  have Sn: "set S \<subseteq> {..n}" using S(2) by auto
  have c0: "comp_inv n ?m (set S) (set S) {} ic0 (cm_markView f) (cm_mustUnMark f)"
    unfolding comp_inv_def
  proof (intro conjI)
    show "uf_ok (set S) ic0" using i0 sc(3) S(2) by (auto simp: uf_ok_def)
    show "\<forall>x<length ic0. ic_pos (ic0 ! x) = - 1" using i0(1,2) sc(4) by simp
  qed (use i0 sc in auto)
  have c1: "comp_inv n ?m (set S) {} {(v, k). v \<in> set S \<and> v \<notin> var ` ?T \<and> k \<in> active_idx F ?T v} ic1 mk mu"
    using visitVars_ok [OF c0 Sn order_refl order_refl S(1) core e1] by simp
  note d1 = comp_invD [OF c1]
  have k0: "coll_inv (set S) (var ` ?T) ic1 [] [] [] [] ic1"
    using d1(1,6) by (simp add: coll_inv_def)
  have k: "coll_inv (set S) (var ` ?T) ic1 S v2 f2 rs ic2"
    using collectVars_ok [OF k0 Sn order_refl core e2] by simp
  note kd = coll_invD [OF k]
  have "\<forall>x<length ic2. ic_pos (ic2 ! x) = - 1 \<or> x \<in> set rs" using kd(8) nth_mem by metis
  note rp = reset_pos [OF this]
  have rm: "foldl (\<lambda>mk idx. mk[idx := False]) mk mu = replicate ?m False"
    using reset_marks [of mu mk] d1(3,7) by simp
  have "scratch_ok n F f'"
    using i(3) rp rm kd(2) d1(2) unfolding r(3) scratch_ok_def by simp
  moreover have "cm_inv n F f' stk" unfolding r(3) by (rule cm_inv_equiv [OF i(4) equiv_scratch [OF core] i(1)])
  moreover have "comps_ok F ?T S cs fs" unfolding r(1,2) by (rule partition_ok [OF c1 k S(1) refl])
  ultimately show ?thesis using i(1,2) by (simp add: dyn_inv_def)
qed

end
