(* ===== verification/CnfFormula.thy ===== *)
theory CnfFormula
  imports Components
begin

text \<open>
  \<^verbatim>\<open>CnfManagerDyn\<close> provides the interface of a formula manager: the laws of the locale
  \<open>formula_manager\<close> hold for the model of the code.
\<close>

lemma trivial_components:
  "foldl (\<lambda>(connected, freeVar) v.
       if A v then (connected, freeVar)
       else if Q v then (connected, freeVar @ [v]) else (connected @ [v], freeVar)) (c0, f0) S =
     (c0 @ filter (\<lambda>v. \<not> A v \<and> \<not> Q v) S, f0 @ filter (\<lambda>v. \<not> A v \<and> Q v) S)"
  by (induction S arbitrary: c0 f0) auto

lemma isFreeVariable_ok:
  assumes c: "core_ok n F T f" and v: "v \<le> n"
  shows "isFreeVariable f v \<longleftrightarrow> active_idx F T v = {}"
proof -
  have none: "getNbOccurrence f l = 0 \<longleftrightarrow> set (getVecIdxClause f l) = {}" if "var l = v" for l
  proof -
    have "intern l < 2 * (n + 1)" using v that intern_bound [of l "n + 1"] by simp
    then have "occ_level F T (intern l) (occ_of f l)" using c by (simp add: core_ok_def occ_of_def)
    then obtain A B N Z where "occ_is (occ_of f l) A B N Z" using level_clauses(4) by blast
    from occ_is_reads [OF this] show ?thesis
      by (simp add: getNbOccurrence_def getNbClauseLit_def getVecIdxClause_def)
  qed
  have "makeLitFalse v = neg (makeLit v False)" "makeLitTrue v = makeLit v False"
    by (simp_all add: makeLitFalse_eq makeLitTrue_eq)
  then have "isFreeVariable f v \<longleftrightarrow>
      set (getVecIdxClause f (makeLit v False) @ getVecIdxClause f (neg (makeLit v False))) = {}"
    using none [of "makeLit v False"] none [of "neg (makeLit v False)"] by (auto simp: isFreeVariable_def)
  then show ?thesis unfolding occurrences_of_var [OF c v] .
qed

lemma computeTrivialConnectedComponent_ok:
  assumes inv: "dyn_inv n F f stk" and S: "distinct S" "\<forall>v\<in>set S. 1 \<le> v \<and> v \<le> n"
    and e: "computeTrivialConnectedComponent f S = (cs, fs)"
  shows "comps_ok F (set (concat stk)) S cs fs"
proof -
  let ?T = "set (concat stk)"
  have core: "core_ok n F ?T f" using inv by (auto simp: dyn_inv_def dest: cm_inv_core)
  have a: "varIsAssigned f v \<longleftrightarrow> v \<in> var ` ?T" and q: "isFreeVariable f v \<longleftrightarrow> active_idx F ?T v = {}"
    if "v \<in> set S" for v
    using core S(2) that value_of_Undef isFreeVariable_ok [OF core, of v] by (auto simp: varIsAssigned_def core_ok_def)
  let ?C = "filter (\<lambda>v. \<not> varIsAssigned f v \<and> \<not> isFreeVariable f v) S"
  have r: "cs = (if ?C = [] then [] else [?C])" "fs = filter (\<lambda>v. \<not> varIsAssigned f v \<and> isFreeVariable f v) S"
    using e unfolding computeTrivialConnectedComponent_def trivial_components by (auto split: if_splits)
  have C: "set ?C = {v \<in> set S. v \<notin> var ` ?T \<and> active_idx F ?T v \<noteq> {}}"
    and fs: "set fs = {v \<in> set S. v \<notin> var ` ?T \<and> active_idx F ?T v = {}}"
    using a q unfolding r(2) by auto
  have cs: "(\<Union>C\<in>set cs. set C) = set ?C" unfolding r(1) by (simp del: set_filter)
  have act: "active_idx F ?T v \<noteq> {}" if "c \<in> set F" "\<not> sat_by ?T c" "v \<in> clause_vars c" for c v
    using that by (auto simp: active_idx_def in_set_conv_nth)
  show ?thesis
    unfolding comps_ok_def cs
  proof (intro conjI)
    show "distinct fs" unfolding r(2) using S(1) by simp
    show "\<forall>C\<in>set cs. C \<noteq> [] \<and> distinct C \<and> (sorted S \<longrightarrow> sorted C)"
      unfolding r(1) using S(1) by (simp add: sorted_wrt_filter)
    show "\<forall>i<length cs. \<forall>j<length cs. i \<noteq> j \<longrightarrow> set (cs ! i) \<inter> set (cs ! j) = {}" unfolding r(1) by simp
    show "set fs \<inter> set ?C = {}" unfolding C fs by blast
    show "set fs \<union> set ?C = set S - var ` ?T" unfolding C fs by blast
    show "\<forall>c\<in>set F. \<not> sat_by ?T c \<longrightarrow> clause_vars c \<inter> set fs = {}" using act unfolding fs by blast
    show "\<forall>c\<in>set F. \<not> sat_by ?T c \<longrightarrow> (\<forall>K\<in>set cs. clause_vars c \<inter> set K \<noteq> {} \<longrightarrow>
        clause_vars c \<inter> (set S - var ` ?T) \<subseteq> set K)"
    proof (intro ballI impI)
      fix c K assume c: "c \<in> set F" "\<not> sat_by ?T c" and K: "K \<in> set cs"
      have "K = ?C" using K unfolding r(1) by (simp split: if_splits)
      then show "clause_vars c \<inter> (set S - var ` ?T) \<subseteq> set K" using act [OF c] C by blast
    qed
  qed
qed

interpretation dyn: formula_manager cnfManagerDyn_fm n F "dyn_inv n F" for n F
proof (unfold_locales, goal_cases)
  case (1 f stk)
  then show ?case by (simp add: dyn_inv_def)
next
  case (2 f stk)
  then show ?case by (simp add: dyn_inv_def)
next
  case (3 f stk us us' f')
  then show ?case using dyn_pre by (simp add: cnfManagerDyn_fm_def)
next
  case (4 f us stk)
  then show ?case using dyn_post by (simp add: cnfManagerDyn_fm_def)
next
  case (5 f stk S cs fs f')
  then show ?case using computeConnectedComponent_ok by (simp add: cnfManagerDyn_fm_def)
next
  case (6 f stk S cs fs f')
  then show ?case using computeTrivialConnectedComponent_ok by (auto simp: cnfManagerDyn_fm_def)
qed

end
