(* ===== verification/Heuristics.thy ===== *)
theory Heuristics
  imports CnfFormula
begin

text \<open>
  The branching heuristics of \<^verbatim>\<open>src/src/heuristics\<close>: the scoring methods, the choice of a phase, the
  order given by a tree decomposition, and the three ways of choosing the literals to branch on.

  Doubles are elements of a linearly ordered field: the scores the code computes itself are sums
  of small powers of two, which doubles represent exactly; the activities of the solver are
  parameters. \<^verbatim>\<open>std::sort\<close> leaves the order of equal elements open; the model keeps theirs.
\<close>

section \<open>Scores and phases\<close>

datatype ScoringMethodType = SCORE_MOM | SCORE_DLCS | SCORE_VSIDS | SCORE_VSADS | SCORE_JWTS

datatype PhaseHeuristicType = PHASE_FALSE | PHASE_TRUE | PHASE_POLARITY | PHASE_OCCURRENCE

datatype BranchingHeuristicType =
  BRANCHING_CLASSIC | BRANCHING_LARGE_ARITY | BRANCHING_HYBRID_PARTIAL_CLASSIC

text \<open>What the heuristics read of the solver, and the options that its constructor keeps.\<close>

record ('s, 'd) heuristic_env =
  hv_solver :: "'s solver_if"
  hv_getActivity :: "'s \<Rightarrow> var \<Rightarrow> 'd"
  hv_getCountConflict :: "'s \<Rightarrow> var \<Rightarrow> 'd"
  hv_getPolarity :: "'s \<Rightarrow> var \<Rightarrow> bool"
  hv_scoring :: ScoringMethodType
  hv_phase :: PhaseHeuristicType
  hv_isReversed :: bool
  hv_freqDecay :: "32 word"
  hv_isDecisionVariable :: "bool list"
  hv_limitClause :: nat
  hv_partialOrder :: "var \<Rightarrow> nat"
  hv_scaleFactor :: 'd

record branchingHeuristic =
  bh_nbCall :: "32 word"
  bh_indexOfLargeClause :: "nat list"
  bh_markedVar :: "bool list"

definition getInitSize :: "'z cnfManager_scheme \<Rightarrow> nat \<Rightarrow> nat" where
  "getInitSize f i = length (cm_clauses f ! i)"

definition jwtsSum :: "'z cnfManager_scheme \<Rightarrow> nat list \<Rightarrow> 'd::linordered_field \<Rightarrow> 'd" where
  "jwtsSum f idx res =
     foldl (\<lambda>r i. if getInitSize f i > 5 then r else r + 1 / of_nat (push_bit (getSize f i) 1)) res idx"

definition score_Mom :: "'z cnfManager_scheme \<Rightarrow> var \<Rightarrow> 'd::linordered_field" where
  "score_Mom f v = of_nat (getNbBinaryClauseVar f v) * (1 / 4)"

definition score_Dlcs :: "'z cnfManager_scheme \<Rightarrow> var \<Rightarrow> 'd::linordered_field" where
  "score_Dlcs f v = of_nat (getNbClauseVar f v)"

definition score_Vsids :: "('s, 'd) heuristic_env \<Rightarrow> 's \<Rightarrow> var \<Rightarrow> 'd" where
  "score_Vsids H s v = hv_getActivity H s v"

definition score_Vsads ::
  "('s, 'd::linordered_field) heuristic_env \<Rightarrow> 's \<Rightarrow> 'z cnfManager_scheme \<Rightarrow> var \<Rightarrow> 'd" where
  "score_Vsads H s f v = hv_getCountConflict H s v + of_nat (getNbClauseVar f v)"

definition score_Jwts :: "'z cnfManager_scheme \<Rightarrow> var \<Rightarrow> 'd::linordered_field" where
  "score_Jwts f v =
     (let lp = makeLit v False;
          res = of_nat (length (getVecIdxClauseBin f lp) + length (getVecIdxClauseBin f (neg lp))) / 4;
          res1 = jwtsSum f (getVecIdxClauseNotBin f lp) res
      in jwtsSum f (getVecIdxClauseNotBin f (neg lp)) res1)"

definition computeScore :: "('s, 'd::linordered_field) heuristic_env \<Rightarrow> 's \<Rightarrow> 'z cnfManager_scheme \<Rightarrow> var \<Rightarrow> 'd" where
  "computeScore H s f =
     (case hv_scoring H of
        SCORE_MOM \<Rightarrow> score_Mom f
      | SCORE_DLCS \<Rightarrow> score_Dlcs f
      | SCORE_VSIDS \<Rightarrow> score_Vsids H s
      | SCORE_VSADS \<Rightarrow> score_Vsads H s f
      | SCORE_JWTS \<Rightarrow> score_Jwts f)"

definition hVar_decayCountConflict :: "('s, 'd) heuristic_env \<Rightarrow> 's \<Rightarrow> 's" where
  "hVar_decayCountConflict H s =
     (if hv_scoring H = SCORE_VSADS then slv_decayCountConflict (hv_solver H) s else s)"

text \<open>A phase \<open>x\<close> is turned round by \<^verbatim>\<open>(x + isReversed) & 1\<close>.\<close>

definition phase_False :: "bool \<Rightarrow> bool" where
  "phase_False isReversed = ((of_bool False + of_bool isReversed :: nat) AND 1 = 1)"

definition phase_True :: "bool \<Rightarrow> bool" where
  "phase_True isReversed = ((of_bool True + of_bool isReversed :: nat) AND 1 = 1)"

definition phase_Polarity :: "bool \<Rightarrow> bool \<Rightarrow> bool" where
  "phase_Polarity polarity isReversed = ((of_bool polarity + of_bool isReversed :: nat) AND 1 = 1)"

definition phase_Occurrence :: "'z cnfManager_scheme \<Rightarrow> var \<Rightarrow> bool \<Rightarrow> bool" where
  "phase_Occurrence f v isReversed =
     (let ret = getNbOccurrence f (makeLit v False) < getNbOccurrence f (makeLit v True)
      in (of_bool ret + of_bool isReversed :: nat) AND 1 = 1)"

definition selectPhase :: "('s, 'd) heuristic_env \<Rightarrow> 's \<Rightarrow> 'z cnfManager_scheme \<Rightarrow> var \<Rightarrow> bool" where
  "selectPhase H s f v =
     (case hv_phase H of
        PHASE_FALSE \<Rightarrow> phase_False (hv_isReversed H)
      | PHASE_TRUE \<Rightarrow> phase_True (hv_isReversed H)
      | PHASE_POLARITY \<Rightarrow> phase_Polarity (hv_getPolarity H s v) (hv_isReversed H)
      | PHASE_OCCURRENCE \<Rightarrow> phase_Occurrence f v (hv_isReversed H))"

text \<open>\<^verbatim>\<open>selectVariable\<close>: the first candidate with the best score.\<close>

definition selectVariable :: "(var \<Rightarrow> 'd::linorder) \<Rightarrow> (var \<Rightarrow> bool) \<Rightarrow> var list \<Rightarrow> var option" where
  "selectVariable score candidate vars =
     map_option fst
       (foldl (\<lambda>best v.
          if \<not> candidate v then best
          else case best of
                 None \<Rightarrow> Some (v, score v)
               | Some (w, bestScore) \<Rightarrow> if score v > bestScore then Some (v, score v) else best) None vars)"

definition isCandidate :: "('s, 'd) heuristic_env \<Rightarrow> 'z cnfManager_scheme \<Rightarrow> var \<Rightarrow> bool" where
  "isCandidate H f v \<longleftrightarrow> \<not> varIsAssigned f v \<and> hv_isDecisionVariable H ! v"

section \<open>The choice of literals\<close>

definition callAndDecay ::
  "('s, 'd) heuristic_env \<Rightarrow> branchingHeuristic \<Rightarrow> 's \<Rightarrow> branchingHeuristic \<times> 's" where
  "callAndDecay H h s =
     (let h' = h\<lparr>bh_nbCall := bh_nbCall h + 1\<rparr>
      in (h', if hv_freqDecay H \<noteq> 0 \<and> bh_nbCall h' mod hv_freqDecay H = 0
              then hVar_decayCountConflict H s else s))"

definition litOf ::
  "('s, 'd) heuristic_env \<Rightarrow> 's \<Rightarrow> 'z cnfManager_scheme \<Rightarrow> var option \<Rightarrow> lit list" where
  "litOf H s f v = (case v of None \<Rightarrow> [] | Some v \<Rightarrow> [makeLit v (selectPhase H s f v)])"

definition classic_selectLitSet ::
  "('s, 'd::linordered_field) heuristic_env \<Rightarrow> branchingHeuristic \<Rightarrow> 's \<Rightarrow> 'z cnfManager_scheme \<Rightarrow> var list
     \<Rightarrow> lit list \<times> branchingHeuristic \<times> 's" where
  "classic_selectLitSet H h0 s0 f vars =
     (let (h, s) = callAndDecay H h0 s0
      in (litOf H s f (selectVariable (computeScore H s f) (isCandidate H f) vars), h, s))"

definition hybrid_selectLitSet ::
  "('s, 'd::linordered_field) heuristic_env \<Rightarrow> branchingHeuristic \<Rightarrow> 's \<Rightarrow> 'z cnfManager_scheme \<Rightarrow> var list
     \<Rightarrow> lit list \<times> branchingHeuristic \<times> 's" where
  "hybrid_selectLitSet H h0 s0 f vars =
     (let (h, s) = callAndDecay H h0 s0;
          maxLevel = foldl (\<lambda>m v. if isCandidate H f v \<and> m < hv_partialOrder H v then hv_partialOrder H v else m)
                       0 vars;
          score = (\<lambda>v. computeScore H s f v
                     + hv_scaleFactor H * of_nat (maxLevel - hv_partialOrder H v))
      in (litOf H s f (selectVariable score (isCandidate H f) vars), h, s))"

definition newLargeArity :: "('s, 'd) heuristic_env \<Rightarrow> 'z cnfManager_scheme \<Rightarrow> branchingHeuristic" where
  "newLargeArity H f =
     \<lparr>bh_nbCall = 0,
      bh_indexOfLargeClause =
        filter (\<lambda>i. length (cm_clauses f ! i) \<ge> hv_limitClause H) [0 ..< length (cm_clauses f)],
      bh_markedVar = replicate (cm_nbVar f + 1) False\<rparr>"

definition newHeuristic :: branchingHeuristic where
  "newHeuristic = \<lparr>bh_nbCall = 0, bh_indexOfLargeClause = [], bh_markedVar = []\<rparr>"

text \<open>The largest clause of the component that is still large, as its size and its index.\<close>

definition largestClause ::
  "('s, 'd) heuristic_env \<Rightarrow> 'z cnfManager_scheme \<Rightarrow> bool list \<Rightarrow> nat list \<Rightarrow> nat \<times> nat" where
  "largestClause H f marked idx =
     foldl (\<lambda>(larger, lIdx) i.
        if getSize f i \<ge> hv_limitClause H \<and> isNotSatisfiedClauseAndInComponent f i marked
             \<and> getInitSize f i > larger
        then (getInitSize f i, i) else (larger, lIdx)) (0, 0) idx"

definition large_selectLitSet ::
  "('s, 'd::linordered_field) heuristic_env \<Rightarrow> branchingHeuristic \<Rightarrow> 's \<Rightarrow> 'z cnfManager_scheme \<Rightarrow> var list
     \<Rightarrow> lit list \<times> branchingHeuristic \<times> 's" where
  "large_selectLitSet H h0 s0 f vars =
     (let (h, s) = callAndDecay H h0 s0;
          marked = foldl (\<lambda>m v. m[v := True]) (bh_markedVar h) vars;
          (larger, lIdx) = largestClause H f marked (bh_indexOfLargeClause h);
          lits = (if larger \<noteq> 0
                  then sort_key (\<lambda>l. - computeScore H s f (var l)) (filter (\<lambda>l. marked ! var l) (cm_clauses f ! lIdx))
                  else litOf H s f (selectVariable (computeScore H s f) (isCandidate H f) vars))
      in (lits, h\<lparr>bh_markedVar := foldl (\<lambda>m v. m[v := False]) marked vars\<rparr>, s))"

text \<open>\<^verbatim>\<open>makeBranchingHeuristic\<close>: with a projection only the classical heuristic is used.\<close>

definition makeBranchingHeuristic ::
  "('s, 'd::linordered_field) heuristic_env \<Rightarrow> BranchingHeuristicType \<Rightarrow> nat
     \<Rightarrow> (branchingHeuristic, 's, cnfManagerDyn) heuristic_if" where
  "makeBranchingHeuristic H t nbSelectedVar =
     \<lparr>heu_selectLitSet =
        (if nbSelectedVar \<noteq> 0 then classic_selectLitSet H
         else case t of
                BRANCHING_CLASSIC \<Rightarrow> classic_selectLitSet H
              | BRANCHING_HYBRID_PARTIAL_CLASSIC \<Rightarrow> hybrid_selectLitSet H
              | BRANCHING_LARGE_ARITY \<Rightarrow> large_selectLitSet H)\<rparr>"

definition newBranchingHeuristic ::
  "('s, 'd) heuristic_env \<Rightarrow> BranchingHeuristicType \<Rightarrow> nat \<Rightarrow> 'z cnfManager_scheme \<Rightarrow> branchingHeuristic" where
  "newBranchingHeuristic H t nbSelectedVar f =
     (if nbSelectedVar = 0 \<and> t = BRANCHING_LARGE_ARITY then newLargeArity H f else newHeuristic)"

section \<open>Reversed phases\<close>

lemma odd_sum: "((of_bool a + of_bool b :: nat) AND 1 = 1) = (a \<noteq> b)"
  by (cases a; cases b) simp_all

lemma selectPhase_reversed:
  "selectPhase (H\<lparr>hv_isReversed := True\<rparr>) s f v \<longleftrightarrow> \<not> selectPhase (H\<lparr>hv_isReversed := False\<rparr>) s f v"
  by (cases "hv_phase H")
    (simp_all add: selectPhase_def phase_False_def phase_True_def phase_Polarity_def phase_Occurrence_def Let_def
      odd_sum del: One_nat_def)

section \<open>The best variable\<close>

lemma selectVariable_snoc:
  "selectVariable score candidate (vs @ [v]) =
     (if \<not> candidate v then selectVariable score candidate vs
      else case selectVariable score candidate vs of
             None \<Rightarrow> Some v
           | Some w \<Rightarrow> if score v > score w then Some v else Some w)"
proof -
  let ?step = "\<lambda>best v. if \<not> candidate v then best
      else case best of None \<Rightarrow> Some (v, score v)
           | Some (w, bestScore) \<Rightarrow> if score v > bestScore then Some (v, score v) else best"
  have "pred_option (\<lambda>(w, sc). sc = score w) (foldl ?step None vs)"
    by (induction vs rule: rev_induct) (auto split: option.splits)
  then show ?thesis by (auto simp: selectVariable_def split: option.splits)
qed

lemma selectVariable_None: "selectVariable score candidate vs = None \<longleftrightarrow> (\<forall>v\<in>set vs. \<not> candidate v)"
  by (induction vs rule: rev_induct) (auto simp: selectVariable_snoc split: option.splits, simp add: selectVariable_def)

lemma selectVariable_Some:
  assumes "selectVariable score candidate vs = Some v"
  shows "\<exists>xs ys. vs = xs @ v # ys \<and> candidate v \<and> (\<forall>w\<in>set xs. candidate w \<longrightarrow> score w < score v)
    \<and> (\<forall>w\<in>set ys. candidate w \<longrightarrow> score w \<le> score v)"
  using assms
proof (induction vs arbitrary: v rule: rev_induct)
  case Nil
  then show ?case by (simp add: selectVariable_def)
next
  case (snoc u vs)
  show ?case
  proof (cases "selectVariable score candidate (vs @ [u]) = selectVariable score candidate vs")
    case True
    then obtain xs ys where x: "vs = xs @ v # ys" "candidate v" "\<forall>w\<in>set xs. candidate w \<longrightarrow> score w < score v"
      "\<forall>w\<in>set ys. candidate w \<longrightarrow> score w \<le> score v" using snoc by metis
    have "candidate u \<Longrightarrow> score u \<le> score v"
      using snoc.prems True by (cases "score v < score u") (auto simp: selectVariable_snoc split: option.splits)
    with x show ?thesis by (intro exI [of _ xs] exI [of _ "ys @ [u]"]) auto
  next
    case False
    then have u: "candidate u" "v = u" using snoc.prems by (auto simp: selectVariable_snoc split: if_splits option.splits)
    have "score w < score u" if w: "w \<in> set vs" "candidate w" for w
    proof (cases "selectVariable score candidate vs")
      case None
      with w show ?thesis by (simp add: selectVariable_None)
    next
      case (Some b)
      then have b: "score b < score u" using False u snoc.prems by (auto simp: selectVariable_snoc split: if_splits)
      obtain xs ys where "vs = xs @ b # ys" "\<forall>w\<in>set xs. candidate w \<longrightarrow> score w < score b"
        "\<forall>w\<in>set ys. candidate w \<longrightarrow> score w \<le> score b" using snoc.IH [OF Some] by blast
      with w have "score w \<le> score b" by force
      with b show ?thesis by simp
    qed
    then show ?thesis using u by (intro exI [of _ vs] exI [of _ "[]"]) auto
  qed
qed


section \<open>The heuristics meet their contract\<close>

definition decisionSet :: "nat \<Rightarrow> bool list \<Rightarrow> var set" where
  "decisionSet n dv = {v. v \<le> n \<and> dv ! v}"

definition heu_inv ::
  "('s, 'd) heuristic_env \<Rightarrow> nat \<Rightarrow> cnf \<Rightarrow> nat \<Rightarrow> branchingHeuristic \<Rightarrow> bool" where
  "heu_inv H n F nbSelectedVar h \<longleftrightarrow>
     (nbSelectedVar = 0 \<longrightarrow> (\<forall>v\<le>n. hv_isDecisionVariable H ! v))
     \<and> (bh_markedVar h = [] \<or> bh_markedVar h = replicate (n + 1) False)
     \<and> (\<forall>i\<in>set (bh_indexOfLargeClause h). i < length F)
     \<and> (bh_indexOfLargeClause h \<noteq> [] \<longrightarrow> bh_markedVar h = replicate (n + 1) False)"

lemma callAndDecay_ok:
  assumes "callAndDecay H h s = (h', s')"
  shows "s' = s \<or> s' = slv_decayCountConflict (hv_solver H) s" "bh_markedVar h' = bh_markedVar h"
    "bh_indexOfLargeClause h' = bh_indexOfLargeClause h"
  using assms by (auto simp: callAndDecay_def hVar_decayCountConflict_def Let_def split: if_splits)

lemma litOf_ok:
  assumes C: "\<forall>v\<in>set C. candidate v \<longleftrightarrow> v \<in> P"
  shows "distinct (map var (litOf H s f (selectVariable score candidate C)))"
    "var ` set (litOf H s f (selectVariable score candidate C)) \<subseteq> set C \<inter> P"
    "litOf H s f (selectVariable score candidate C) = [] \<Longrightarrow> set C \<inter> P = {}"
proof -
  have "v \<in> set C \<and> v \<in> P" if "selectVariable score candidate C = Some v" for v
    using selectVariable_Some [OF that] C by force
  then show "distinct (map var (litOf H s f (selectVariable score candidate C)))"
    "var ` set (litOf H s f (selectVariable score candidate C)) \<subseteq> set C \<inter> P"
    by (auto simp: litOf_def split: option.splits)
  show "litOf H s f (selectVariable score candidate C) = [] \<Longrightarrow> set C \<inter> P = {}"
    using C by (auto simp: litOf_def selectVariable_None split: option.splits)
qed

lemma candidates:
  assumes "dyn_inv n F f stk" "comp_ctx n F (concat stk) C"
  shows "\<forall>v\<in>set C. isCandidate H f v \<longleftrightarrow> v \<in> decisionSet n (hv_isDecisionVariable H)"
proof
  fix v assume v: "v \<in> set C"
  have core: "core_ok n F (set (concat stk)) f" using assms(1) by (auto simp: dyn_inv_def dest: cm_inv_core)
  have v: "v \<le> n" "v \<notin> var ` set (concat stk)" using assms(2) v by (auto simp: comp_ctx_def)
  have "cm_currentValue f ! v = value_of (set (concat stk)) v" using core v(1) unfolding core_ok_def by blast
  also have "\<dots> = l_Undef" unfolding value_of_Undef by (rule v(2))
  finally have "\<not> varIsAssigned f v" by (simp add: varIsAssigned_def)
  then show "isCandidate H f v \<longleftrightarrow> v \<in> decisionSet n (hv_isDecisionVariable H)"
    using v(1) by (simp add: isCandidate_def decisionSet_def)
qed

lemma largestClause_ok:
  assumes "largestClause H f marked idx = (larger, i)" "larger \<noteq> 0"
  shows "i \<in> set idx \<and> isNotSatisfiedClauseAndInComponent f i marked \<and> larger = getInitSize f i"
proof -
  let ?step = "\<lambda>(larger, lIdx) i. if getSize f i \<ge> hv_limitClause H \<and> isNotSatisfiedClauseAndInComponent f i marked
             \<and> getInitSize f i > larger then (getInitSize f i, i) else (larger, lIdx)"
  have "foldl ?step (0, 0) idx = (larger, i) \<Longrightarrow> larger \<noteq> 0 \<Longrightarrow>
      i \<in> set idx \<and> isNotSatisfiedClauseAndInComponent f i marked \<and> larger = getInitSize f i" for larger i
  proof (induction idx arbitrary: larger i rule: rev_induct)
    case (snoc j idx)
    obtain la li where 1: "foldl ?step (0, 0) idx = (la, li)" by fastforce
    have "(larger, i) = ?step (la, li) j" using snoc.prems(1) 1 by simp
    then show ?case using snoc.IH [OF 1] snoc.prems(2) by (cases "la = 0") (auto split: if_splits)
  qed simp
  then show ?thesis using assms unfolding largestClause_def by blast
qed

lemma large_lits_ok:
  fixes k :: "lit \<Rightarrow> 'd::linorder"
  assumes inv: "dyn_inv n F f stk" and C: "\<forall>v\<in>set C. v \<le> n" and all: "\<forall>v\<le>n. dv ! v"
    and i: "i < length F" "isNotSatisfiedClauseAndInComponent f i marked"
    and m: "marked = foldl (\<lambda>m v. m[v := True]) (replicate (n + 1) False) C"
  defines "lits \<equiv> sort_key k (filter (\<lambda>l. marked ! var l) (cm_clauses f ! i))"
  shows "distinct (map var lits)" "var ` set lits \<subseteq> set C \<inter> decisionSet n dv" "lits \<noteq> []"
proof -
  have core: "core_ok n F (set (concat stk)) f" and F: "cnf_ok n F"
    using inv by (auto simp: dyn_inv_def dest: cm_inv_core)
  have ms: "mset (cm_clauses f ! i) = mset (F ! i)" using core i(1) by (simp add: core_ok_def clauses_ok_def)
  have c: "clause_ok n (F ! i)" using F i(1) by (simp add: cnf_ok_def)
  have "distinct (map var (cm_clauses f ! i))"
    using c ms by (metis clause_ok_def mset_eq_imp_distinct_iff mset_map)
  then have "distinct (map var (filter (\<lambda>l. marked ! var l) (cm_clauses f ! i)))"
    by (simp add: distinct_map_filter)
  moreover have "mset (map var lits) = mset (map var (filter (\<lambda>l. marked ! var l) (cm_clauses f ! i)))"
    unfolding lits_def mset_map by simp
  ultimately show "distinct (map var lits)" using mset_eq_imp_distinct_iff by blast
  have mk: "marked ! v \<longleftrightarrow> v \<in> set C" if "v \<le> n" for v
    unfolding m using that by (simp add: foldl_mark_nth del: replicate_Suc)
  have lits: "set lits = {l \<in> set (F ! i). marked ! var l}"
    unfolding lits_def using mset_eq_setD [OF ms] by auto
  show "var ` set lits \<subseteq> set C \<inter> decisionSet n dv"
    unfolding lits decisionSet_def using c mk all by (auto simp: clause_ok_def)
  have "cm_clauses f ! i ! 0 \<in> set (F ! i)" using perm_first [OF ms] c by (simp add: clause_ok_def)
  moreover have "marked ! var (cm_clauses f ! i ! 0)"
    using i(2) by (simp add: isNotSatisfiedClauseAndInComponent_def split: if_splits)
  ultimately have "set lits \<noteq> {}" unfolding lits by blast
  then show "lits \<noteq> []" by auto
qed

interpretation heu: heuristic "makeBranchingHeuristic H t k" "hv_solver H" n F
    "decisionSet n (hv_isDecisionVariable H)" "dyn_inv n F" "heu_inv H n F k"
  for H :: "('s, 'd::linordered_field) heuristic_env" and t k n F
proof (unfold_locales, goal_cases)
  case (1 h f stk C s lits h' s')
  let ?P = "decisionSet n (hv_isDecisionVariable H)"
  obtain h1 s1 where d: "callAndDecay H h s = (h1, s1)" by fastforce
  note dk = callAndDecay_ok [OF d] and sel = litOf_ok [OF candidates [OF 1(2,3)], where H = H]
  have Cn: "\<forall>v\<in>set C. v \<le> n" using 1(3) by (simp add: comp_ctx_def)
  have inv1: "heu_inv H n F k h1" using 1(1) dk(2,3) by (simp add: heu_inv_def)
  consider (classic) "k \<noteq> 0 \<or> t = BRANCHING_CLASSIC" | (hybrid) "k = 0" "t = BRANCHING_HYBRID_PARTIAL_CLASSIC"
    | (large) "k = 0" "t = BRANCHING_LARGE_ARITY" by (cases t) auto
  then show ?case
  proof cases
    case classic
    then have "classic_selectLitSet H h s f C = (lits, h', s')"
      using 1(4) by (auto simp: makeBranchingHeuristic_def split: if_splits)
    then have r: "h' = h1" "s' = s1" "lits = litOf H s1 f (selectVariable (computeScore H s1 f) (isCandidate H f) C)"
      by (auto simp: classic_selectLitSet_def d)
    show ?thesis using sel inv1 dk(1) unfolding r by blast
  next
    case hybrid
    then have e: "hybrid_selectLitSet H h s f C = (lits, h', s')" using 1(4) by (auto simp: makeBranchingHeuristic_def)
    have r: "h' = h1" "s' = s1"
      and "\<exists>score :: var \<Rightarrow> 'd. lits = litOf H s1 f (selectVariable score (isCandidate H f) C)"
      using e by (auto simp: hybrid_selectLitSet_def d Let_def)
    then obtain score :: "var \<Rightarrow> 'd" where l: "lits = litOf H s1 f (selectVariable score (isCandidate H f) C)" by blast
    show ?thesis using sel inv1 dk(1) unfolding r l by blast
  next
    case large
    then have e: "large_selectLitSet H h s f C = (lits, h', s')" using 1(4) by (auto simp: makeBranchingHeuristic_def)
    let ?mk = "foldl (\<lambda>m v. m[v := True]) (bh_markedVar h1) C"
    obtain larger i where lc: "largestClause H f ?mk (bh_indexOfLargeClause h1) = (larger, i)" by fastforce
    have r: "s' = s1" "h' = h1\<lparr>bh_markedVar := foldl (\<lambda>m v. m[v := False]) ?mk C\<rparr>"
      "lits = (if larger \<noteq> 0
         then sort_key (\<lambda>l. - computeScore H s1 f (var l)) (filter (\<lambda>l. ?mk ! var l) (cm_clauses f ! i))
         else litOf H s1 f (selectVariable (computeScore H s1 f) (isCandidate H f) C))"
      using e by (auto simp: large_selectLitSet_def d Let_def lc)
    have "foldl (\<lambda>m v. m[v := False]) ?mk C = bh_markedVar h1"
    proof (cases "bh_markedVar h1 = []")
      case True
      have "foldl (\<lambda>m v. m[v := b]) [] C = []" for b :: bool by (induction C) auto
      with True show ?thesis by simp
    next
      case False
      then show ?thesis using inv1 mark_unmark by (auto simp: heu_inv_def simp del: replicate_Suc)
    qed
    then have h': "h' = h1" using r(2) by simp
    show ?thesis
    proof (cases "larger = 0")
      case True
      then have l: "lits = litOf H s1 f (selectVariable (computeScore H s1 f) (isCandidate H f) C)" using r(3) by simp
      show ?thesis using sel inv1 dk(1) unfolding r(1) h' l by blast
    next
      case False
      note l = largestClause_ok [OF lc False]
      have i: "i < length F" "bh_markedVar h1 = replicate (n + 1) False"
        using l inv1 by (auto simp: heu_inv_def simp del: replicate_Suc)
      have all: "\<forall>v\<le>n. hv_isDecisionVariable H ! v" using inv1 large(1) by (simp add: heu_inv_def)
      note x = large_lits_ok [OF 1(2) Cn all i(1) conjunct1 [OF conjunct2 [OF l]] arg_cong [OF i(2)]]
      show ?thesis using x [where k = "\<lambda>l. - computeScore H s1 f (var l)"] inv1 dk(1) False
        unfolding h' r(1,3) by simp
    qed
  qed
qed

lemma newBranchingHeuristic_ok:
  assumes "k = 0 \<Longrightarrow> \<forall>v\<le>n. hv_isDecisionVariable H ! v" "length (cm_clauses f) = length F" "cm_nbVar f = n"
  shows "heu_inv H n F k (newBranchingHeuristic H t k f)"
  using assms by (auto simp: heu_inv_def newBranchingHeuristic_def newLargeArity_def newHeuristic_def)

section \<open>The order of a tree decomposition\<close>

text \<open>
  The decomposition comes from a third-party tool: a tree of bags. The constructor visits it level
  by level; a variable gets the level of the first bag it is in, counted from 1.
\<close>

datatype TreeDecomp = TreeDecomp (td_node: "var list") (td_sons: "TreeDecomp list")

lemma sons_smaller: "t \<in> set ts \<Longrightarrow> size_list size (td_sons t) < size_list size ts + (if ts = [] then 1 else 0)"
  by (cases t) (auto simp: size_list_estimation dest: size_list_estimation' [where f = size])

definition placeBag :: "nat \<Rightarrow> nat list \<Rightarrow> TreeDecomp \<Rightarrow> nat list" where
  "placeBag level order t = foldl (\<lambda>ord v. if ord ! v = 0 then ord[v := level] else ord) order (td_node t)"

function topoLevels :: "nat \<Rightarrow> TreeDecomp list \<Rightarrow> nat list \<Rightarrow> nat \<Rightarrow> nat list \<times> nat \<times> nat" where
  "topoLevels level [] order largestBag = (order, level, largestBag)"
| "topoLevels level (t # ts) order largestBag =
     topoLevels (level + 1) (concat (map td_sons (t # ts)))
       (foldl (placeBag level) order (t # ts))
       (foldl (\<lambda>m t. if length (td_node t) > m then length (td_node t) else m) largestBag (t # ts))"
  by pat_completeness auto

lemma size_sons: "size_list size (td_sons t) < size t"
  by (cases t) simp

lemma size_next_level: "size_list size (concat (map td_sons ts)) \<le> size_list size ts"
proof (induction ts)
  case (Cons t ts)
  have "size_list size (td_sons t @ xs) \<le> size_list size (td_sons t) + size_list size xs" for xs
    by (induction "td_sons t") (auto simp: size_list_append)
  then show ?case using Cons size_sons [of t] by (simp add: size_list_append)
qed simp

termination topoLevels
proof (relation "measure (\<lambda>(level, ts, order, b). size_list size ts)")
  fix level t and ts :: "TreeDecomp list" and order :: "nat list" and b :: nat
  show "((level + 1, concat (map td_sons (t # ts)), foldl (placeBag level) order (t # ts),
      foldl (\<lambda>m t. if length (td_node t) > m then length (td_node t) else m) b (t # ts)), (level, t # ts, order, b))
    \<in> measure (\<lambda>(level, ts, order, b). size_list size ts)"
    using size_sons [of t] size_next_level [of ts] by (simp add: size_list_append)
qed simp


text \<open>The scale of the order depends on the largest bag; the topological order itself.\<close>

definition topologicalOrder :: "nat \<Rightarrow> TreeDecomp \<Rightarrow> nat list" where
  "topologicalOrder n tree = fst (topoLevels 1 [tree] (replicate (n + 1) 0) 0)"

definition treeScaleFactor :: "nat \<Rightarrow> nat" where
  "treeScaleFactor largestBag =
     (if largestBag < 30 then 100000000 else if largestBag < 40 then 100000
      else if largestBag < 50 then 1000 else 0)"

definition computeCutSet :: "nat list \<Rightarrow> var list \<Rightarrow> var list" where
  "computeCutSet order component =
     (if component = [] then []
      else
        let m = foldl (\<lambda>m v. if order ! v < m then order ! v else m) (order ! hd component) component
        in filter (\<lambda>v. order ! v = m) component)"

text \<open>The depth of the first level, from level \<open>k\<close>, that has a bag with the variable.\<close>

primrec inTree :: "var \<Rightarrow> TreeDecomp \<Rightarrow> nat \<Rightarrow> bool" where
  "inTree v (TreeDecomp bag sons) k =
     (case k of 0 \<Rightarrow> v \<in> set bag | Suc k' \<Rightarrow> \<exists>b\<in>set (map (inTree v) sons). b k')"

definition levelBag :: "var \<Rightarrow> TreeDecomp list \<Rightarrow> nat \<Rightarrow> bool" where
  "levelBag v ts k \<longleftrightarrow> (\<exists>t\<in>set ts. inTree v t k)"

lemma inTree_0 [simp]: "inTree v t 0 = (v \<in> set (td_node t))"
  by (cases t) simp

lemma inTree_Suc [simp]: "inTree v t (Suc k) = levelBag v (td_sons t) k"
  by (cases t) (simp add: levelBag_def)

lemma levelBag_Suc: "levelBag v ts (Suc k) = levelBag v (concat (map td_sons ts)) k"
  by (auto simp: levelBag_def)

lemma placeBag_nth:
  assumes "v < length order" "level \<noteq> 0"
  shows "length (placeBag level order t) = length order
    \<and> placeBag level order t ! v = (if order ! v = 0 \<and> v \<in> set (td_node t) then level else order ! v)"
proof -
  have "length (foldl (\<lambda>ord v. if ord ! v = 0 then ord[v := level] else ord) order bag) = length order
    \<and> foldl (\<lambda>ord v. if ord ! v = 0 then ord[v := level] else ord) order bag ! v
        = (if order ! v = 0 \<and> v \<in> set bag then level else order ! v)" for bag
    using assms by (induction bag rule: rev_induct) (auto simp: nth_update_any)
  then show ?thesis by (simp add: placeBag_def)
qed

lemma placeBags_nth:
  assumes "v < length order" "level \<noteq> 0"
  shows "length (foldl (placeBag level) order ts) = length order
    \<and> foldl (placeBag level) order ts ! v = (if order ! v = 0 \<and> levelBag v ts 0 then level else order ! v)"
  using assms
proof (induction ts rule: rev_induct)
  case (snoc t ts)
  then show ?case using placeBag_nth [of v "foldl (placeBag level) order ts" level t]
    by (auto simp: levelBag_def)
qed (simp add: levelBag_def)

lemma topoLevels_nth:
  assumes "level \<noteq> 0" "v < length order" "topoLevels level ts order b = (order', level', b')"
  shows "order' ! v = (if order ! v \<noteq> 0 then order ! v
      else if \<exists>k. levelBag v ts k then level + (LEAST k. levelBag v ts k) else 0)"
  using assms
proof (induction level ts order b rule: topoLevels.induct)
  case (1 level order b)
  then show ?case by (simp add: levelBag_def)
next
  case (2 level t ts order b)
  let ?ts = "t # ts" and ?next = "concat (map td_sons (t # ts))"
  let ?o = "foldl (placeBag level) order ?ts"
  note p = placeBags_nth [OF "2.prems"(2,1), of ?ts]
  have ih: "order' ! v = (if ?o ! v \<noteq> 0 then ?o ! v
      else if \<exists>k. levelBag v ?next k then level + 1 + (LEAST k. levelBag v ?next k) else 0)"
    using "2.IH" "2.prems" p by simp
  have n: "levelBag v ?next k = levelBag v ?ts (Suc k)" for k by (rule levelBag_Suc [symmetric])
  show ?case
  proof (cases "order ! v \<noteq> 0 \<or> levelBag v ?ts 0")
    case True
    have "levelBag v ?ts 0 \<Longrightarrow> (LEAST k. levelBag v ?ts k) = 0" by (rule Least_eq_0)
    then show ?thesis using True ih p "2.prems"(1) by auto
  next
    case False
    then have "?o ! v = 0" using p by simp
    moreover have "(\<exists>k. levelBag v ?ts k) \<longleftrightarrow> (\<exists>k. levelBag v ?next k)"
      unfolding n using False by (metis not0_implies_Suc)
    moreover have "(LEAST k. levelBag v ?ts k) = Suc (LEAST k. levelBag v ?next k)" if "levelBag v ?ts k" for k
      unfolding n using False that by (intro Least_Suc) auto
    ultimately show ?thesis using ih False by auto
  qed
qed

lemma topologicalOrder_nth:
  assumes "v \<le> n"
  shows "topologicalOrder n tree ! v =
    (if \<exists>k. inTree v tree k then 1 + (LEAST k. inTree v tree k) else 0)"
proof -
  obtain order' level' b' where e: "topoLevels 1 [tree] (replicate (n + 1) 0) 0 = (order', level', b')"
    by (metis prod_cases3)
  have "levelBag v [tree] = inTree v tree" by (simp add: levelBag_def fun_eq_iff)
  with topoLevels_nth [OF _ _ e, of v] assms show ?thesis
    unfolding topologicalOrder_def e by (simp del: replicate_Suc)
qed

lemma computeCutSet_ok:
  "set (computeCutSet order component) =
     {v \<in> set component. \<forall>w\<in>set component. order ! v \<le> order ! w}"
proof (cases "component = []")
  case False
  let ?f = "\<lambda>m v. if order ! v < m then order ! v else m"
  have min: "foldl ?f m vs \<le> m \<and> (\<forall>v\<in>set vs. foldl ?f m vs \<le> order ! v)
      \<and> (foldl ?f m vs = m \<or> foldl ?f m vs \<in> (!) order ` set vs)" for m vs
    by (induction vs rule: rev_induct) (auto split: if_splits)
  define m where "m = foldl ?f (order ! hd component) component"
  have in': "m \<in> (!) order ` set component" and le: "\<forall>v\<in>set component. m \<le> order ! v"
    using min [of "order ! hd component" component] False unfolding m_def [symmetric] by auto
  obtain u where u: "u \<in> set component" "order ! u = m" using in' by auto
  have "order ! v = m \<longleftrightarrow> (\<forall>w\<in>set component. order ! v \<le> order ! w)" if "v \<in> set component" for v
    using u le that by (auto intro: le_antisym)
  then show ?thesis using False by (auto simp: computeCutSet_def m_def)
qed (simp add: computeCutSet_def)

section \<open>Properties\<close>

text \<open>
  C31. The selected variable is a candidate with the best score, the first one of those; none is selected
  exactly when there is no candidate.
\<close>

theorem best_variable:
  "case selectVariable score candidate vs of
     None \<Rightarrow> \<forall>v\<in>set vs. \<not> candidate v
   | Some v \<Rightarrow> \<exists>xs ys. vs = xs @ v # ys \<and> candidate v \<and> (\<forall>w\<in>set xs. candidate w \<longrightarrow> score w < score v)
       \<and> (\<forall>w\<in>set ys. candidate w \<longrightarrow> score w \<le> score v)"
  using selectVariable_None [of score candidate vs] selectVariable_Some [of score candidate vs]
  by (cases "selectVariable score candidate vs") auto

theorem best_variable_witness:
  "\<exists>xs ys. [1, 5, 2, 4] = xs @ (2 :: nat) # ys"
proof -
  have "selectVariable (\<lambda>v. v mod 3) (\<lambda>v. v \<noteq> 5) [1, 5, 2, 4] = Some (2 :: nat)" by (simp add: selectVariable_def)
  then show ?thesis using best_variable [where score = "\<lambda>v. v mod 3" and candidate = "\<lambda>v. v \<noteq> 5"
      and vs = "[1, 5, 2, 4]"] by auto
qed

text \<open>C40. The option that reverses the phase negates it for every phase heuristic.\<close>

theorem reversed_phase:
  "selectPhase (H\<lparr>hv_isReversed := True\<rparr>) s f v \<longleftrightarrow> \<not> selectPhase (H\<lparr>hv_isReversed := False\<rparr>) s f v"
  by (rule selectPhase_reversed)

text \<open>
  C38. The order made from a tree decomposition gives a variable the depth, from 1, of the first level
  that has a bag with it, and 0 if no bag has it.
\<close>

theorem tree_order:
  assumes "v \<le> n"
  shows "topologicalOrder n tree ! v = (if \<exists>k. inTree v tree k then 1 + (LEAST k. inTree v tree k) else 0)"
  by (rule topologicalOrder_nth [OF assms])

theorem tree_order_witness:
  "topologicalOrder 3 (TreeDecomp [1] [TreeDecomp [1, 2] []]) ! 2 =
    (if \<exists>k. inTree 2 (TreeDecomp [1] [TreeDecomp [1, 2] []]) k
     then 1 + (LEAST k. inTree 2 (TreeDecomp [1] [TreeDecomp [1, 2] []]) k) else 0)"
  by (rule tree_order) simp

text \<open>C39. The cut of a component is the set of its variables that come first in the order.\<close>

theorem cut_set:
  "set (computeCutSet order component) = {v \<in> set component. \<forall>w\<in>set component. order ! v \<le> order ! w}"
  by (rule computeCutSet_ok)

theorem cut_set_witness: "set (computeCutSet [0, 2, 1, 1] [1, 2, 3]) = {2, 3}"
  using cut_set [of "[0, 2, 1, 1]" "[1, 2, 3]"] by (auto simp: nth_Cons')

end
