(* ===== verification/BucketAllocator.thy ===== *)
theory BucketAllocator
  imports Prelude
begin

text \<open>
  The memory of the cache, \<^verbatim>\<open>src/src/caching/bucket/BucketAllocator.cpp\<close>: pages of bytes, a bump
  pointer in the last page, and lists of released blocks by size. A pointer is a page and an
  offset; \<^verbatim>\<open>m_data\<close> is the last page. Sizes in bytes are natural numbers, \<^verbatim>\<open>m_usedMemory\<close> keeps its
  width because it is decremented without a test.

  The invariant counts, for every byte, the blocks that contain it: a byte of a page belongs to
  exactly one block that is in use, released or not yet handed out. So no two blocks in use
  overlap, and no byte is lost.
\<close>

section \<open>State and operations\<close>

type_synonym addr = "nat \<times> nat"

record bucketAllocator =
  m_allocateData :: "nat list"
  m_sizeFirstPage :: nat
  m_sizeAdditionalPage :: nat
  m_sizeData :: nat
  m_posInData :: nat
  m_freeSpace :: "addr list list"
  m_allMemory :: nat
  m_freeMemory :: nat
  m_usedMemory :: "64 word"
  isInit :: bool
  cleanup :: bool
  m_consumedMemory :: bool

definition newBucketAllocator :: bucketAllocator where
  "newBucketAllocator = \<lparr>m_allocateData = [], m_sizeFirstPage = 0, m_sizeAdditionalPage = 0, m_sizeData = 0,
     m_posInData = 0, m_freeSpace = [], m_allMemory = 0, m_freeMemory = 0, m_usedMemory = 0,
     isInit = False, cleanup = True, m_consumedMemory = False\<rparr>"

definition ba_init :: "nat \<Rightarrow> nat \<Rightarrow> bucketAllocator \<Rightarrow> bucketAllocator" where
  "ba_init sizeFirstPage sizeAdditionalPage a =
     (if isInit a then a
      else a\<lparr>isInit := True, m_sizeFirstPage := sizeFirstPage, m_sizeAdditionalPage := sizeAdditionalPage,
             m_sizeData := sizeFirstPage, m_posInData := 0, m_freeMemory := 0, m_usedMemory := 0,
             m_allocateData := m_allocateData a @ [sizeFirstPage], m_allMemory := sizeFirstPage\<rparr>)"

definition resize_to :: "nat \<Rightarrow> 'a list list \<Rightarrow> 'a list list" where
  "resize_to k fs = fs @ replicate (k - length fs) []"

definition pushFree :: "nat \<Rightarrow> addr \<Rightarrow> addr list list \<Rightarrow> addr list list" where
  "pushFree sz m fs = fs[sz := fs ! sz @ [m]]"

definition popFree :: "nat \<Rightarrow> addr list list \<Rightarrow> addr list list" where
  "popFree sz fs = fs[sz := butlast (fs ! sz)]"

definition trimFree :: "'a list list \<Rightarrow> 'a list list" where
  "trimFree fs = rev (dropWhile (\<lambda>b. b = []) (rev fs))"

text \<open>The free list that serves a request: the one of its size, or the list of the largest blocks.\<close>

definition splitSpace :: "nat \<Rightarrow> addr list list \<Rightarrow> addr list list" where
  "splitSpace sz fs =
     (if fs ! sz \<noteq> [] then fs
      else
        let bigSize = length fs - 1;
            ret = last (fs ! bigSize)
        in pushFree (bigSize - sz) (fst ret, snd ret + sz) (pushFree sz ret (popFree bigSize fs)))"

definition newPage :: "bucketAllocator \<Rightarrow> bucketAllocator" where
  "newPage a =
     (let rSz = m_sizeData a - m_posInData a;
          fs = (if length (m_freeSpace a) \<le> rSz then resize_to (rSz + 1) (m_freeSpace a) else m_freeSpace a)
      in a\<lparr>m_freeSpace := pushFree rSz (length (m_allocateData a) - 1, m_posInData a) fs,
           m_freeMemory := m_freeMemory a + rSz, m_consumedMemory := True,
           m_sizeData := m_sizeAdditionalPage a, m_posInData := 0,
           m_allocateData := m_allocateData a @ [m_sizeAdditionalPage a],
           m_allMemory := m_allMemory a + m_sizeAdditionalPage a\<rparr>)"

definition getArray :: "nat \<Rightarrow> bucketAllocator \<Rightarrow> addr \<times> bucketAllocator" where
  "getArray sz a0 =
     (let a = a0\<lparr>m_usedMemory := m_usedMemory a0 + of_nat sz\<rparr>; fs = m_freeSpace a
      in if length fs > sz \<and> (fs ! sz \<noteq> [] \<or> sz < length fs div 2)
         then let fs1 = splitSpace sz fs
              in (last (fs1 ! sz),
                  a\<lparr>m_freeSpace := trimFree (popFree sz fs1), m_freeMemory := m_freeMemory a - sz\<rparr>)
         else let a1 = (if m_posInData a + sz > m_sizeData a then newPage a else a)
              in ((length (m_allocateData a1) - 1, m_posInData a1),
                  a1\<lparr>m_posInData := m_posInData a1 + sz\<rparr>))"

definition ba_releaseMemory :: "addr \<Rightarrow> nat \<Rightarrow> bucketAllocator \<Rightarrow> bucketAllocator" where
  "ba_releaseMemory m sz a0 =
     (let a = a0\<lparr>m_usedMemory := m_usedMemory a0 - of_nat sz\<rparr>
      in if sz < m_posInData a \<and> m = (length (m_allocateData a) - 1, m_posInData a - sz)
         then a\<lparr>m_posInData := m_posInData a - sz\<rparr>
         else let fs = (if length (m_freeSpace a) \<le> sz then resize_to (sz + 1) (m_freeSpace a) else m_freeSpace a)
              in a\<lparr>m_freeSpace := pushFree sz m fs, m_freeMemory := m_freeMemory a + sz\<rparr>)"

section \<open>The bytes of a block\<close>

type_synonym block = "addr \<times> nat"

definition in_block :: "addr \<Rightarrow> block \<Rightarrow> bool" where
  "in_block x b \<longleftrightarrow> fst x = fst (fst b) \<and> snd (fst b) \<le> snd x \<and> snd x < snd (fst b) + snd b"

definition cover :: "block multiset \<Rightarrow> addr \<Rightarrow> nat" where
  "cover M x = size (filter_mset (in_block x) M)"

definition freeBlocks :: "addr list list \<Rightarrow> block multiset" where
  "freeBlocks fs = (\<Sum>i<length fs. image_mset (\<lambda>m. (m, i)) (mset (fs ! i)))"

definition freshBlock :: "bucketAllocator \<Rightarrow> block" where
  "freshBlock a = ((length (m_allocateData a) - 1, m_posInData a), m_sizeData a - m_posInData a)"

definition in_pages :: "bucketAllocator \<Rightarrow> addr \<Rightarrow> bool" where
  "in_pages a x \<longleftrightarrow> fst x < length (m_allocateData a) \<and> snd x < m_allocateData a ! fst x"

definition alloc_ok :: "bucketAllocator \<Rightarrow> block multiset \<Rightarrow> bool" where
  "alloc_ok a live \<longleftrightarrow> m_allocateData a \<noteq> [] \<and> m_sizeData a = last (m_allocateData a)
     \<and> m_posInData a \<le> m_sizeData a
     \<and> (m_freeSpace a \<noteq> [] \<longrightarrow> last (m_freeSpace a) \<noteq> [])
     \<and> m_freeMemory a = (\<Sum>b\<in>#freeBlocks (m_freeSpace a). snd b)
     \<and> (\<forall>x. cover (live + freeBlocks (m_freeSpace a) + {#freshBlock a#}) x = of_bool (in_pages a x))"

lemma cover_union [simp]: "cover (M + N) x = cover M x + cover N x"
  by (simp add: cover_def)

lemma cover_add [simp]: "cover (add_mset b M) x = of_bool (in_block x b) + cover M x"
  by (simp add: cover_def)

lemma cover_empty [simp]: "cover {#} x = 0"
  by (simp add: cover_def)

lemma freeBlocks_Nil [simp]: "freeBlocks [] = {#}"
  by (simp add: freeBlocks_def)

lemma freeBlocks_snoc: "freeBlocks (fs @ [b]) = freeBlocks fs + image_mset (\<lambda>m. (m, length fs)) (mset b)"
  by (auto simp: freeBlocks_def nth_append intro: sum.cong)

lemma freeBlocks_empties: "freeBlocks (fs @ replicate k []) = freeBlocks fs"
  by (induction k) (auto simp: freeBlocks_snoc replicate_append_same [symmetric] simp flip: append_assoc)

lemma freeBlocks_resize [simp]: "freeBlocks (resize_to k fs) = freeBlocks fs"
  by (simp add: resize_to_def freeBlocks_empties)

lemma freeBlocks_update:
  assumes "i < length fs"
  shows "freeBlocks fs = (\<Sum>j\<in>{..<length fs} - {i}. image_mset (\<lambda>m. (m, j)) (mset (fs ! j)))
      + image_mset (\<lambda>m. (m, i)) (mset (fs ! i))"
  using assms sum.remove [of "{..<length fs}" i "\<lambda>j. image_mset (\<lambda>m. (m, j)) (mset (fs ! j))"]
  by (simp add: freeBlocks_def add.commute)

lemma freeBlocks_push:
  assumes "i < length fs"
  shows "freeBlocks (pushFree i m fs) = add_mset (m, i) (freeBlocks fs)"
  using assms freeBlocks_update [OF assms] freeBlocks_update [of i "pushFree i m fs"]
  by (auto simp: pushFree_def nth_list_update intro!: arg_cong2 [where f = "(+)"] sum.cong)

lemma freeBlocks_pop:
  assumes "i < length fs" "fs ! i \<noteq> []"
  shows "freeBlocks fs = add_mset (last (fs ! i), i) (freeBlocks (popFree i fs))"
proof -
  have "fs = pushFree i (last (fs ! i)) (popFree i fs)"
    using assms by (simp add: pushFree_def popFree_def)
  then show ?thesis using freeBlocks_push [of i "popFree i fs" "last (fs ! i)"] assms
    by (simp add: popFree_def)
qed

lemma trimFree_split: "\<exists>k. fs = trimFree fs @ replicate k []"
proof -
  have "rev fs = takeWhile (\<lambda>b. b = []) (rev fs) @ dropWhile (\<lambda>b. b = []) (rev fs)" by simp
  then have "fs = trimFree fs @ rev (takeWhile (\<lambda>b. b = []) (rev fs))"
    unfolding trimFree_def by (metis rev_append rev_rev_ident)
  moreover have "takeWhile (\<lambda>b. b = []) (rev fs) = replicate (length (takeWhile (\<lambda>b. b = []) (rev fs))) []"
    by (rule replicate_eqI [symmetric, THEN sym]) (auto dest: set_takeWhileD)
  ultimately show ?thesis by (metis rev_replicate)
qed

lemma freeBlocks_trim [simp]: "freeBlocks (trimFree fs) = freeBlocks fs"
  using trimFree_split [of fs] freeBlocks_empties by metis

lemma trimFree_last: "trimFree fs \<noteq> [] \<Longrightarrow> last (trimFree fs) \<noteq> []"
proof -
  assume "trimFree fs \<noteq> []"
  then have ne: "dropWhile (\<lambda>b. b = []) (rev fs) \<noteq> []" by (simp add: trimFree_def)
  from hd_dropWhile [OF this] ne show "last (trimFree fs) \<noteq> []" by (simp add: trimFree_def last_rev)
qed

section \<open>The operations keep the invariant\<close>

text \<open>Splitting the largest block keeps the bytes and the total size of the released blocks.\<close>

lemma splitSpace_ok:
  assumes "sz < length fs" "fs ! sz \<noteq> [] \<or> sz < length fs div 2" "last fs \<noteq> []"
  shows "length (splitSpace sz fs) = length fs" "splitSpace sz fs ! sz \<noteq> []"
    "cover (freeBlocks (splitSpace sz fs)) = cover (freeBlocks fs)"
    "(\<Sum>b\<in>#freeBlocks (splitSpace sz fs). snd b) = (\<Sum>b\<in>#freeBlocks fs. snd b)"
proof -
  let ?big = "length fs - 1"
  let ?ret = "last (fs ! ?big)"
  have "length (splitSpace sz fs) = length fs \<and> splitSpace sz fs ! sz \<noteq> []
    \<and> cover (freeBlocks (splitSpace sz fs)) = cover (freeBlocks fs)
    \<and> (\<Sum>b\<in>#freeBlocks (splitSpace sz fs). snd b) = (\<Sum>b\<in>#freeBlocks fs. snd b)"
  proof (cases "fs ! sz = []")
    case True
    then have sz: "sz < length fs div 2" using assms(2) by simp
    have big: "fs ! ?big \<noteq> []" using assms(1,3) by (cases fs rule: rev_cases) auto
    let ?f1 = "popFree ?big fs"
    let ?f2 = "pushFree sz ?ret ?f1"
    have l: "?big < length fs" "sz < length ?f1" "?big - sz < length ?f2" "?big - sz \<noteq> sz" "sz < ?big"
      using sz assms(1) by (auto simp: popFree_def pushFree_def)
    have e: "splitSpace sz fs = pushFree (?big - sz) (fst ?ret, snd ?ret + sz) ?f2"
      using True by (simp add: splitSpace_def Let_def)
    have fb: "freeBlocks (splitSpace sz fs) =
        add_mset ((fst ?ret, snd ?ret + sz), ?big - sz) (add_mset (?ret, sz) (freeBlocks ?f1))"
      unfolding e using freeBlocks_push [OF l(3)] freeBlocks_push [OF l(2)] by simp
    have fb0: "freeBlocks fs = add_mset (?ret, ?big) (freeBlocks ?f1)" by (rule freeBlocks_pop [OF l(1) big])
    have "cover (freeBlocks (splitSpace sz fs)) = cover (freeBlocks fs)"
    proof
      fix x
      show "cover (freeBlocks (splitSpace sz fs)) x = cover (freeBlocks fs) x"
        unfolding fb fb0 using l(5) by (auto simp: in_block_def)
    qed
    then show ?thesis unfolding fb fb0 using l(4,5) assms(1)
      by (simp add: e pushFree_def popFree_def nth_list_update)
  qed (use assms in \<open>simp add: splitSpace_def\<close>)
  then show "length (splitSpace sz fs) = length fs" "splitSpace sz fs ! sz \<noteq> []"
    "cover (freeBlocks (splitSpace sz fs)) = cover (freeBlocks fs)"
    "(\<Sum>b\<in>#freeBlocks (splitSpace sz fs). snd b) = (\<Sum>b\<in>#freeBlocks fs. snd b)" by blast+
qed

lemma alloc_okD:
  assumes "alloc_ok a live"
  shows "m_allocateData a \<noteq> []" "m_sizeData a = last (m_allocateData a)" "m_posInData a \<le> m_sizeData a"
    "m_freeSpace a \<noteq> [] \<Longrightarrow> last (m_freeSpace a) \<noteq> []"
    "m_freeMemory a = (\<Sum>b\<in>#freeBlocks (m_freeSpace a). snd b)"
    "cover (live + freeBlocks (m_freeSpace a) + {#freshBlock a#}) x = of_bool (in_pages a x)"
  using assms unfolding alloc_ok_def by blast+

lemma alloc_ok_usedMemory [simp]: "alloc_ok (a\<lparr>m_usedMemory := u\<rparr>) live = alloc_ok a live"
  by (simp add: alloc_ok_def freshBlock_def in_pages_def)

lemma last_resize:
  "length fs \<le> sz \<Longrightarrow> resize_to (sz + 1) fs \<noteq> [] \<and> length (resize_to (sz + 1) fs) = sz + 1"
  by (simp add: resize_to_def)

lemma free_ok:
  fixes fs0 :: "addr list list" and sz :: nat and m :: addr
  assumes "fs0 \<noteq> [] \<Longrightarrow> last fs0 \<noteq> []"
  defines "fs \<equiv> (if length fs0 \<le> sz then resize_to (sz + 1) fs0 else fs0)"
  shows "freeBlocks (pushFree sz m fs) = add_mset (m, sz) (freeBlocks fs0)"
    "last (pushFree sz m fs) \<noteq> []" "pushFree sz m fs \<noteq> []"
proof -
  have l: "sz < length fs" by (auto simp: fs_def resize_to_def)
  then show "freeBlocks (pushFree sz m fs) = add_mset (m, sz) (freeBlocks fs0)"
    using freeBlocks_push [OF l] by (simp add: fs_def)
  show ne: "pushFree sz m fs \<noteq> []" using l by (auto simp: pushFree_def)
  show "last (pushFree sz m fs) \<noteq> []"
  proof (cases "length fs0 \<le> sz")
    case True
    then show ?thesis using ne by (simp add: fs_def last_conv_nth pushFree_def resize_to_def)
  next
    case False
    then show ?thesis using assms(1) l ne by (auto simp: fs_def last_conv_nth pushFree_def nth_list_update)
  qed
qed

lemma newPage_ok:
  assumes "alloc_ok a live"
  shows "alloc_ok (newPage a) live"
    "m_posInData (newPage a) = 0" "m_sizeData (newPage a) = m_sizeAdditionalPage a"
proof -
  note i = alloc_okD [OF assms]
  let ?r = "m_sizeData a - m_posInData a"
  let ?fs = "if length (m_freeSpace a) \<le> ?r then resize_to (?r + 1) (m_freeSpace a) else m_freeSpace a"
  let ?m = "(length (m_allocateData a) - 1, m_posInData a)"
  note f = free_ok [of "m_freeSpace a" "?r" "?m", OF i(4)]
  have fs: "m_freeSpace (newPage a) = pushFree ?r ?m ?fs" by (simp add: newPage_def Let_def)
  have fb: "freeBlocks (m_freeSpace (newPage a)) = add_mset (?m, ?r) (freeBlocks (m_freeSpace a))"
    unfolding fs by (rule f(1))
  have old: "freshBlock a = (?m, ?r)" by (simp add: freshBlock_def)
  have cov: "cover (live + freeBlocks (m_freeSpace (newPage a)) + {#freshBlock (newPage a)#}) x
      = of_bool (in_pages (newPage a) x)" for x
  proof -
    have "cover (live + freeBlocks (m_freeSpace (newPage a)) + {#freshBlock (newPage a)#}) x =
        of_bool (in_pages a x) + of_bool (in_block x (freshBlock (newPage a)))"
      unfolding fb cover_union cover_add cover_empty using i(6) [of x]
      unfolding old cover_union cover_add cover_empty by linarith
    also have "\<dots> = of_bool (in_pages (newPage a) x)"
      by (auto simp: in_pages_def in_block_def freshBlock_def newPage_def Let_def nth_append less_Suc_eq)
    finally show ?thesis .
  qed
  show "alloc_ok (newPage a) live"
    unfolding alloc_ok_def
  proof (intro conjI allI impI)
    show "m_freeMemory (newPage a) = (\<Sum>b\<in>#freeBlocks (m_freeSpace (newPage a)). snd b)"
      unfolding fb using i(5) by (simp add: newPage_def Let_def)
    show "last (m_freeSpace (newPage a)) \<noteq> []" unfolding fs by (rule f(2))
    show "cover (live + freeBlocks (m_freeSpace (newPage a)) + {#freshBlock (newPage a)#}) x
      = of_bool (in_pages (newPage a) x)" for x by (rule cov)
  qed (simp_all add: newPage_def Let_def)
  show "m_posInData (newPage a) = 0" "m_sizeData (newPage a) = m_sizeAdditionalPage a"
    by (simp_all add: newPage_def Let_def)
qed

lemma bump_ok:
  assumes "alloc_ok a live" "m_posInData a + sz \<le> m_sizeData a"
  shows "alloc_ok (a\<lparr>m_posInData := m_posInData a + sz\<rparr>)
    (add_mset ((length (m_allocateData a) - 1, m_posInData a), sz) live)"
proof -
  note i = alloc_okD [OF assms(1)]
  let ?a = "a\<lparr>m_posInData := m_posInData a + sz\<rparr>"
  have "of_bool (in_block x ((length (m_allocateData a) - 1, m_posInData a), sz))
      + of_bool (in_block x (freshBlock ?a)) = (of_bool (in_block x (freshBlock a)) :: nat)" for x
    using assms(2) by (auto simp: in_block_def freshBlock_def)
  moreover have "in_pages ?a = in_pages a" "m_freeSpace ?a = m_freeSpace a" by (simp_all add: in_pages_def fun_eq_iff)
  ultimately have "cover (add_mset ((length (m_allocateData a) - 1, m_posInData a), sz) live
      + freeBlocks (m_freeSpace ?a) + {#freshBlock ?a#}) x = of_bool (in_pages ?a x)" for x
    using i(6) [of x] unfolding cover_union cover_add cover_empty by (metis add.assoc add.commute)
  then show ?thesis using i(1-5) assms(2) by (simp add: alloc_ok_def)
qed

lemma getArray_ok:
  assumes ok: "alloc_ok a live" and page: "sz \<le> m_sizeAdditionalPage a" and e: "getArray sz a = (m, a')"
  shows "alloc_ok a' (add_mset (m, sz) live)" "m_sizeAdditionalPage a' = m_sizeAdditionalPage a"
proof -
  note i = alloc_okD [OF ok]
  let ?fs = "m_freeSpace a"
  let ?b = "a\<lparr>m_usedMemory := m_usedMemory a + of_nat sz\<rparr>"
  have "alloc_ok a' (add_mset (m, sz) live) \<and> m_sizeAdditionalPage a' = m_sizeAdditionalPage a"
  proof (cases "length ?fs > sz \<and> (?fs ! sz \<noteq> [] \<or> sz < length ?fs div 2)")
    case True
    then have ne: "last ?fs \<noteq> []" using i(4) by force
    let ?s = "splitSpace sz ?fs"
    have s: "length ?s = length ?fs" "?s ! sz \<noteq> []" "cover (freeBlocks ?s) = cover (freeBlocks ?fs)"
      "(\<Sum>b\<in>#freeBlocks ?s. snd b) = (\<Sum>b\<in>#freeBlocks ?fs. snd b)"
      using splitSpace_ok [of sz ?fs] True ne by auto
    have m: "m = last (?s ! sz)"
      and a': "a' = ?b\<lparr>m_freeSpace := trimFree (popFree sz ?s), m_freeMemory := m_freeMemory a - sz\<rparr>"
      using e True by (auto simp: getArray_def Let_def)
    have p: "freeBlocks ?s = add_mset (m, sz) (freeBlocks (popFree sz ?s))"
      unfolding m using freeBlocks_pop [of sz ?s] s(1,2) True by simp
    have sum: "m_freeMemory a = sz + (\<Sum>b\<in>#freeBlocks (popFree sz ?s). snd b)" using i(5) s(4) p by simp
    have "cover (freeBlocks ?fs) x = of_bool (in_block x (m, sz)) + cover (freeBlocks (popFree sz ?s)) x" for x
      using s(3) p by (metis cover_add)
    then have "cover (add_mset (m, sz) live + freeBlocks (m_freeSpace a') + {#freshBlock a'#}) x
        = of_bool (in_pages a' x)" for x
      using i(6) [of x] by (simp add: a' freshBlock_def in_pages_def)
    then show ?thesis using i(1-3) sum trimFree_last [of "popFree sz ?s"] by (simp add: alloc_ok_def a')
  next
    case False
    let ?n = "if m_posInData a + sz > m_sizeData a then newPage ?b else ?b"
    have r: "m = (length (m_allocateData ?n) - 1, m_posInData ?n)" "a' = ?n\<lparr>m_posInData := m_posInData ?n + sz\<rparr>"
      using e False by (auto simp: getArray_def Let_def)
    have n: "alloc_ok ?n live" "m_posInData ?n + sz \<le> m_sizeData ?n"
      "m_sizeAdditionalPage ?n = m_sizeAdditionalPage a"
      using newPage_ok [of ?b live] ok page by (auto simp: newPage_def Let_def)
    show ?thesis using bump_ok [OF n(1,2)] n(3) unfolding r by simp
  qed
  then show "alloc_ok a' (add_mset (m, sz) live)" "m_sizeAdditionalPage a' = m_sizeAdditionalPage a" by blast+
qed

lemma releaseMemory_ok:
  assumes ok: "alloc_ok a (add_mset (m, sz) live)"
  shows "alloc_ok (ba_releaseMemory m sz a) live"
    "m_sizeAdditionalPage (ba_releaseMemory m sz a) = m_sizeAdditionalPage a"
proof -
  note i = alloc_okD [OF ok]
  let ?b = "a\<lparr>m_usedMemory := m_usedMemory a - of_nat sz\<rparr>"
  have "alloc_ok (ba_releaseMemory m sz a) live
    \<and> m_sizeAdditionalPage (ba_releaseMemory m sz a) = m_sizeAdditionalPage a"
  proof (cases "sz < m_posInData a \<and> m = (length (m_allocateData a) - 1, m_posInData a - sz)")
    case True
    let ?a = "?b\<lparr>m_posInData := m_posInData a - sz\<rparr>"
    have r: "ba_releaseMemory m sz a = ?a" using True by (simp add: ba_releaseMemory_def Let_def)
    have "of_bool (in_block x (m, sz)) + of_bool (in_block x (freshBlock a))
        = (of_bool (in_block x (freshBlock ?a)) :: nat)" for x
      using True i(3) by (auto simp: in_block_def freshBlock_def)
    moreover have "in_pages ?a = in_pages a" "m_freeSpace ?a = m_freeSpace a" by (simp_all add: in_pages_def fun_eq_iff)
    ultimately have "cover (live + freeBlocks (m_freeSpace ?a) + {#freshBlock ?a#}) x = of_bool (in_pages ?a x)" for x
      using i(6) [of x] unfolding cover_union cover_add cover_empty by (metis add.assoc add.commute)
    then show ?thesis using i(1-5) unfolding r by (simp add: alloc_ok_def)
  next
    case False
    let ?fs = "if length (m_freeSpace a) \<le> sz then resize_to (sz + 1) (m_freeSpace a) else m_freeSpace a"
    let ?a = "?b\<lparr>m_freeSpace := pushFree sz m ?fs, m_freeMemory := m_freeMemory a + sz\<rparr>"
    have r: "ba_releaseMemory m sz a = ?a" using False by (auto simp: ba_releaseMemory_def Let_def)
    note f = free_ok [of "m_freeSpace a" sz m, OF i(4)]
    have "cover (live + freeBlocks (m_freeSpace ?a) + {#freshBlock ?a#}) x = of_bool (in_pages ?a x)" for x
      using i(6) [of x] f(1) by (simp add: in_pages_def freshBlock_def)
    then show ?thesis using i(1-3,5) f unfolding r by (simp add: alloc_ok_def)
  qed
  then show "alloc_ok (ba_releaseMemory m sz a) live"
    "m_sizeAdditionalPage (ba_releaseMemory m sz a) = m_sizeAdditionalPage a" by blast+
qed

lemma ba_init_ok: "alloc_ok (ba_init s1 s2 newBucketAllocator) {#}"
  by (auto simp: alloc_ok_def ba_init_def newBucketAllocator_def freshBlock_def in_pages_def in_block_def
      nth_Cons' split: if_splits)

text \<open>Two blocks in use have no byte in common, and their bytes are bytes of the pages.\<close>

lemma live_disjoint:
  assumes "alloc_ok a (add_mset b1 (add_mset b2 live))"
  shows "\<not> (in_block x b1 \<and> in_block x b2)"
  using alloc_okD(6) [OF assms, of x] by (auto split: if_splits simp: of_bool_def)

lemma live_in_pages:
  assumes "alloc_ok a (add_mset b live)" "in_block x b"
  shows "in_pages a x"
  using alloc_okD(6) [OF assms(1), of x] assms(2) by (auto split: if_splits simp: of_bool_def)

section \<open>Properties\<close>

text \<open>
  C15. An allocation keeps the invariant: the blocks in use, the released blocks and the rest of the last
  page cover every byte of the pages exactly once, so the new block overlaps no other.
\<close>

theorem getArray_covers:
  assumes "alloc_ok a live" "sz \<le> m_sizeAdditionalPage a" "getArray sz a = (m, a')"
  shows "alloc_ok a' (add_mset (m, sz) live)
    \<and> (\<forall>b\<in>#live. \<forall>x. \<not> (in_block x (m, sz) \<and> in_block x b))
    \<and> (\<forall>x. in_block x (m, sz) \<longrightarrow> in_pages a' x)"
proof -
  have ok: "alloc_ok a' (add_mset (m, sz) live)" by (rule getArray_ok(1) [OF assms])
  have "\<not> (in_block x (m, sz) \<and> in_block x b)" if "b \<in># live" for b x
    using live_disjoint [of a' "(m, sz)" b "live - {#b#}" x] ok that by simp
  with ok live_in_pages [OF ok] show ?thesis by blast
qed

theorem getArray_covers_witness:
  "getArray 4 (ba_init 10 10 newBucketAllocator) = ((0, 0), snd (getArray 4 (ba_init 10 10 newBucketAllocator)))
   \<and> alloc_ok (snd (getArray 4 (ba_init 10 10 newBucketAllocator))) {#((0, 0), 4)#}"
proof -
  have e: "getArray 4 (ba_init 10 10 newBucketAllocator) = ((0, 0), snd (getArray 4 (ba_init 10 10 newBucketAllocator)))"
    by code_simp
  then show ?thesis
    using getArray_covers [OF ba_init_ok _ e] by (simp add: ba_init_def newBucketAllocator_def)
qed



end
