(* ===== verification/CacheBucket.thy ===== *)
theory CacheBucket
  imports BucketAllocator CnfFormula
begin

text \<open>
  How a residual formula becomes the key of a cache entry: the header word of
  \<^verbatim>\<open>src/src/caching/DataInfo.cpp\<close>, and the bytes that \<^verbatim>\<open>BucketManagerCnfIndex\<close> stores, the variables
  of the component and the indices of the clauses it keeps, each in one, two or four bytes.

  The main result is that header and bytes determine the component and the clauses, as long as the
  header's fields do not overflow.
\<close>

section \<open>The header\<close>

definition DataInfo :: "32 word \<Rightarrow> 32 word \<Rightarrow> 32 word \<Rightarrow> 32 word \<Rightarrow> 64 word" where
  "DataInfo szData nbVar nbBitVar nbBitFormula =
     ucast nbVar OR push_bit 21 (ucast szData) OR push_bit 42 (ucast nbBitVar) OR push_bit 47 (ucast nbBitFormula)"

definition DataInfo_asserts :: "32 word \<Rightarrow> 32 word \<Rightarrow> 32 word \<Rightarrow> 32 word \<Rightarrow> bool" where
  "DataInfo_asserts szData nbVar nbBitVar nbBitFormula \<longleftrightarrow>
     nbBitFormula < push_bit 5 1 \<and> nbBitVar < push_bit 5 1 \<and> nbVar < push_bit 21 1 \<and> szData < push_bit 21 1"

definition info_szData :: "64 word \<Rightarrow> 32 word" where
  "info_szData info = ucast (drop_bit 21 info AND (push_bit 21 1 - 1))"

definition info_nbVar :: "64 word \<Rightarrow> 32 word" where
  "info_nbVar info = ucast (info AND (push_bit 21 1 - 1))"

definition MASK_SIZE :: "64 word" where
  "MASK_SIZE = NOT (push_bit 21 (push_bit 21 1 - 1))"

definition info_set_szData :: "32 word \<Rightarrow> 64 word \<Rightarrow> 64 word" where
  "info_set_szData sz info = info AND (push_bit 21 (ucast sz) OR MASK_SIZE)"

definition bucket_szData :: "'u CachedBucket \<Rightarrow> nat" where
  "bucket_szData b = unat (info_szData (info1 b))"

definition bucket_nbVar :: "'u CachedBucket \<Rightarrow> nat" where
  "bucket_nbVar b = unat (info_nbVar (info1 b))"

definition emptyBucket :: "'u CachedBucket" where
  "emptyBucket = \<lparr>bptr = (0, 0), bdata = [], info1 = info_set_szData 0 0, fc = None\<rparr>"

lemma mask21: "push_bit 21 1 - 1 = (mask 21 :: 'w::len word)"
  by (simp add: mask_eq_exp_minus_1 push_bit_eq_mult)

lemma bit_bounded: "x < push_bit k 1 \<Longrightarrow> k < LENGTH('w) \<Longrightarrow> bit (x :: 'w::len word) i \<Longrightarrow> i < k"
proof -
  assume x: "x < push_bit k 1" "k < LENGTH('w)" "bit x i"
  then have "x < 2 ^ k" by (simp add: push_bit_eq_mult)
  then have "x AND mask k = x" by (rule less_mask_eq)
  then show "i < k" using x(3) by (metis bit_and_iff bit_mask_iff)
qed

lemma DataInfo_fields:
  assumes "DataInfo_asserts sz nv bv bf"
  shows "info_szData (DataInfo sz nv bv bf) = sz" "info_nbVar (DataInfo sz nv bv bf) = nv"
    "drop_bit 42 (DataInfo sz nv bv bf) AND mask 5 = ucast bv"
    "drop_bit 47 (DataInfo sz nv bv bf) = ucast bf"
proof -
  have b: "bit sz i \<Longrightarrow> i < 21" "bit nv i \<Longrightarrow> i < 21" "bit bv i \<Longrightarrow> i < 5" "bit bf i \<Longrightarrow> i < 5" for i
    using assms bit_bounded [of sz 21 i] bit_bounded [of nv 21 i] bit_bounded [of bv 5 i] bit_bounded [of bf 5 i]
    by (simp_all add: DataInfo_asserts_def)
  show "info_szData (DataInfo sz nv bv bf) = sz"
    unfolding info_szData_def DataInfo_def mask21
    by (rule bit_word_eqI) (use b in \<open>fastforce simp: bit_simps\<close>)
  show "info_nbVar (DataInfo sz nv bv bf) = nv"
    unfolding info_nbVar_def DataInfo_def mask21
    by (rule bit_word_eqI) (use b in \<open>fastforce simp: bit_simps\<close>)
  show "drop_bit 42 (DataInfo sz nv bv bf) AND mask 5 = ucast bv"
    unfolding DataInfo_def by (rule bit_word_eqI) (use b in \<open>fastforce simp: bit_simps\<close>)
  show "drop_bit 47 (DataInfo sz nv bv bf) = ucast bf"
    unfolding DataInfo_def by (rule bit_word_eqI) (use b in \<open>fastforce simp: bit_simps\<close>)
qed

text \<open>The setter of the size: it keeps the old size bits that the new size shares.\<close>

lemma info_set_szData_and: "info_szData (info_set_szData sz info) = info_szData info AND sz"
  unfolding info_szData_def info_set_szData_def MASK_SIZE_def mask21
  by (rule bit_word_eqI) (auto simp: bit_simps)

lemma emptyBucket_nbVar [simp]: "bucket_nbVar emptyBucket = 0"
  by (simp add: bucket_nbVar_def info_nbVar_def emptyBucket_def info_set_szData_def)


section \<open>The bucket manager\<close>

datatype ModeStore = CACHE_ALL | CACHE_NB | CACHE_NT

record bucketManagerCnf =
  bm_bucketAllocator :: bucketAllocator
  bm_modeStore :: ModeStore

definition newBucketManagerCnf :: "ModeStore \<Rightarrow> nat \<Rightarrow> nat \<Rightarrow> bucketManagerCnf" where
  "newBucketManagerCnf mdStore sizeFirstPage sizeAdditionalPage =
     \<lparr>bm_bucketAllocator = ba_init sizeFirstPage sizeAdditionalPage newBucketAllocator, bm_modeStore = mdStore\<rparr>"

definition nbOctetToEncodeInt :: "nat \<Rightarrow> nat" where
  "nbOctetToEncodeInt v = (if v < 2 ^ 8 then 1 else if v < 2 ^ 16 then 2 else 4)"

definition isKeptClause :: "ModeStore \<Rightarrow> 'z cnfManager_scheme \<Rightarrow> nat \<Rightarrow> bool" where
  "isKeptClause mode f idx =
     (case mode of
        CACHE_NT \<Rightarrow> nbUnsat (cm_infoClauses f ! idx) \<noteq> 0
      | CACHE_NB \<Rightarrow> length (cm_clauses f ! idx) > 2
      | CACHE_ALL \<Rightarrow> True)"

definition collectIdActiveClauses ::
  "ModeStore \<Rightarrow> 'z cnfManagerDyn_scheme \<Rightarrow> var list \<Rightarrow> nat list \<times> 'z cnfManagerDyn_scheme" where
  "collectIdActiveClauses mode f component =
     (let (idxClauses, f') = (if mode = CACHE_ALL then getCurrentClauses f component
                              else getCurrentClausesNotBin f component)
      in (filter (isKeptClause mode f') idxClauses, f'))"

text \<open>\<^verbatim>\<open>storeData\<close> writes each value as a little-endian integer of \<open>w\<close> bytes.\<close>

definition toBytes :: "nat \<Rightarrow> nat \<Rightarrow> 8 word list" where
  "toBytes w v = map (\<lambda>i. of_nat (v div 2 ^ (8 * i))) [0 ..< w]"

definition storeData :: "nat \<Rightarrow> nat list \<Rightarrow> 8 word list" where
  "storeData w vs = concat (map (toBytes w) vs)"

definition index_encode :: "var list \<Rightarrow> nat list \<Rightarrow> 8 word list \<times> 64 word" where
  "index_encode component idxClauses =
     (let nbOVar = nbOctetToEncodeInt (last component + 1);
          nbOData = (if idxClauses \<noteq> [] then nbOctetToEncodeInt (last idxClauses + 1) else 1);
          szData = nbOVar * length component + nbOData * length idxClauses
      in (storeData nbOVar component @ storeData nbOData idxClauses,
          DataInfo (of_nat szData) (of_nat (length component)) (of_nat nbOVar) (of_nat nbOData)))"

definition index_storeFormula ::
  "bucketManagerCnf \<Rightarrow> 'z cnfManagerDyn_scheme \<Rightarrow> var list
     \<Rightarrow> 'u CachedBucket \<times> bucketManagerCnf \<times> 'z cnfManagerDyn_scheme" where
  "index_storeFormula bm f component =
     (let (idxClauses, f') = collectIdActiveClauses (bm_modeStore bm) f component;
          nbOVar = nbOctetToEncodeInt (last component + 1);
          nbOData = (if idxClauses \<noteq> [] then nbOctetToEncodeInt (last idxClauses + 1) else 1);
          szData = nbOVar * length component + nbOData * length idxClauses;
          (data, a) = getArray szData (bm_bucketAllocator bm);
          (bytes, di) = index_encode component idxClauses
      in (\<lparr>bptr = data, bdata = bytes, info1 = di, fc = None\<rparr>, bm\<lparr>bm_bucketAllocator := a\<rparr>, f'))"

section \<open>The bytes determine the values\<close>

lemma length_toBytes [simp]: "length (toBytes w v) = w"
  by (simp add: toBytes_def)

lemma toBytes_Suc: "toBytes (Suc w) v = of_nat v # toBytes w (v div 2 ^ 8)"
  by (simp add: toBytes_def upt_conv_Cons map_Suc_upt [symmetric] div_mult2_eq [symmetric] power_add comp_def
      del: upt_Suc map_Suc_upt)

lemma of_nat_byte: "(of_nat a :: 8 word) = of_nat b \<longleftrightarrow> a mod 256 = b mod 256"
  by (simp add: word_of_nat_eq_iff take_bit_eq_mod)

lemma toBytes_inj: "toBytes w a = toBytes w b \<Longrightarrow> a < 2 ^ (8 * w) \<Longrightarrow> b < 2 ^ (8 * w) \<Longrightarrow> a = b"
proof (induction w arbitrary: a b)
  case (Suc w)
  then have "(of_nat a :: 8 word) = of_nat b" and t: "toBytes w (a div 2 ^ 8) = toBytes w (b div 2 ^ 8)"
    by (simp_all add: toBytes_Suc)
  then have m: "a mod 256 = b mod 256" by (simp only: of_nat_byte)
  have "a div 2 ^ 8 < 2 ^ (8 * w)" "b div 2 ^ 8 < 2 ^ (8 * w)"
    using Suc.prems(2,3) by (auto simp: less_mult_imp_div_less power_add mult.commute)
  from Suc.IH [OF t this] have "a div 256 = b div 256" by simp
  with m show ?case by (metis div_mult_mod_eq)
qed simp

lemma length_storeData [simp]: "length (storeData w vs) = w * length vs"
  by (induction vs) (simp_all add: storeData_def)

lemma storeData_inj:
  "storeData w xs = storeData w ys \<Longrightarrow> length xs = length ys \<Longrightarrow> \<forall>v\<in>set xs \<union> set ys. v < 2 ^ (8 * w) \<Longrightarrow> xs = ys"
proof (induction xs ys rule: list_induct2')
  case (4 x xs y ys)
  then have "toBytes w x = toBytes w y" "storeData w xs = storeData w ys" by (simp_all add: storeData_def)
  with 4 show ?case using toBytes_inj [of w x y] by simp
qed simp_all

lemma nbOctet_fits: "v < 2 ^ 32 \<Longrightarrow> v < 2 ^ (8 * nbOctetToEncodeInt v)"
  by (auto simp: nbOctetToEncodeInt_def)

lemma nbOctet_range: "nbOctetToEncodeInt v = 1 \<or> nbOctetToEncodeInt v = 2 \<or> nbOctetToEncodeInt v = 4"
  by (simp add: nbOctetToEncodeInt_def)

text \<open>A key: a component and the clauses it keeps, both in increasing order.\<close>

definition key_ok :: "nat \<Rightarrow> nat \<Rightarrow> var list \<times> nat list \<Rightarrow> bool" where
  "key_ok n m k \<longleftrightarrow> fst k \<noteq> [] \<and> sorted (fst k) \<and> distinct (fst k) \<and> (\<forall>v\<in>set (fst k). 1 \<le> v \<and> v \<le> n)
     \<and> sorted (snd k) \<and> distinct (snd k) \<and> (\<forall>i\<in>set (snd k). i < m)"

definition fits_header :: "nat \<Rightarrow> nat \<Rightarrow> bool" where
  "fits_header n m \<longleftrightarrow> 4 * n + 4 * m < 2 ^ 21"

lemma length_distinct_le: "distinct xs \<Longrightarrow> \<forall>x\<in>set xs. x < m \<Longrightarrow> length xs \<le> m"
  using card_mono [of "{..<m}" "set xs"] by (auto simp: distinct_card)

lemma last_fits:
  assumes "sorted xs" "\<forall>x\<in>set xs. x < 2 ^ 31"
  shows "\<forall>x\<in>set xs. x < 2 ^ (8 * nbOctetToEncodeInt (last xs + 1))"
proof
  fix x assume x: "x \<in> set xs"
  then have "last xs < 2 ^ 31" using assms(2) by (metis empty_iff empty_set last_in_set)
  then have "last xs + 1 < 2 ^ (8 * nbOctetToEncodeInt (last xs + 1))" by (intro nbOctet_fits) simp
  with sorted_last_ge [OF assms(1) x] show "x < 2 ^ (8 * nbOctetToEncodeInt (last xs + 1))" by simp
qed

lemma key_fits:
  assumes "key_ok n m (C, ids)" "n < 2 ^ 31" "m < 2 ^ 31"
  shows "\<forall>v\<in>set C. v < 2 ^ (8 * nbOctetToEncodeInt (last C + 1))"
    "\<forall>i\<in>set ids. i < 2 ^ (8 * (if ids \<noteq> [] then nbOctetToEncodeInt (last ids + 1) else 1))"
proof -
  have "\<forall>v\<in>set C. v < 2 ^ 31" "\<forall>i\<in>set ids. i < 2 ^ 31" "sorted C" "sorted ids"
    using assms unfolding key_ok_def by fastforce+
  then show "\<forall>v\<in>set C. v < 2 ^ (8 * nbOctetToEncodeInt (last C + 1))"
    "\<forall>i\<in>set ids. i < 2 ^ (8 * (if ids \<noteq> [] then nbOctetToEncodeInt (last ids + 1) else 1))"
    using last_fits [of C] last_fits [of ids] by auto
qed

lemma of_nat_lt_21: "x < 2 ^ 21 \<Longrightarrow> (of_nat x :: 32 word) < push_bit 21 1"
  by (simp add: word_less_nat_alt unat_of_nat push_bit_eq_mult)

text \<open>The sizes that the key of a component has, and that the header's asserts hold for them.\<close>

lemma index_sizes:
  assumes "key_ok n m (C, ids)" "fits_header n m"
  defines "nbOVar \<equiv> nbOctetToEncodeInt (last C + 1)"
    and "nbOData \<equiv> (if ids \<noteq> [] then nbOctetToEncodeInt (last ids + 1) else 1)"
  shows "nbOVar * length C + nbOData * length ids < 2 ^ 21" "length C < 2 ^ 21" "length C \<noteq> 0"
    "nbOVar \<in> {1, 2, 4}" "nbOData \<in> {1, 2, 4}"
    "DataInfo_asserts (of_nat (nbOVar * length C + nbOData * length ids)) (of_nat (length C))
       (of_nat nbOVar) (of_nat nbOData)"
proof -
  have "set C \<subseteq> {1..n}" "distinct C" using assms(1) by (auto simp: key_ok_def)
  then have "length C \<le> n" using card_mono [of "{1..n}" "set C"] by (simp add: distinct_card)
  moreover have "length ids \<le> m" using assms(1) length_distinct_le [of ids m] by (auto simp: key_ok_def)
  ultimately have l: "length C \<le> n" "length ids \<le> m" .
  have r: "nbOVar \<le> 4" "nbOData \<le> 4" by (simp_all add: nbOVar_def nbOData_def nbOctetToEncodeInt_def)
  show v: "nbOVar \<in> {1, 2, 4}" "nbOData \<in> {1, 2, 4}"
    using nbOctet_range by (auto simp: nbOVar_def nbOData_def)
  have "nbOVar * length C + nbOData * length ids \<le> 4 * n + 4 * m"
    using l r by (intro add_mono mult_mono) auto
  then show s: "nbOVar * length C + nbOData * length ids < 2 ^ 21" using assms(2) by (simp add: fits_header_def)
  show c: "length C < 2 ^ 21" using l(1) assms(2) by (simp add: fits_header_def)
  show "length C \<noteq> 0" using assms(1) by (simp add: key_ok_def)
  have w: "(of_nat x :: 32 word) < push_bit 5 1" if "x \<in> {1, 2, 4}" for x :: nat
    using that by (auto simp: word_less_nat_alt)
  show "DataInfo_asserts (of_nat (nbOVar * length C + nbOData * length ids)) (of_nat (length C))
       (of_nat nbOVar) (of_nat nbOData)"
    unfolding DataInfo_asserts_def using w [OF v(1)] w [OF v(2)] of_nat_lt_21 [OF s] of_nat_lt_21 [OF c] by blast
qed

lemma of_nat_32_inj: "x < 2 ^ 21 \<Longrightarrow> y < 2 ^ 21 \<Longrightarrow> (of_nat x :: 32 word) = of_nat y \<Longrightarrow> x = y"
  by (simp add: word_of_nat_eq_iff take_bit_nat_eq_self)

lemma ucast_width_inj:
  "x \<in> {1, 2, 4} \<Longrightarrow> y \<in> {1, 2, 4 :: nat} \<Longrightarrow>
    (ucast (of_nat x :: 32 word) :: 64 word) = ucast (of_nat y :: 32 word) \<Longrightarrow> x = y"
  by auto

lemma index_encode_inj:
  assumes k: "key_ok n m k" "key_ok n m k'" and fits: "fits_header n m"
    and e: "index_encode (fst k) (snd k) = index_encode (fst k') (snd k')"
  shows "k = k'"
proof -
  obtain C ids C' ids' where kk: "k = (C, ids)" "k' = (C', ids')" by fastforce
  let ?V = "nbOctetToEncodeInt (last C + 1)" and ?V' = "nbOctetToEncodeInt (last C' + 1)"
  let ?D = "if ids \<noteq> [] then nbOctetToEncodeInt (last ids + 1) else 1"
  let ?D' = "if ids' \<noteq> [] then nbOctetToEncodeInt (last ids' + 1) else 1"
  let ?S = "?V * length C + ?D * length ids" and ?S' = "?V' * length C' + ?D' * length ids'"
  note s = index_sizes [OF k(1) [unfolded kk] fits] and s' = index_sizes [OF k(2) [unfolded kk] fits]
  note f = DataInfo_fields [OF s(6)] and f' = DataInfo_fields [OF s'(6)]
  have di: "DataInfo (of_nat ?S) (of_nat (length C)) (of_nat ?V) (of_nat ?D)
      = DataInfo (of_nat ?S') (of_nat (length C')) (of_nat ?V') (of_nat ?D')"
    and bts: "storeData ?V C @ storeData ?D ids = storeData ?V' C' @ storeData ?D' ids'"
    using e unfolding kk index_encode_def Let_def fst_conv snd_conv by (blast dest: Pair_inject)+
  have sz: "?S = ?S'" using f(1) f'(1) di by (intro of_nat_32_inj [OF s(1) s'(1)]) simp
  have nv: "length C = length C'" using f(2) f'(2) di by (intro of_nat_32_inj [OF s(2) s'(2)]) simp
  have V: "?V = ?V'" using f(3) f'(3) di by (intro ucast_width_inj [OF s(4) s'(4)]) simp
  have D: "?D = ?D'" using f(4) f'(4) di by (intro ucast_width_inj [OF s(5) s'(5)]) simp
  have "storeData ?V C = storeData ?V' C' \<and> storeData ?D ids = storeData ?D' ids'"
    using bts V nv by (intro append_eq_append_conv [THEN iffD1]) simp_all
  moreover have n: "n < 2 ^ 31" "m < 2 ^ 31" using fits by (auto simp: fits_header_def)
  ultimately have bytes: "storeData ?V C = storeData ?V C'" "storeData ?D ids = storeData ?D ids'"
    using V D by simp_all
  have "length ids = length ids'" using sz nv V D s(5) by auto
  moreover have "\<forall>v\<in>set C \<union> set C'. v < 2 ^ (8 * ?V)"
    using key_fits(1) [OF k(1) [unfolded kk] n] key_fits(1) [OF k(2) [unfolded kk] n] unfolding V by blast
  moreover have "\<forall>v\<in>set ids \<union> set ids'. v < 2 ^ (8 * ?D)"
    using key_fits(2) [OF k(1) [unfolded kk] n] key_fits(2) [OF k(2) [unfolded kk] n] unfolding D by blast
  ultimately show ?thesis unfolding kk using storeData_inj [OF bytes(1) nv] storeData_inj [OF bytes(2)] by simp
qed

section \<open>The key of a component\<close>

text \<open>The clauses that \<^verbatim>\<open>getCurrentClauses\<close> finds are those the component leaves active.\<close>

lemma getCurrentClauses_ok:
  assumes inv: "dyn_inv n F f stk" and ctx: "comp_ctx n F (concat stk) C"
    and e: "getCurrentClauses f C = (ids, f')"
  shows "f' = f" "ids = filter (\<lambda>i. F ! i \<in> active F (set (concat stk)) (set C)) [0 ..< length F]"
proof -
  let ?T = "set (concat stk)"
  have core: "core_ok n F ?T f" and sc: "scratch_ok n F f" and F: "cnf_ok n F"
    using inv by (auto simp: dyn_inv_def dest: cm_inv_core)
  have cl: "clauses_ok F ?T (cm_clauses f)" and info: "info_ok F ?T (cm_infoClauses f)"
    using core by (auto simp: core_ok_def)
  have len: "length (cm_clauses f) = length F" using cl by (simp add: clauses_ok_def)
  have mk: "cm_inCurrentComponent f = replicate (n + 1) False" using sc by (simp add: scratch_ok_def)
  have C: "\<forall>v\<in>set C. v \<le> n \<and> v \<notin> var ` ?T" "closed F ?T (set C)"
    and two: "\<forall>c\<in>active F ?T (set C). 2 \<le> card (clause_vars c - var ` ?T)"
    using ctx by (auto simp: comp_ctx_def)
  have f': "f' = markComponent False (markComponent True f C) C" using e by (auto simp: getCurrentClauses_def Let_def)
  show "f' = f" unfolding f' by (simp add: markComponent_def mk mark_unmark del: replicate_Suc)
  have sel: "isNotSatisfiedClauseAndInComponent (markComponent True f C) i
      (cm_inCurrentComponent (markComponent True f C)) \<longleftrightarrow> F ! i \<in> active F ?T (set C)" if i: "i < length F" for i
  proof -
    let ?c = "F ! i" and ?l = "cm_clauses f ! i ! 0"
    have c: "?c \<in> set F" "clause_ok n ?c" using i F by (auto simp: cnf_ok_def)
    have m: "mset (cm_clauses f ! i) = mset ?c" using cl i by (simp add: clauses_ok_def)
    have l: "?l \<in> set ?c" using perm_first [OF m] c(2) by (simp add: clause_ok_def)
    then have ln: "var ?l \<le> n" using c(2) by (simp add: clause_ok_def)
    have s: "isSat (cm_infoClauses f ! i) = sat_by ?T ?c" using info i by (simp add: info_ok_def)
    have iff: "var ?l \<in> set C" if a: "?c \<in> active F ?T (set C)"
    proof -
      have ns: "\<not> sat_by ?T ?c" and t: "clause_vars ?c \<inter> set C \<noteq> {}" using a by (auto simp: active_def)
      have sub: "clause_vars ?c \<subseteq> set C \<union> var ` ?T" using C(2) c(1) ns t by (auto simp: closed_def)
      have "var ?l \<notin> var ` ?T"
      proof (cases "length ?c = 2")
        case True
        have "card (clause_vars ?c) \<le> 2" using True card_length [of "map var ?c"] by (simp add: clause_vars_def)
        then have "clause_vars ?c - var ` ?T = clause_vars ?c"
          using two a by (intro card_seteq) (auto intro: le_trans)
        then show ?thesis using l by (auto simp: clause_vars_def)
      next
        case False
        obtain v where "v \<in> clause_vars ?c" "v \<in> set C" using t by blast
        then have "\<exists>l\<in>set ?c. var l \<notin> var ` ?T" using C(1) by (auto simp: clause_vars_def)
        then show ?thesis using cl i False ns by (simp add: clauses_ok_def)
      qed
      then show ?thesis using sub l by (auto simp: clause_vars_def)
    qed
    have "var ?l \<in> set C \<Longrightarrow> clause_vars ?c \<inter> set C \<noteq> {}" using l by (auto simp: clause_vars_def)
    then have "F ! i \<in> active F ?T (set C) \<longleftrightarrow> \<not> sat_by ?T ?c \<and> var ?l \<in> set C"
      using iff c(1) by (auto simp: active_def)
    then show ?thesis using s ln
      by (simp add: isNotSatisfiedClauseAndInComponent_def markComponent_def mk foldl_mark_nth del: replicate_Suc)
  qed
  have "ids = filter (\<lambda>i. isNotSatisfiedClauseAndInComponent (markComponent True f C) i
      (cm_inCurrentComponent (markComponent True f C))) [0 ..< length F]"
    using e len by (auto simp: getCurrentClauses_def Let_def markComponent_def)
  then show "ids = filter (\<lambda>i. F ! i \<in> active F ?T (set C)) [0 ..< length F]"
    using sel by (metis (no_types, lifting) atLeastLessThan_iff filter_cong set_upt)
qed

definition cacheKey :: "'z cnfManagerDyn_scheme \<Rightarrow> var list \<Rightarrow> var list \<times> nat list" where
  "cacheKey f C = (C, fst (getCurrentClauses f C))"

lemma cacheKey_ok:
  assumes "dyn_inv n F f stk" "comp_ctx n F (concat stk) C"
  shows "key_ok n (length F) (cacheKey f C)"
  using getCurrentClauses_ok(2) [OF assms] assms(2)
  by (cases "getCurrentClauses f C") (auto simp: cacheKey_def key_ok_def comp_ctx_def sorted_wrt_filter)

lemma cacheKey_active:
  assumes "dyn_inv n F f stk" "dyn_inv n F f' stk'" "comp_ctx n F (concat stk) C" "comp_ctx n F (concat stk') C'"
    and e: "cacheKey f C = cacheKey f' C'"
  shows "C = C' \<and> active F (set (concat stk)) (set C) = active F (set (concat stk')) (set C')"
proof -
  let ?A = "active F (set (concat stk)) (set C)" and ?A' = "active F (set (concat stk')) (set C')"
  have "fst (getCurrentClauses f C) = fst (getCurrentClauses f' C')" and C: "C = C'"
    using e by (auto simp: cacheKey_def)
  then have "filter (\<lambda>i. F ! i \<in> ?A) [0 ..< length F] = filter (\<lambda>i. F ! i \<in> ?A') [0 ..< length F]"
    using getCurrentClauses_ok(2) [OF assms(1,3)] getCurrentClauses_ok(2) [OF assms(2,4)] by (metis prod.collapse)
  then have "set (filter (\<lambda>i. F ! i \<in> ?A) [0 ..< length F]) = set (filter (\<lambda>i. F ! i \<in> ?A') [0 ..< length F])"
    by (rule arg_cong)
  then have "\<forall>i<length F. F ! i \<in> ?A \<longleftrightarrow> F ! i \<in> ?A'" by auto
  moreover have "?A \<subseteq> set F" "?A' \<subseteq> set F" by (auto simp: active_def)
  ultimately have "?A = ?A'" unfolding set_conv_nth by blast
  with C show ?thesis by simp
qed

lemma index_storeFormula_ok:
  assumes "dyn_inv n F f stk" "comp_ctx n F (concat stk) C" "bm_modeStore bm = CACHE_ALL"
    and e: "index_storeFormula bm f C = (b, bm', f')"
  shows "f' = f" "(bdata b, info1 b) = index_encode (fst (cacheKey f C)) (snd (cacheKey f C))"
    "bm_modeStore bm' = CACHE_ALL"
proof -
  obtain ids f1 where g: "getCurrentClauses f C = (ids, f1)" by fastforce
  have "collectIdActiveClauses CACHE_ALL f C = (ids, f1)"
    by (simp add: collectIdActiveClauses_def g isKeptClause_def)
  with e assms(3) getCurrentClauses_ok(1) [OF assms(1,2) g] g
  show "f' = f" "(bdata b, info1 b) = index_encode (fst (cacheKey f C)) (snd (cacheKey f C))"
    "bm_modeStore bm' = CACHE_ALL"
    by (auto simp: index_storeFormula_def cacheKey_def Let_def split: prod.splits)
qed

section \<open>Properties\<close>

text \<open>
  C11. The bytes and the header that the index representation makes determine the component and the
  clauses: two keys of a problem that fits the header and that have the same entry are equal.
\<close>

theorem index_key_injective:
  assumes "key_ok n m (C, ids)" "key_ok n m (C', ids')" "fits_header n m"
    and "index_encode C ids = index_encode C' ids'"
  shows "C = C' \<and> ids = ids'"
  using index_encode_inj [OF assms(1-3)] assms(4) by simp

theorem index_key_injective_witness:
  "index_encode [1, 300] [0] = index_encode [1, 300] [0] \<and> [1, 300 :: nat] = [1, 300]"
  using index_key_injective [of 300 1 "[1, 300]" "[0]" "[1, 300]" "[0]"] by (simp add: key_ok_def fits_header_def)

text \<open>C33. The header gives back the four numbers it was made of, when they fit their fields.\<close>

theorem header_fields:
  assumes "DataInfo_asserts sz nv bv bf"
  shows "info_szData (DataInfo sz nv bv bf) = sz \<and> info_nbVar (DataInfo sz nv bv bf) = nv
    \<and> drop_bit 42 (DataInfo sz nv bv bf) AND mask 5 = ucast bv \<and> drop_bit 47 (DataInfo sz nv bv bf) = ucast bf"
  using DataInfo_fields [OF assms] by blast

theorem header_fields_witness: "info_szData (DataInfo 5 3 1 1) = 5"
  using header_fields [of 5 3 1 1] by (simp add: DataInfo_asserts_def)

text \<open>
  C3. The setter of the size does not set it: the header keeps the conjunction of the old size and the
  new one, because the code masks with \<^verbatim>\<open>&=\<close> only.
\<close>

theorem szData_setter_and: "info_szData (info_set_szData sz info) = info_szData info AND sz"
  by (rule info_set_szData_and)

end
