(* ===== verification/CacheManager.thy ===== *)
theory CacheManager
  imports CacheBucket
begin

text \<open>
  The cache: \<^verbatim>\<open>CacheManager\<close> with its two hash tables \<^verbatim>\<open>CacheNoCollision\<close> and \<^verbatim>\<open>CacheList\<close>, and the
  cleaning strategies. The hash tables provide the interface \<open>hash_table\<close>, in which the search is
  shown to answer only with entries stored for the same component and clauses. So both caches meet
  the contract \<open>cache\<close> of the counting method.

  Parameters: \<open>hash_bytes\<close> is \<^verbatim>\<open>std::_Hash_bytes\<close>; \<open>exceeds r k\<close> is the comparison of doubles in
  \<^verbatim>\<open>reduceCache\<close>, the ratio of positive to negative hits (None for the ratio 0) against the
  threshold after \<open>k\<close> increments.
\<close>

section \<open>The manager\<close>

record StatVarSizeCache =
  negative :: "64 word"
  positive :: "64 word"
  number :: "64 word"

record cacheCleaningExpectation =
  ce_nbReduceCall :: "32 word"
  ce_nbRemoveEntry :: "64 word"
  ce_nbPositiveHit :: "64 word"
  ce_nbNegativeHit :: "64 word"
  ce_statVar :: "StatVarSizeCache list"

datatype cacheCleaning = CacheCleaningNone | CacheCleaningExpectation cacheCleaningExpectation

record cacheManager =
  ch_nbEntry :: "64 word"
  ch_nbPositiveHit :: "64 word"
  ch_nbNegativeHit :: "64 word"
  ch_nbInitVar :: nat
  ch_nbCreationBucket :: "64 word"
  ch_sumDataSize :: "64 word"
  ch_limitVarCached :: nat
  ch_bucketManager :: bucketManagerCnf
  ch_cacheCleaningManager :: cacheCleaning

record 'u cacheNoCollision = cacheManager +
  nc_SIZE_HASH :: nat
  nc_hashTable :: "'u CachedBucket list"

record 'u cacheList = cacheManager +
  cl_SIZE_HASH :: nat
  cl_hashTable :: "'u CachedBucket list list"

definition MAX_NBVAR_CACHED :: nat where "MAX_NBVAR_CACHED = 100000"
definition MIN_NBVAR_NOTCACHED :: nat where "MIN_NBVAR_NOTCACHED = 100"

definition newCleaningExpectation :: "nat \<Rightarrow> cacheCleaningExpectation" where
  "newCleaningExpectation nbVar = \<lparr>ce_nbReduceCall = 0, ce_nbRemoveEntry = 0, ce_nbPositiveHit = 0,
     ce_nbNegativeHit = 0, ce_statVar = replicate (nbVar + 1) \<lparr>negative = 0, positive = 0, number = 0\<rparr>\<rparr>"

definition newCacheManager :: "bucketManagerCnf \<Rightarrow> bool \<Rightarrow> nat \<Rightarrow> cacheManager" where
  "newCacheManager bm expectation nbVar = \<lparr>ch_nbEntry = 0, ch_nbPositiveHit = 0, ch_nbNegativeHit = 0,
     ch_nbInitVar = nbVar, ch_nbCreationBucket = 0, ch_sumDataSize = 0,
     ch_limitVarCached = (if nbVar < MAX_NBVAR_CACHED then nbVar else MAX_NBVAR_CACHED),
     ch_bucketManager = bm,
     ch_cacheCleaningManager =
       (if expectation then CacheCleaningExpectation (newCleaningExpectation nbVar) else CacheCleaningNone)\<rparr>"

definition setLimitVarCache :: "nat \<Rightarrow> 'z cacheManager_scheme \<Rightarrow> 'z cacheManager_scheme" where
  "setLimitVarCache val c = c\<lparr>ch_limitVarCached := (if val \<le> ch_nbInitVar c then val else ch_nbInitVar c)\<rparr>"

definition cm_isActivated :: "'z cacheManager_scheme \<Rightarrow> nat \<Rightarrow> bool" where
  "cm_isActivated c nbVar \<longleftrightarrow> nbVar \<le> ch_limitVarCached c"

definition cm_releaseMemory :: "addr \<Rightarrow> nat \<Rightarrow> 'z cacheManager_scheme \<Rightarrow> 'z cacheManager_scheme" where
  "cm_releaseMemory data sz c = c\<lparr>ch_bucketManager := (ch_bucketManager c)
     \<lparr>bm_bucketAllocator := ba_releaseMemory data sz (bm_bucketAllocator (ch_bucketManager c))\<rparr>\<rparr>"

text \<open>\<^verbatim>\<open>HashString::hash\<close> on the bytes of a bucket and its header, and \<^verbatim>\<open>computeHash\<close>.\<close>

definition HashString_hash :: "(8 word list \<Rightarrow> nat \<Rightarrow> 64 word) \<Rightarrow> 8 word list \<Rightarrow> 64 word \<Rightarrow> 32 word" where
  "HashString_hash hash_bytes key info =
     (let dataHash = ucast (hash_bytes key 29111983) :: 32 word;
          infoHash = ucast (hash_bytes (toBytes 8 (unat info)) 30011989)
      in dataHash XOR (infoHash + 0x9e3779b9 + push_bit 6 dataHash + drop_bit 2 dataHash))"

definition computeHash :: "(8 word list \<Rightarrow> nat \<Rightarrow> 64 word) \<Rightarrow> 'u CachedBucket \<Rightarrow> 32 word" where
  "computeHash hash_bytes b = HashString_hash hash_bytes (take (bucket_szData b) (bdata b)) (info1 b)"

section \<open>Cleaning\<close>

definition initCountCachedBucket :: "nat \<Rightarrow> 'z cacheManager_scheme \<Rightarrow> 'z cacheManager_scheme" where
  "initCountCachedBucket nbVar c =
     (case ch_cacheCleaningManager c of
        CacheCleaningNone \<Rightarrow> c
      | CacheCleaningExpectation ce \<Rightarrow>
          let st = ce_statVar ce ! nbVar
          in c\<lparr>ch_cacheCleaningManager := CacheCleaningExpectation
                 (ce\<lparr>ce_statVar := (ce_statVar ce)[nbVar := st\<lparr>number := number st + 1\<rparr>]\<rparr>)\<rparr>)"

definition updateCountCachedBucket :: "bool \<Rightarrow> nat \<Rightarrow> 'z cacheManager_scheme \<Rightarrow> 'z cacheManager_scheme" where
  "updateCountCachedBucket found nbVar c =
     (case ch_cacheCleaningManager c of
        CacheCleaningNone \<Rightarrow> c
      | CacheCleaningExpectation ce \<Rightarrow>
          let st = ce_statVar ce ! nbVar
          in c\<lparr>ch_cacheCleaningManager := CacheCleaningExpectation
                 (if found
                  then ce\<lparr>ce_statVar := (ce_statVar ce)[nbVar := st\<lparr>positive := positive st + 1\<rparr>],
                          ce_nbPositiveHit := ce_nbPositiveHit ce + 1\<rparr>
                  else ce\<lparr>ce_statVar := (ce_statVar ce)[nbVar := st\<lparr>negative := negative st + 1\<rparr>],
                          ce_nbNegativeHit := ce_nbNegativeHit ce + 1\<rparr>)\<rparr>)"

text \<open>
  The loop of \<^verbatim>\<open>reduceCache\<close>, from the limit downwards: it lowers the limit while the entries of
  size \<open>i\<close> hit too rarely, and ages the counts of the sizes it visits.
\<close>

fun reduceLoop ::
  "((64 word \<times> 64 word) option \<Rightarrow> 32 word \<Rightarrow> bool) \<Rightarrow> 32 word \<Rightarrow> nat \<Rightarrow> nat \<Rightarrow> StatVarSizeCache list
     \<Rightarrow> nat \<times> StatVarSizeCache list" where
  "reduceLoop exceeds k 0 limit st = (limit, st)"
| "reduceLoop exceeds k (Suc i) limit st =
     (if Suc i < length st \<and> Suc i > MIN_NBVAR_NOTCACHED
      then
        let s = st ! Suc i;
            aged = negative s \<noteq> 0;
            ratio = (if aged then Some (positive s, negative s) else None);
            st' = (if aged
                   then st[Suc i := s\<lparr>negative := drop_bit 1 (negative s), positive := drop_bit 1 (positive s)\<rparr>]
                   else st)
        in if exceeds ratio k then (limit, st') else reduceLoop exceeds k i (limit - 1) st'
      else (limit, st))"

text \<open>
  \<^verbatim>\<open>limit *= 1.1\<close> truncates the product of doubles; for limits up to \<^verbatim>\<open>MAX_NBVAR_CACHED\<close> the result is
  the integer part of eleven tenths of the limit. \<open>removeEntry\<close> is the virtual function.
\<close>

definition reduceCache ::
  "((64 word \<times> 64 word) option \<Rightarrow> 32 word \<Rightarrow> bool)
     \<Rightarrow> (('u CachedBucket \<Rightarrow> bool) \<Rightarrow> 'z cacheManager_scheme \<Rightarrow> nat \<times> 'z cacheManager_scheme)
     \<Rightarrow> 'z cacheManager_scheme \<Rightarrow> 'z cacheManager_scheme" where
  "reduceCache exceeds removeEntry c =
     (case ch_cacheCleaningManager c of
        CacheCleaningNone \<Rightarrow> c
      | CacheCleaningExpectation ce \<Rightarrow>
          let (limit0, st) = reduceLoop exceeds (ce_nbReduceCall ce) (ch_limitVarCached c) (ch_limitVarCached c)
                               (ce_statVar ce);
              c1 = setLimitVarCache (limit0 * 11 div 10) c;
              limit = ch_limitVarCached c1;
              (nbRemoveEntry, c2) = removeEntry (\<lambda>b. bucket_nbVar b \<noteq> 0 \<and> limit \<le> bucket_nbVar b) c1
          in c2\<lparr>ch_cacheCleaningManager := CacheCleaningExpectation
                 (ce\<lparr>ce_nbReduceCall := ce_nbReduceCall ce + 1, ce_statVar := st,
                     ce_nbRemoveEntry := ce_nbRemoveEntry ce + of_nat nbRemoveEntry\<rparr>)\<rparr>)"

section \<open>Search and insertion\<close>

definition consumedMemory :: "'z cacheManager_scheme \<Rightarrow> bool" where
  "consumedMemory c = m_consumedMemory (bm_bucketAllocator (ch_bucketManager c))"

definition reinitComsumedMemory :: "'z cacheManager_scheme \<Rightarrow> 'z cacheManager_scheme" where
  "reinitComsumedMemory c = c\<lparr>ch_bucketManager := (ch_bucketManager c)
     \<lparr>bm_bucketAllocator := (bm_bucketAllocator (ch_bucketManager c))\<lparr>m_consumedMemory := False\<rparr>\<rparr>\<rparr>"

definition searchInCache ::
  "((64 word \<times> 64 word) option \<Rightarrow> 32 word \<Rightarrow> bool) \<Rightarrow> (8 word list \<Rightarrow> nat \<Rightarrow> 64 word)
     \<Rightarrow> (('u CachedBucket \<Rightarrow> bool) \<Rightarrow> 'z cacheManager_scheme \<Rightarrow> nat \<times> 'z cacheManager_scheme)
     \<Rightarrow> ('u CachedBucket \<Rightarrow> 32 word \<Rightarrow> 'z cacheManager_scheme \<Rightarrow> 'u CachedBucket option \<times> 'z cacheManager_scheme)
     \<Rightarrow> 'z cacheManager_scheme \<Rightarrow> cnfManagerDyn \<Rightarrow> var list
     \<Rightarrow> 'u TmpEntry \<times> 'z cacheManager_scheme \<times> cnfManagerDyn" where
  "searchInCache exceeds hash_bytes removeEntry bucketAlreadyExist c f varConnected =
     (let c1 = (if consumedMemory c then reinitComsumedMemory (reduceCache exceeds removeEntry c) else c);
          (formulaBucket, bm, f') = index_storeFormula (ch_bucketManager c1) f varConnected;
          hashValue = computeHash hash_bytes formulaBucket;
          (cacheBucket, c2) = bucketAlreadyExist formulaBucket hashValue (c1\<lparr>ch_bucketManager := bm\<rparr>);
          c3 = updateCountCachedBucket (cacheBucket \<noteq> None) (length varConnected) c2
      in case cacheBucket of
           None \<Rightarrow> (\<lparr>tmp_e = formulaBucket, tmp_hashValue = hashValue, tmp_defined = False\<rparr>, c3, f')
         | Some b \<Rightarrow> (\<lparr>tmp_e = b, tmp_hashValue = hashValue, tmp_defined = True\<rparr>,
             cm_releaseMemory (bptr formulaBucket) (bucket_szData formulaBucket) c3, f'))"

text \<open>The virtual functions of a cache, as the counting method calls them.\<close>

definition cache_if_of ::
  "((64 word \<times> 64 word) option \<Rightarrow> 32 word \<Rightarrow> bool) \<Rightarrow> (8 word list \<Rightarrow> nat \<Rightarrow> 64 word)
     \<Rightarrow> (('u CachedBucket \<Rightarrow> bool) \<Rightarrow> 'z cacheManager_scheme \<Rightarrow> nat \<times> 'z cacheManager_scheme)
     \<Rightarrow> ('u CachedBucket \<Rightarrow> 32 word \<Rightarrow> 'z cacheManager_scheme \<Rightarrow> 'u CachedBucket option \<times> 'z cacheManager_scheme)
     \<Rightarrow> ('u CachedBucket \<Rightarrow> 32 word \<Rightarrow> 'u \<Rightarrow> 'z cacheManager_scheme \<Rightarrow> 'z cacheManager_scheme)
     \<Rightarrow> ('z cacheManager_scheme, cnfManagerDyn, 'u) cache_if" where
  "cache_if_of exceeds hash_bytes removeEntry bucketAlreadyExist pushInHashTable =
     \<lparr>ca_isActivated = cm_isActivated,
      ca_searchInCache = (\<lambda>c f vs. let (cb, c', f') =
         searchInCache exceeds hash_bytes removeEntry bucketAlreadyExist c f vs in (cb, c')),
      ca_addInCache = (\<lambda>c cb val. pushInHashTable (tmp_e cb) (tmp_hashValue cb) val c)\<rparr>"

text \<open>What both tables do to the counters when an entry is stored.\<close>

definition countCreation :: "'u CachedBucket \<Rightarrow> 'z cacheManager_scheme \<Rightarrow> 'z cacheManager_scheme" where
  "countCreation cb c =
     (let c1 = initCountCachedBucket (bucket_nbVar cb) c
      in c1\<lparr>ch_nbCreationBucket := ch_nbCreationBucket c1 + 1,
            ch_sumDataSize := ch_sumDataSize c1 + of_nat (bucket_szData cb), ch_nbEntry := ch_nbEntry c1 + 1\<rparr>)"

definition sameEntry :: "'u CachedBucket \<Rightarrow> 'u CachedBucket \<Rightarrow> bool" where
  "sameEntry cb cbi \<longleftrightarrow> info1 cb = info1 cbi
     \<and> take (bucket_szData cbi) (bdata cb) = take (bucket_szData cbi) (bdata cbi)"


section \<open>The table without collisions\<close>

definition newCacheNoCollision :: "bucketManagerCnf \<Rightarrow> bool \<Rightarrow> nat \<Rightarrow> nat \<Rightarrow> 'u cacheNoCollision" where
  "newCacheNoCollision bm expectation nbVar SIZE_HASH =
     cacheManager.extend (newCacheManager bm expectation nbVar)
       \<lparr>nc_SIZE_HASH = SIZE_HASH, nc_hashTable = replicate SIZE_HASH emptyBucket\<rparr>"

definition nc_pushInHashTable ::
  "'u CachedBucket \<Rightarrow> 32 word \<Rightarrow> 'u \<Rightarrow> 'u cacheNoCollision \<Rightarrow> 'u cacheNoCollision" where
  "nc_pushInHashTable cb hashValue val c =
     (let i = unat hashValue mod nc_SIZE_HASH c;
          cbi = nc_hashTable c ! i;
          c1 = (if bucket_nbVar cbi \<noteq> 0 then cm_releaseMemory (bptr cbi) (bucket_szData cbi) c else c)
      in countCreation cb (c1\<lparr>nc_hashTable := (nc_hashTable c1)[i := cb\<lparr>fc := Some val\<rparr>]\<rparr>))"

definition nc_bucketAlreadyExist ::
  "'u CachedBucket \<Rightarrow> 32 word \<Rightarrow> 'u cacheNoCollision \<Rightarrow> 'u CachedBucket option \<times> 'u cacheNoCollision" where
  "nc_bucketAlreadyExist cb hashValue c =
     (let cbi = nc_hashTable c ! (unat hashValue mod nc_SIZE_HASH c)
      in if bucket_nbVar cbi \<noteq> 0 \<and> sameEntry cb cbi
         then (Some cbi, c\<lparr>ch_nbPositiveHit := ch_nbPositiveHit c + 1\<rparr>)
         else (None, c\<lparr>ch_nbNegativeHit := ch_nbNegativeHit c + 1\<rparr>))"

text \<open>The loop of \<^verbatim>\<open>removeEntry\<close> over the slots: the new slots, the number removed, the manager.\<close>

fun nc_removeLoop ::
  "('u CachedBucket \<Rightarrow> bool) \<Rightarrow> 'u CachedBucket list \<Rightarrow> 'z cacheManager_scheme
     \<Rightarrow> 'u CachedBucket list \<times> nat \<times> 'z cacheManager_scheme" where
  "nc_removeLoop test [] c = ([], 0, c)"
| "nc_removeLoop test (cb # tab) c =
     (if test cb
      then let (tab', k, c') = nc_removeLoop test tab (cm_releaseMemory (bptr cb) (bucket_szData cb) c)
           in (cb\<lparr>info1 := 0\<rparr> # tab', k + 1, c')
      else let (tab', k, c') = nc_removeLoop test tab c in (cb # tab', k, c'))"

definition nc_removeEntry ::
  "('u CachedBucket \<Rightarrow> bool) \<Rightarrow> 'u cacheNoCollision \<Rightarrow> nat \<times> 'u cacheNoCollision" where
  "nc_removeEntry test c =
     (let (tab, k, c') = nc_removeLoop test (nc_hashTable c) c in (k, c'\<lparr>nc_hashTable := tab\<rparr>))"

section \<open>The table with lists\<close>

definition newCacheList :: "bucketManagerCnf \<Rightarrow> bool \<Rightarrow> nat \<Rightarrow> nat \<Rightarrow> 'u cacheList" where
  "newCacheList bm expectation nbVar SIZE_HASH =
     cacheManager.extend (newCacheManager bm expectation nbVar)
       \<lparr>cl_SIZE_HASH = SIZE_HASH, cl_hashTable = replicate SIZE_HASH []\<rparr>"

definition cl_pushInHashTable ::
  "'u CachedBucket \<Rightarrow> 32 word \<Rightarrow> 'u \<Rightarrow> 'u cacheList \<Rightarrow> 'u cacheList" where
  "cl_pushInHashTable cb hashValue val c =
     (let i = unat hashValue mod cl_SIZE_HASH c
      in countCreation cb
           (c\<lparr>cl_hashTable := (cl_hashTable c)[i := cl_hashTable c ! i @ [cb\<lparr>fc := Some val\<rparr>]]\<rparr>))"

definition cl_bucketAlreadyExist ::
  "'u CachedBucket \<Rightarrow> 32 word \<Rightarrow> 'u cacheList \<Rightarrow> 'u CachedBucket option \<times> 'u cacheList" where
  "cl_bucketAlreadyExist cb hashValue c =
     (case List.find (sameEntry cb) (cl_hashTable c ! (unat hashValue mod cl_SIZE_HASH c)) of
        Some cbi \<Rightarrow> (Some cbi, c\<lparr>ch_nbPositiveHit := ch_nbPositiveHit c + 1\<rparr>)
      | None \<Rightarrow> (None, c\<lparr>ch_nbNegativeHit := ch_nbNegativeHit c + 1\<rparr>))"

fun cl_removeRow ::
  "('u CachedBucket \<Rightarrow> bool) \<Rightarrow> 'u CachedBucket list \<Rightarrow> 'z cacheManager_scheme
     \<Rightarrow> 'u CachedBucket list \<times> nat \<times> 'z cacheManager_scheme" where
  "cl_removeRow test [] c = ([], 0, c)"
| "cl_removeRow test (cb # row) c =
     (if test cb
      then let (row', k, c') = cl_removeRow test row (cm_releaseMemory (bptr cb) (bucket_szData cb) c)
           in (row', k + 1, c')
      else let (row', k, c') = cl_removeRow test row c in (cb # row', k, c'))"

fun cl_removeLoop ::
  "('u CachedBucket \<Rightarrow> bool) \<Rightarrow> 'u CachedBucket list list \<Rightarrow> 'z cacheManager_scheme
     \<Rightarrow> 'u CachedBucket list list \<times> nat \<times> 'z cacheManager_scheme" where
  "cl_removeLoop test [] c = ([], 0, c)"
| "cl_removeLoop test (row # rows) c =
     (let (row', k, c1) = cl_removeRow test row c; (rows', k', c2) = cl_removeLoop test rows c1
      in (row' # rows', k + k', c2))"

definition cl_removeEntry :: "('u CachedBucket \<Rightarrow> bool) \<Rightarrow> 'u cacheList \<Rightarrow> nat \<times> 'u cacheList" where
  "cl_removeEntry test c =
     (let (rows, k, c') = cl_removeLoop test (cl_hashTable c) c in (k, c'\<lparr>cl_hashTable := rows\<rparr>))"

section \<open>The interface of a hash table\<close>

abbreviation modeStore_of :: "'z cacheManager_scheme \<Rightarrow> ModeStore" where
  "modeStore_of c \<equiv> bm_modeStore (ch_bucketManager c)"

locale hash_table =
  fixes removeEntry :: "('u CachedBucket \<Rightarrow> bool) \<Rightarrow> 'z cacheManager_scheme \<Rightarrow> nat \<times> 'z cacheManager_scheme"
    and exist :: "'u CachedBucket \<Rightarrow> 32 word \<Rightarrow> 'z cacheManager_scheme \<Rightarrow>
      'u CachedBucket option \<times> 'z cacheManager_scheme"
    and push :: "'u CachedBucket \<Rightarrow> 32 word \<Rightarrow> 'u \<Rightarrow> 'z cacheManager_scheme \<Rightarrow> 'z cacheManager_scheme"
    and ok_tab :: "'z cacheManager_scheme \<Rightarrow> bool" and entries :: "'z cacheManager_scheme \<Rightarrow> 'u CachedBucket set"
  assumes entries_more: "cacheManager.more c' = cacheManager.more c \<Longrightarrow> ok_tab c' = ok_tab c \<and> entries c' = entries c"
    and remove_law: "ok_tab c \<Longrightarrow> removeEntry test c = (k, c') \<Longrightarrow>
      ok_tab c' \<and> entries c' \<subseteq> entries c \<and> modeStore_of c' = modeStore_of c"
    and exist_law: "ok_tab c \<Longrightarrow> exist cb h c = (r, c') \<Longrightarrow>
      cacheManager.more c' = cacheManager.more c \<and> modeStore_of c' = modeStore_of c
      \<and> (r \<noteq> None \<longrightarrow> the r \<in> entries c \<and> sameEntry cb (the r))"
    and push_law: "ok_tab c \<Longrightarrow> c' = push cb h val c \<Longrightarrow>
      ok_tab c' \<and> entries c' \<subseteq> insert (cb\<lparr>fc := Some val\<rparr>) (entries c) \<and> modeStore_of c' = modeStore_of c"

definition entry_for :: "nat \<Rightarrow> nat \<Rightarrow> 'u CachedBucket \<Rightarrow> var list \<times> nat list \<Rightarrow> bool" where
  "entry_for n m b k \<longleftrightarrow> key_ok n m k \<and> (bdata b, info1 b) = index_encode (fst k) (snd k)"

definition entry_ok ::
  "nat \<Rightarrow> nat \<Rightarrow> (var list \<times> nat list \<Rightarrow> 'u \<Rightarrow> bool) \<Rightarrow> 'u CachedBucket \<Rightarrow> bool" where
  "entry_ok n m G b \<longleftrightarrow> (\<exists>k. entry_for n m b k \<and> fc b \<noteq> None \<and> G k (the (fc b)))"

lemma entry_for_size:
  assumes "entry_for n m b k" "fits_header n m"
  shows "bucket_szData b = length (bdata b)" "bucket_nbVar b = length (fst k)" "bucket_nbVar b \<noteq> 0"
proof -
  obtain C ids where k: "k = (C, ids)" by fastforce
  have b: "key_ok n m (C, ids)" "(bdata b, info1 b) = index_encode C ids" using assms(1) by (auto simp: entry_for_def k)
  note s = index_sizes [OF b(1) assms(2)] and f = DataInfo_fields [OF index_sizes(6) [OF b(1) assms(2)]]
  have i: "info1 b = snd (index_encode C ids)" "bdata b = fst (index_encode C ids)" using b(2) by (metis fst_conv snd_conv)+
  have l: "x < 2 ^ 21 \<Longrightarrow> unat (of_nat x :: 32 word) = x" for x by (simp add: unat_of_nat)
  show "bucket_szData b = length (bdata b)" unfolding bucket_szData_def i index_encode_def Let_def snd_conv fst_conv f(1)
    using l [OF s(1)] by simp
  show n: "bucket_nbVar b = length (fst k)" unfolding bucket_nbVar_def i index_encode_def Let_def snd_conv f(2) k fst_conv
    using l [OF s(2)] .
  show "bucket_nbVar b \<noteq> 0" unfolding n k using s(3) by simp
qed

text \<open>Two entries that \<^verbatim>\<open>bucketAlreadyExist\<close> takes for the same have the same key.\<close>

lemma sameEntry_key:
  assumes "entry_for n m a k" "entry_for n m b k'" "fits_header n m" "sameEntry a b"
  shows "k = k'"
proof -
  have i: "info1 a = info1 b" and t: "take (bucket_szData b) (bdata a) = take (bucket_szData b) (bdata b)"
    using assms(4) by (auto simp: sameEntry_def)
  have "bucket_szData a = bucket_szData b" by (simp add: bucket_szData_def i)
  then have "bdata a = bdata b"
    using t entry_for_size(1) [OF assms(1,3)] entry_for_size(1) [OF assms(2,3)] by (metis take_all_iff le_refl)
  with i have "index_encode (fst k) (snd k) = index_encode (fst k') (snd k')"
    using assms(1,2) by (simp add: entry_for_def)
  then show ?thesis using assms(1,2) by (intro index_encode_inj [OF _ _ assms(3)]) (simp_all add: entry_for_def)
qed

lemma more_initCount [simp]: "cacheManager.more (initCountCachedBucket k c) = cacheManager.more c"
  and bm_initCount [simp]: "ch_bucketManager (initCountCachedBucket k c) = ch_bucketManager c"
  by (auto simp: initCountCachedBucket_def Let_def split: cacheCleaning.split)

lemma more_updateCount [simp]: "cacheManager.more (updateCountCachedBucket b k c) = cacheManager.more c"
  and bm_updateCount [simp]: "ch_bucketManager (updateCountCachedBucket b k c) = ch_bucketManager c"
  by (auto simp: updateCountCachedBucket_def Let_def split: cacheCleaning.split)

lemma more_countCreation [simp]: "cacheManager.more (countCreation cb c) = cacheManager.more c"
  and bm_countCreation [simp]: "ch_bucketManager (countCreation cb c) = ch_bucketManager c"
  by (simp_all add: countCreation_def Let_def)

lemma more_release [simp]: "cacheManager.more (cm_releaseMemory a s c) = cacheManager.more c"
  and mode_release [simp]: "modeStore_of (cm_releaseMemory a s c) = modeStore_of c"
  by (simp_all add: cm_releaseMemory_def)

lemma more_limit [simp]: "cacheManager.more (setLimitVarCache v c) = cacheManager.more c"
  and bm_limit [simp]: "ch_bucketManager (setLimitVarCache v c) = ch_bucketManager c"
  by (simp_all add: setLimitVarCache_def)

lemma more_reinit [simp]: "cacheManager.more (reinitComsumedMemory c) = cacheManager.more c"
  and mode_reinit [simp]: "modeStore_of (reinitComsumedMemory c) = modeStore_of c"
  by (simp_all add: reinitComsumedMemory_def)

definition cache_inv ::
  "('z cacheManager_scheme \<Rightarrow> bool) \<Rightarrow> ('z cacheManager_scheme \<Rightarrow> 'u CachedBucket set) \<Rightarrow> nat \<Rightarrow> nat
     \<Rightarrow> (var list \<times> nat list \<Rightarrow> 'u \<Rightarrow> bool) \<Rightarrow> 'z cacheManager_scheme \<Rightarrow> bool" where
  "cache_inv ok_tab entries n m G c \<longleftrightarrow>
     fits_header n m \<and> modeStore_of c = CACHE_ALL \<and> ok_tab c \<and> (\<forall>b\<in>entries c. entry_ok n m G b)"

context hash_table begin

abbreviation cache_ok :: "nat \<Rightarrow> nat \<Rightarrow> (var list \<times> nat list \<Rightarrow> 'u \<Rightarrow> bool) \<Rightarrow> 'z cacheManager_scheme \<Rightarrow> bool" where
  "cache_ok \<equiv> cache_inv ok_tab entries"

lemmas cache_ok_def = cache_inv_def [of ok_tab entries]

lemma cache_ok_more:
  "cacheManager.more c' = cacheManager.more c \<Longrightarrow> modeStore_of c' = modeStore_of c \<Longrightarrow>
    cache_ok n m G c \<Longrightarrow> cache_ok n m G c'"
  unfolding cache_ok_def using entries_more by metis

lemma reduce_ok:
  assumes "cache_ok n m G c"
  shows "cache_ok n m G (reduceCache exceeds removeEntry c)"
proof (cases "ch_cacheCleaningManager c")
  case CacheCleaningNone
  then show ?thesis using assms by (simp add: reduceCache_def)
next
  case (CacheCleaningExpectation ce)
  obtain l st where r: "reduceLoop exceeds (ce_nbReduceCall ce) (ch_limitVarCached c) (ch_limitVarCached c)
      (ce_statVar ce) = (l, st)" by fastforce
  let ?c1 = "setLimitVarCache (l * 11 div 10) c"
  obtain k c2 where e: "removeEntry (\<lambda>b. bucket_nbVar b \<noteq> 0 \<and> ch_limitVarCached ?c1 \<le> bucket_nbVar b) ?c1 = (k, c2)"
    by fastforce
  have 1: "cache_ok n m G ?c1" by (rule cache_ok_more [OF _ _ assms]) simp_all
  have "cache_ok n m G c2" using 1 remove_law [OF _ e] unfolding cache_ok_def by (metis subsetD)
  then have "cache_ok n m G (c2\<lparr>ch_cacheCleaningManager := x\<rparr>)" for x
    by (rule cache_ok_more [rotated 2]) simp_all
  then show ?thesis
    by (simp add: reduceCache_def CacheCleaningExpectation r e Let_def del: neq0_conv)
qed

lemma search_ok:
  assumes ok: "cache_ok n (length F) G c" and inv: "dyn_inv n F f stk" and ctx: "comp_ctx n F (concat stk) C"
    and e: "searchInCache exceeds hash_bytes removeEntry exist c f C = (cb, c', f')"
  shows "cache_ok n (length F) G c'" "f' = f"
    "tmp_defined cb \<Longrightarrow> fc (tmp_e cb) \<noteq> None \<and> G (cacheKey f C) (the (fc (tmp_e cb)))"
    "\<not> tmp_defined cb \<Longrightarrow> entry_for n (length F) (tmp_e cb) (cacheKey f C)"
proof -
  define c1 where "c1 = (if consumedMemory c then reinitComsumedMemory (reduceCache exceeds removeEntry c) else c)"
  have 1: "cache_ok n (length F) G c1"
    using reduce_ok [OF ok] ok cache_ok_more [of "reinitComsumedMemory (reduceCache exceeds removeEntry c)"]
    by (simp add: c1_def)
  obtain b :: "'u CachedBucket" and bm f1 where s: "index_storeFormula (ch_bucketManager c1) f C = (b, bm, f1)" by (metis prod_cases3)
  have mode: "modeStore_of c1 = CACHE_ALL" using 1 by (simp add: cache_ok_def)
  note st = index_storeFormula_ok [OF inv ctx mode s]
  have b: "entry_for n (length F) b (cacheKey f C)" using st(2) cacheKey_ok [OF inv ctx] by (simp add: entry_for_def)
  let ?c1 = "c1\<lparr>ch_bucketManager := bm\<rparr>"
  have 2: "cache_ok n (length F) G ?c1" by (rule cache_ok_more [OF _ _ 1]) (simp_all add: st(3) mode)
  obtain r c2 where x: "exist b (computeHash hash_bytes b) ?c1 = (r, c2)" by fastforce
  have l: "cacheManager.more c2 = cacheManager.more ?c1" "modeStore_of c2 = modeStore_of ?c1"
    "r \<noteq> None \<Longrightarrow> the r \<in> entries ?c1 \<and> sameEntry b (the r)"
    using exist_law [OF _ x] 2 by (auto simp: cache_ok_def)
  let ?c3 = "updateCountCachedBucket (r \<noteq> None) (length C) c2"
  have 3: "cache_ok n (length F) G ?c3" "cache_ok n (length F) G (cm_releaseMemory p q ?c3)" for p q
    by (rule cache_ok_more [OF _ _ 2]; simp add: l)+
  have "searchInCache exceeds hash_bytes removeEntry exist c f C = (case r of
        None \<Rightarrow> (\<lparr>tmp_e = b, tmp_hashValue = computeHash hash_bytes b, tmp_defined = False\<rparr>, ?c3, f1)
      | Some b' \<Rightarrow> (\<lparr>tmp_e = b', tmp_hashValue = computeHash hash_bytes b, tmp_defined = True\<rparr>,
          cm_releaseMemory (bptr b) (bucket_szData b) ?c3, f1))"
    unfolding searchInCache_def c1_def [symmetric] Let_def s prod.case x ..
  note res = this [unfolded e]
  show "cache_ok n (length F) G c'" "f' = f" using res 3 st(1) by (auto split: option.splits)
  show "\<not> tmp_defined cb \<Longrightarrow> entry_for n (length F) (tmp_e cb) (cacheKey f C)"
    using res b by (auto split: option.splits)
  assume "tmp_defined cb"
  then obtain b' where r: "r = Some b'" and t: "tmp_e cb = b'" using res by (auto split: option.splits)
  have "b' \<in> entries ?c1" and same: "sameEntry b b'" using l(3) r by auto
  then obtain k where k: "entry_for n (length F) b' k" "fc b' \<noteq> None" "G k (the (fc b'))"
    using 2 by (auto simp: cache_ok_def entry_ok_def)
  have "cacheKey f C = k" using sameEntry_key [OF b k(1) _ same] 2 by (simp add: cache_ok_def)
  with k(2,3) show "fc (tmp_e cb) \<noteq> None \<and> G (cacheKey f C) (the (fc (tmp_e cb)))" unfolding t by simp
qed

lemma push_ok:
  assumes "cache_ok n m G c" "entry_for n m cb k" "G k u"
  shows "cache_ok n m G (push cb h u c)"
proof -
  have "entry_ok n m G (cb\<lparr>fc := Some u\<rparr>)" 
    using assms(2,3) unfolding entry_ok_def by (intro exI [of _ k]) (simp add: entry_for_def)
  then show ?thesis using assms(1) push_law [of c _ cb h u, OF _ refl]
    unfolding cache_ok_def by (metis (no_types, lifting) insert_iff subsetD)
qed

lemma cache_ok_mono: "cache_ok n m G c \<Longrightarrow> (\<And>k u. G k u \<Longrightarrow> G' k u) \<Longrightarrow> cache_ok n m G' c"
  unfolding cache_ok_def entry_ok_def by metis

end

section \<open>The tables provide the interface\<close>

definition nc_wf :: "'u cacheNoCollision \<Rightarrow> bool" where
  "nc_wf c \<longleftrightarrow> nc_SIZE_HASH c > 0 \<and> length (nc_hashTable c) = nc_SIZE_HASH c"

definition nc_entries :: "'u cacheNoCollision \<Rightarrow> 'u CachedBucket set" where
  "nc_entries c = {b \<in> set (nc_hashTable c). bucket_nbVar b \<noteq> 0}"

definition cl_wf :: "'u cacheList \<Rightarrow> bool" where
  "cl_wf c \<longleftrightarrow> cl_SIZE_HASH c > 0 \<and> length (cl_hashTable c) = cl_SIZE_HASH c"

definition cl_entries :: "'u cacheList \<Rightarrow> 'u CachedBucket set" where
  "cl_entries c = (\<Union>row\<in>set (cl_hashTable c). set row)"

lemma nc_fields_more:
  "nc_SIZE_HASH c = nc_SIZE_HASH (cacheManager.extend base (cacheManager.more c))"
  "nc_hashTable c = nc_hashTable (cacheManager.extend base (cacheManager.more c))"
  by (cases c; simp add: cacheManager.defs)+

lemma cl_fields_more:
  "cl_SIZE_HASH c = cl_SIZE_HASH (cacheManager.extend base (cacheManager.more c))"
  "cl_hashTable c = cl_hashTable (cacheManager.extend base (cacheManager.more c))"
  by (cases c; simp add: cacheManager.defs)+

lemma nc_same_table:
  assumes "cacheManager.more c' = cacheManager.more c"
  shows "nc_SIZE_HASH c' = nc_SIZE_HASH c" "nc_hashTable c' = nc_hashTable c"
  using nc_fields_more [of c'] nc_fields_more [of c] assms by metis+

lemma cl_same_table:
  assumes "cacheManager.more c' = cacheManager.more c"
  shows "cl_SIZE_HASH c' = cl_SIZE_HASH c" "cl_hashTable c' = cl_hashTable c"
  using cl_fields_more [of c'] cl_fields_more [of c] assms by metis+

lemma nbVar_info: "bucket_nbVar (b\<lparr>info1 := 0\<rparr>) = 0"
  by (simp add: bucket_nbVar_def info_nbVar_def)

lemma nc_removeLoop_ok:
  assumes "nc_removeLoop test tab c = (tab', k, c')"
  shows "length tab' = length tab" "{b \<in> set tab'. bucket_nbVar b \<noteq> 0} \<subseteq> {b \<in> set tab. bucket_nbVar b \<noteq> 0}"
    "cacheManager.more c' = cacheManager.more c" "modeStore_of c' = modeStore_of c"
proof -
  have "length tab' = length tab \<and> {b \<in> set tab'. bucket_nbVar b \<noteq> 0} \<subseteq> {b \<in> set tab. bucket_nbVar b \<noteq> 0}
    \<and> cacheManager.more c' = cacheManager.more c \<and> modeStore_of c' = modeStore_of c"
    using assms
  proof (induction tab arbitrary: c tab' k c')
    case (Cons b tab)
    let ?c = "if test b then cm_releaseMemory (bptr b) (bucket_szData b) c else c"
    obtain tab1 k1 c1 where 1: "nc_removeLoop test tab ?c = (tab1, k1, c1)" by (metis prod_cases3)
    have "tab' = (if test b then b\<lparr>info1 := 0\<rparr> else b) # tab1" "c' = c1"
      using Cons.prems 1 by (auto split: if_splits)
    then show ?case using Cons.IH [of ?c tab1 k1 c1] 1 by (auto simp: nbVar_info split: if_splits)
  qed simp
  then show "length tab' = length tab" "{b \<in> set tab'. bucket_nbVar b \<noteq> 0} \<subseteq> {b \<in> set tab. bucket_nbVar b \<noteq> 0}"
    "cacheManager.more c' = cacheManager.more c" "modeStore_of c' = modeStore_of c" by blast+
qed

lemma cl_removeRow_ok:
  assumes "cl_removeRow test row c = (row', k, c')"
  shows "set row' \<subseteq> set row \<and> cacheManager.more c' = cacheManager.more c \<and> modeStore_of c' = modeStore_of c"
  using assms
proof (induction row arbitrary: c row' k c')
  case (Cons b row)
  then show ?case by (fastforce split: if_splits prod.splits)
qed simp

lemma cl_removeLoop_ok:
  assumes "cl_removeLoop test rows c = (rows', k, c')"
  shows "length rows' = length rows \<and> (\<Union>row\<in>set rows'. set row) \<subseteq> (\<Union>row\<in>set rows. set row)
    \<and> cacheManager.more c' = cacheManager.more c \<and> modeStore_of c' = modeStore_of c"
  using assms
proof (induction rows arbitrary: c rows' k c')
  case (Cons row rows)
  obtain row1 k1 c1 where 1: "cl_removeRow test row c = (row1, k1, c1)" by (metis prod_cases3)
  obtain rows2 k2 c2 where 2: "cl_removeLoop test rows c1 = (rows2, k2, c2)" by (metis prod_cases3)
  show ?case using Cons.prems cl_removeRow_ok [OF 1] Cons.IH [OF 2] by (clarsimp simp: 1 2) blast
qed simp

interpretation nc: hash_table nc_removeEntry nc_bucketAlreadyExist nc_pushInHashTable nc_wf nc_entries
proof (unfold_locales, goal_cases)
  case (1 c' c)
  show ?case using nc_same_table [OF 1] by (simp add: nc_wf_def nc_entries_def)
next
  case (2 c test k c')
  obtain tab k1 c1 where r: "nc_removeLoop test (nc_hashTable c) c = (tab, k1, c1)" by (metis prod_cases3)
  have "c' = c1\<lparr>nc_hashTable := tab\<rparr>" using 2(2) by (simp add: nc_removeEntry_def r)
  then show ?case using nc_removeLoop_ok [OF r] nc_same_table [of c1 c] 2(1) by (auto simp: nc_wf_def nc_entries_def)
next
  case (3 c cb h r c')
  then have "unat h mod nc_SIZE_HASH c < length (nc_hashTable c)" by (simp add: nc_wf_def)
  then show ?case using 3(2) by (auto simp: nc_bucketAlreadyExist_def nc_entries_def Let_def split: if_splits)
next
  case (4 c c' cb h val)
  let ?i = "unat h mod nc_SIZE_HASH c"
  let ?c1 = "if bucket_nbVar (nc_hashTable c ! ?i) \<noteq> 0
      then cm_releaseMemory (bptr (nc_hashTable c ! ?i)) (bucket_szData (nc_hashTable c ! ?i)) c else c"
  have m: "cacheManager.more ?c1 = cacheManager.more c" "modeStore_of ?c1 = modeStore_of c" by simp_all
  note t1 = nc_same_table [OF m(1)]
  let ?c2 = "?c1\<lparr>nc_hashTable := (nc_hashTable ?c1)[?i := cb\<lparr>fc := Some val\<rparr>]\<rparr>"
  have c': "c' = countCreation cb ?c2" using 4(2) by (simp only: nc_pushInHashTable_def Let_def)
  have t: "nc_SIZE_HASH c' = nc_SIZE_HASH c" "nc_hashTable c' = (nc_hashTable c)[?i := cb\<lparr>fc := Some val\<rparr>]"
    using nc_same_table [OF more_countCreation [of cb ?c2]] t1 unfolding c' by simp_all
  have "modeStore_of c' = modeStore_of c" unfolding c' using m(2) by simp
  then show ?case using 4(1) t set_update_subset_insert by (fastforce simp: nc_wf_def nc_entries_def)
qed

interpretation cl: hash_table cl_removeEntry cl_bucketAlreadyExist cl_pushInHashTable cl_wf cl_entries
proof (unfold_locales, goal_cases)
  case (1 c' c)
  show ?case using cl_same_table [OF 1] by (simp add: cl_wf_def cl_entries_def)
next
  case (2 c test k c')
  obtain rows k1 c1 where r: "cl_removeLoop test (cl_hashTable c) c = (rows, k1, c1)" by (metis prod_cases3)
  have "c' = c1\<lparr>cl_hashTable := rows\<rparr>" using 2(2) by (simp add: cl_removeEntry_def r)
  then show ?case using cl_removeLoop_ok [OF r] cl_same_table [of c1 c] 2(1) by (auto simp: cl_wf_def cl_entries_def)
next
  case (3 c cb h r c')
  let ?row = "cl_hashTable c ! (unat h mod cl_SIZE_HASH c)"
  have "?row \<in> set (cl_hashTable c)" using 3(1) by (simp add: cl_wf_def)
  moreover have "b \<in> set ?row \<and> sameEntry cb b" if "List.find (sameEntry cb) ?row = Some b" for b
    using that by (auto simp: find_Some_iff)
  ultimately show ?case using 3(2)
    by (fastforce simp: cl_bucketAlreadyExist_def cl_entries_def split: option.splits)
next
  case (4 c c' cb h val)
  let ?i = "unat h mod cl_SIZE_HASH c"
  let ?t = "(cl_hashTable c)[?i := cl_hashTable c ! ?i @ [cb\<lparr>fc := Some val\<rparr>]]"
  have c': "c' = countCreation cb (c\<lparr>cl_hashTable := ?t\<rparr>)" using 4(2) by (simp only: cl_pushInHashTable_def Let_def)
  have t: "cl_SIZE_HASH c' = cl_SIZE_HASH c" "cl_hashTable c' = ?t"
    using cl_same_table [OF more_countCreation [of cb "c\<lparr>cl_hashTable := ?t\<rparr>"]] unfolding c' by simp_all
  have "cl_hashTable c ! ?i \<in> set (cl_hashTable c)" using 4(1) by (simp add: cl_wf_def)
  then have "cl_entries c' \<subseteq> insert (cb\<lparr>fc := Some val\<rparr>) (cl_entries c)"
    using set_update_subset_insert [of "cl_hashTable c" ?i] unfolding cl_entries_def t(2) by fastforce
  moreover have "modeStore_of c' = modeStore_of c" unfolding c' by simp
  ultimately show ?case using 4(1) t by (simp add: cl_wf_def)
qed

text \<open>A new cache is empty.\<close>

lemma new_nc_ok:
  assumes "SIZE_HASH > 0" "fits_header n m"
  shows "cache_inv nc_wf nc_entries n m G
    (newCacheNoCollision (newBucketManagerCnf CACHE_ALL s1 s2) expectation nbVar SIZE_HASH)"
  using assms by (auto simp: cache_inv_def nc_wf_def nc_entries_def newCacheNoCollision_def cacheManager.defs
      newCacheManager_def newBucketManagerCnf_def)

lemma new_cl_ok:
  assumes "SIZE_HASH > 0" "fits_header n m"
  shows "cache_inv cl_wf cl_entries n m G
    (newCacheList (newBucketManagerCnf CACHE_ALL s1 s2) expectation nbVar SIZE_HASH)"
  using assms by (auto simp: cache_inv_def cl_wf_def cl_entries_def newCacheList_def cacheManager.defs
      newCacheManager_def newBucketManagerCnf_def)

section \<open>The caches meet the contract of the counting method\<close>

text \<open>The reasons are those of the interface, whatever the hash function and the cleaning decide.\<close>

interpretation ncache: cache "cache_if_of exceeds hash_bytes nc_removeEntry nc_bucketAlreadyExist nc_pushInHashTable"
    n F "dyn_inv n F" cacheKey "\<lambda>cb. entry_for n (length F) (tmp_e cb)"
    "cache_inv nc_wf nc_entries n (length F)"
  for exceeds :: "(64 word \<times> 64 word) option \<Rightarrow> 32 word \<Rightarrow> bool" and hash_bytes n F
proof (unfold_locales, goal_cases)
  case (1 G c f stk C cb c')
  then obtain f' where "searchInCache exceeds hash_bytes nc_removeEntry nc_bucketAlreadyExist c f C = (cb, c', f')"
    by (auto simp: cache_if_of_def split: prod.splits)
  from nc.search_ok [OF 1(1-3) this] show ?case by simp
next
  case (2 G c cb k u)
  then show ?case using nc.push_ok by (simp add: cache_if_of_def)
next
  case (3 G c G')
  then show ?case by (rule nc.cache_ok_mono)
next
  case (4 f stk f' stk' C C')
  then show ?case using cacheKey_active by blast
qed

interpretation lcache: cache "cache_if_of exceeds hash_bytes cl_removeEntry cl_bucketAlreadyExist cl_pushInHashTable"
    n F "dyn_inv n F" cacheKey "\<lambda>cb. entry_for n (length F) (tmp_e cb)"
    "cache_inv cl_wf cl_entries n (length F)"
  for exceeds :: "(64 word \<times> 64 word) option \<Rightarrow> 32 word \<Rightarrow> bool" and hash_bytes n F
proof (unfold_locales, goal_cases)
  case (1 G c f stk C cb c')
  then obtain f' where "searchInCache exceeds hash_bytes cl_removeEntry cl_bucketAlreadyExist c f C = (cb, c', f')"
    by (auto simp: cache_if_of_def split: prod.splits)
  from cl.search_ok [OF 1(1-3) this] show ?case by simp
next
  case (2 G c cb k u)
  then show ?case using cl.push_ok by (simp add: cache_if_of_def)
next
  case (3 G c G')
  then show ?case by (rule cl.cache_ok_mono)
next
  case (4 f stk f' stk' C C')
  then show ?case using cacheKey_active by blast
qed

end
