(* ===== verification/Assembly.thy ===== *)
theory Assembly
  imports DpllCorrect Counting DnnfOperation Heuristics CacheManager
begin

text \<open>
  The constructor of \<^verbatim>\<open>DpllStyleMethod\<close> puts the parts together. Each choice of operation (counting
  or compiling) and of cache (\<^verbatim>\<open>CacheList\<close> or \<^verbatim>\<open>CacheNoCollision\<close>) meets the requirements of the
  correctness proof, so the theorems of \<open>dpll_parts\<close> hold for the code's own components; only the
  SAT solver stays a hypothesis.
\<close>

section \<open>The constructor\<close>

definition branchingEnv :: "'s solver_if \<Rightarrow> ('s, 'd) heuristic_env \<Rightarrow> 'a problem \<Rightarrow> ('s, 'd) heuristic_env" where
  "branchingEnv S H p = H\<lparr>hv_solver := S, hv_isDecisionVariable := initIsDecisionVariable p\<rparr>"

definition newDpllEnv ::
  "'s solver_if \<Rightarrow> ('s, 'd::linordered_field) heuristic_env \<Rightarrow> BranchingHeuristicType
     \<Rightarrow> ('c, cnfManagerDyn, 'u) cache_if \<Rightarrow> ('o, 's, 'a, 'u) operation_if \<Rightarrow> bool \<Rightarrow> bool \<Rightarrow> 'a problem
     \<Rightarrow> ('s, cnfManagerDyn, branchingHeuristic, 'c, 'o, 'a, 'u) dpll_env" where
  "newDpllEnv S H t CA OP optCached skolemize p =
     \<lparr>e_solver = S, e_specs = cnfManagerDyn_fm,
      e_heuristic = makeBranchingHeuristic (branchingEnv S H p) t (getNbSelectedVar p),
      e_cache = CA, e_operation = OP, e_problem = p, e_isProjectedMode = getNbSelectedVar p > 0,
      e_skolemize = skolemize, e_optCached = optCached, e_isDecisionVariable = initIsDecisionVariable p\<rparr>"

definition newDpll ::
  "'s solver_if \<Rightarrow> ('s, 'd::linordered_field) heuristic_env \<Rightarrow> BranchingHeuristicType
     \<Rightarrow> 'c \<Rightarrow> 'o \<Rightarrow> 'a problem \<Rightarrow> 's \<Rightarrow> ('s, cnfManagerDyn, branchingHeuristic, 'c, 'o) dpll" where
  "newDpll S H t c x p s =
     (let f = initCnfManagerDyn p False
      in \<lparr>m_nbCallCall = 0, m_nbSplit = 0, m_nbDecisionNode = 0, m_connectedComponent = True,
          m_lastNbSplit = 0, m_nbFailedIncreased = 0, m_stampIdx = 0,
          m_stampVar = replicate (cm_nbVar f + 1) 0, m_solver = s, m_specs = f,
          m_heuristic = newBranchingHeuristic (branchingEnv S H p) t (getNbSelectedVar p) f,
          m_cache = c, m_operation = x\<rparr>)"

text \<open>The sizes of the hash tables.\<close>

definition SIZE_HASH_NO_COLLISION :: nat where "SIZE_HASH_NO_COLLISION = 22041997"
definition SIZE_HASH_LIST :: nat where "SIZE_HASH_LIST = 999331"

abbreviation noColCache where
  "noColCache exceeds hash_bytes \<equiv>
     cache_if_of exceeds hash_bytes nc_removeEntry nc_bucketAlreadyExist nc_pushInHashTable"

abbreviation listCache where
  "listCache exceeds hash_bytes \<equiv>
     cache_if_of exceeds hash_bytes cl_removeEntry cl_bucketAlreadyExist cl_pushInHashTable"

abbreviation decVars :: "'a problem \<Rightarrow> var set" where
  "decVars p \<equiv> decisionSet (m_nbVar p) (initIsDecisionVariable p)"

lemma all_decision: "getNbSelectedVar p = 0 \<Longrightarrow> v \<le> m_nbVar p \<Longrightarrow> initIsDecisionVariable p ! v"
  by (auto simp: initIsDecisionVariable_def getNbSelectedVar_def simp del: replicate_Suc)

lemma decVars_selected:
  assumes "\<forall>v\<in>set (m_selected p). v \<le> m_nbVar p" "m_selected p \<noteq> []"
  shows "decVars p = set (m_selected p)"
  using assms by (auto simp: decisionSet_def initIsDecisionVariable_def getNbSelectedVar_def foldl_mark_nth
      less_Suc_eq_le split: if_splits simp del: replicate_Suc)

section \<open>The states that the constructor makes\<close>

lemma new_specs_ok:
  assumes "cnf_ok (m_nbVar p) (m_clauses p)"
  shows "dyn_inv (m_nbVar p) (m_clauses p) (initCnfManagerDyn p False) []"
    "heu_inv (branchingEnv S H p) (m_nbVar p) (m_clauses p) (getNbSelectedVar p)
       (newBranchingHeuristic (branchingEnv S H p) t (getNbSelectedVar p) (initCnfManagerDyn p False))"
proof -
  show i: "dyn_inv (m_nbVar p) (m_clauses p) (initCnfManagerDyn p False) []" by (rule init_ok [OF assms])
  have "core_ok (m_nbVar p) (m_clauses p) {} (initCnfManagerDyn p False)"
    using i cm_inv_core by (fastforce simp: dyn_inv_def)
  then have "length (cm_clauses (initCnfManagerDyn p False)) = length (m_clauses p)"
    "cm_nbVar (initCnfManagerDyn p False) = m_nbVar p"
    by (auto simp: core_ok_def clauses_ok_def)
  then show "heu_inv (branchingEnv S H p) (m_nbVar p) (m_clauses p) (getNbSelectedVar p)
       (newBranchingHeuristic (branchingEnv S H p) t (getNbSelectedVar p) (initCnfManagerDyn p False))"
    by (intro newBranchingHeuristic_ok) (simp_all add: branchingEnv_def all_decision)
qed

lemma makeNodeManager_ok:
  assumes "n < 2 ^ 31 - 1"
  shows "nm_ok n (makeNodeManager sz n :: 'a::comm_semiring_1 nodeManager)"
    "nm_stamps (makeNodeManager sz n :: 'a nodeManager)"
proof -
  have nodes: "m_nodes (makeNodeManager sz n :: 'a nodeManager) = [TrueNode 0 0, FalseNode 0 0]"
    and g: "m_globalStamp (makeNodeManager sz n :: 'a nodeManager) = 0"
    and W: "m_width (makeNodeManager sz n :: 'a nodeManager) = nodeWidth n"
    by (simp_all add: makeNodeManager_def nodeManagerTyped_def newNode_def getMemory_def Let_def)
  have "2 * n + 1 < 2 ^ nodeWidth n" using assms by (auto simp: nodeWidth_def)
  then show "nm_ok n (makeNodeManager sz n :: 'a nodeManager)"
    by (simp add: nm_ok_def heap_ok_def nodes W All_less_Suc)
  show "nm_stamps (makeNodeManager sz n :: 'a nodeManager)"
    by (simp add: nm_stamps_def stamps_old_def nodes g word_neq_0_conv [symmetric])
qed

lemma fits_small: "fits_header n m \<Longrightarrow> n < 2 ^ 31 - 1"
  by (simp add: fits_header_def)

definition newListCache :: "bool \<Rightarrow> nat \<Rightarrow> nat \<Rightarrow> 'a problem \<Rightarrow> 'u cacheList" where
  "newListCache expectation s1 s2 p =
     newCacheList (newBucketManagerCnf CACHE_ALL s1 s2) expectation (m_nbVar p) SIZE_HASH_LIST"

definition newNoColCache :: "bool \<Rightarrow> nat \<Rightarrow> nat \<Rightarrow> 'a problem \<Rightarrow> 'u cacheNoCollision" where
  "newNoColCache expectation s1 s2 p =
     newCacheNoCollision (newBucketManagerCnf CACHE_ALL s1 s2) expectation (m_nbVar p) SIZE_HASH_NO_COLLISION"

lemma new_caches_ok:
  assumes "fits_header n m"
  shows "cache_inv cl_wf cl_entries n m G (newListCache expectation s1 s2 p)"
    "cache_inv nc_wf nc_entries n m G (newNoColCache expectation s1 s2 p)"
  unfolding newListCache_def newNoColCache_def SIZE_HASH_LIST_def SIZE_HASH_NO_COLLISION_def
  by (rule new_cl_ok new_nc_ok; use assms in simp)+

text \<open>What the runs below assume of the problem and of the solver's first state.\<close>

definition problem_ok :: "'a problem \<Rightarrow> bool" where
  "problem_ok p \<longleftrightarrow> cnf_ok (m_nbVar p) (m_clauses p)
     \<and> fits_header (m_nbVar p) (length (m_clauses p))
     \<and> (m_isUnsat p \<longrightarrow> \<not> (\<exists>s. cnf_holds s (m_clauses p))) \<and> decVars p \<inter> {1..m_nbVar p} \<noteq> {}"

lemma fml_Nil: "fml F [] = (\<lambda>s. cnf_holds s F)"
  by (simp add: fml_def lits_hold_def fun_eq_iff)

lemma problem_okD:
  assumes "problem_ok p"
  shows "cnf_ok (m_nbVar p) (m_clauses p)" "fits_header (m_nbVar p) (length (m_clauses p))"
    "m_isUnsat p \<Longrightarrow> \<not> sat (fml (m_clauses p) [])" "decVars p \<inter> {1..m_nbVar p} \<noteq> {}"
  using assms by (auto simp: problem_ok_def sat_def fml_Nil)

lemma newDpll_fields:
  "m_solver (newDpll S H t c x p s) = s" "m_specs (newDpll S H t c x p s) = initCnfManagerDyn p False"
  "m_cache (newDpll S H t c x p s) = c" "m_operation (newDpll S H t c x p s) = x"
  "m_heuristic (newDpll S H t c x p s) =
     newBranchingHeuristic (branchingEnv S H p) t (getNbSelectedVar p) (initCnfManagerDyn p False)"
  "m_stampIdx (newDpll S H t c x p s) = 0"
  "m_stampVar (newDpll S H t c x p s) = replicate (m_nbVar p + 1) 0"
  by (simp_all add: newDpll_def Let_def initCnfManagerDyn_def initCnfManager_def cnfManager.defs
      del: replicate_Suc)

lemma newDpllEnv_fields:
  "e_solver (newDpllEnv S H t CA OP oc sk p) = S" "e_problem (newDpllEnv S H t CA OP oc sk p) = p"
  "e_operation (newDpllEnv S H t CA OP oc sk p) = OP"
  by (simp_all add: newDpllEnv_def)

section \<open>The parts of the method fit together\<close>

text \<open>
  What a run assumes of its operation and its cache; formula manager, heuristic and the fields set
  by the constructor are those of the code.
\<close>

locale d4_method =
  operation OP "m_nbVar p" "decVars p" w op_inv le valid val +
  cache CA "m_nbVar p" "m_clauses p" "dyn_inv (m_nbVar p) (m_clauses p)" key tmp_for c_inv
  for S :: "'s solver_if" and H :: "('s, 'd::linordered_field) heuristic_env" and t :: BranchingHeuristicType
    and OP :: "('o, 's, 'a::comm_semiring_1, 'u) operation_if" and CA :: "('c, cnfManagerDyn, 'u) cache_if"
    and optCached :: bool and p :: "'a problem" and w op_inv le valid val
    and key :: "cnfManagerDyn \<Rightarrow> var list \<Rightarrow> 'k" and tmp_for c_inv
begin

abbreviation env :: "('s, cnfManagerDyn, branchingHeuristic, 'c, 'o, 'a, 'u) dpll_env" where
  "env \<equiv> newDpllEnv S H t CA OP optCached False p"

end

sublocale d4_method \<subseteq> parts: dpll_parts
    "newDpllEnv S H t CA OP optCached False p" "m_nbVar p" "m_clauses p" "decVars p" w
    "dyn_inv (m_nbVar p) (m_clauses p)" op_inv le valid val key tmp_for c_inv
    "heu_inv (branchingEnv S H p) (m_nbVar p) (m_clauses p) (getNbSelectedVar p)"
proof (rule dpll_parts.intro)
  let ?E = "newDpllEnv S H t CA OP optCached False p"
  have e: "e_specs ?E = cnfManagerDyn_fm" "e_operation ?E = OP" "e_cache ?E = CA" "e_solver ?E = S"
    "e_heuristic ?E = makeBranchingHeuristic (branchingEnv S H p) t (getNbSelectedVar p)"
    by (simp_all add: newDpllEnv_def)
  have h: "hv_solver (branchingEnv S H p) = S"
    "hv_isDecisionVariable (branchingEnv S H p) = initIsDecisionVariable p"
    by (simp_all add: branchingEnv_def)
  show "formula_manager (e_specs ?E) (m_nbVar p) (m_clauses p) (dyn_inv (m_nbVar p) (m_clauses p))"
    unfolding e by (rule dyn.formula_manager_axioms)
  show "operation (e_operation ?E) (m_nbVar p) (decVars p) w op_inv le valid val"
    unfolding e by (rule operation_axioms)
  show "cache (e_cache ?E) (m_nbVar p) (m_clauses p) (dyn_inv (m_nbVar p) (m_clauses p)) key tmp_for c_inv"
    unfolding e by (rule cache_axioms)
  show "heuristic (e_heuristic ?E) (e_solver ?E) (m_nbVar p) (m_clauses p) (decVars p)
      (dyn_inv (m_nbVar p) (m_clauses p)) (heu_inv (branchingEnv S H p) (m_nbVar p) (m_clauses p) (getNbSelectedVar p))"
    unfolding e using heu.heuristic_axioms [where H = "branchingEnv S H p"] unfolding h .
  show "dpll_parts_axioms ?E (m_nbVar p) (decVars p)"
    by unfold_locales (auto simp: newDpllEnv_def decisionSet_def all_decision)
qed

context d4_method begin

text \<open>A run, and a count under an assumption, from the state that the constructor makes.\<close>

lemma run_new:
  assumes "problem_ok p" "solver_contract S (m_nbVar p) (m_clauses p) sinv desc"
    and "sinv s" "slv_getAssumption S s = []" "m_nbVar p < fuel" "op_inv x" "\<And>G. c_inv G c"
  shows "\<exists>u st'. run env rnd fuel (newDpll S H t c x p s) = Some (u, st') \<and> op_inv (m_operation st')
    \<and> valid (m_operation st') u
    \<and> val (m_operation st') u = pcount w (decVars p) (\<lambda>s. cnf_holds s (m_clauses p)) {1..m_nbVar p}"
proof -
  note p = problem_okD [OF assms(1)]
  show ?thesis unfolding fml_Nil [symmetric]
    by (rule parts.run_start; (unfold newDpllEnv_fields newDpll_fields)?)
      (rule assms new_specs_ok [OF p(1)] p refl | assumption)+
qed

lemma count_new:
  assumes "problem_ok p" "solver_contract S (m_nbVar p) (m_clauses p) sinv desc"
    and "counting_operation OP (m_nbVar p) (decVars p) w op_inv le valid val"
    and "sinv s" "count_ok (m_nbVar p) (m_clauses p) V as" "length V < fuel" "op_inv x" "\<And>G. c_inv G c"
  shows "\<exists>st'. count env rnd fuel (newDpll S H t c x p s) V as =
    Some (pcount w (decVars p) (\<lambda>s. cnf_holds s (m_clauses p) \<and> lits_hold s as) (set V), st')"
proof -
  note p = problem_okD [OF assms(1)]
  have st: "stamps_ok (m_nbVar p) (newDpll S H t c x p s)"
    by (simp add: stamps_ok_def newDpll_fields word_neq_0_conv [symmetric] del: replicate_Suc)
  show ?thesis unfolding fml_def [symmetric]
    by (rule parts.count_start; (unfold newDpllEnv_fields newDpll_fields)?)
      (rule assms new_specs_ok [OF p(1)] p refl st | assumption)+
qed

end

text \<open>The four configurations: counting or compiling, with either hash table.\<close>

interpretation count_list: d4_method S H t "countingOperation p" "listCache exceeds hash_bytes" optCached p "weight_of p"
    "\<lambda>_. weights_ok p" "\<lambda>_ _. True" "\<lambda>_ _. True" "\<lambda>_ u. u"
    cacheKey "\<lambda>cb. entry_for (m_nbVar p) (length (m_clauses p)) (tmp_e cb)"
    "cache_inv cl_wf cl_entries (m_nbVar p) (length (m_clauses p))"
  for S :: "'s solver_if" and H :: "('s, 'd::linordered_field) heuristic_env" and t exceeds hash_bytes optCached
    and p :: "'a::comm_semiring_1 problem"
  by (rule d4_method.intro [OF cnt.operation_axioms lcache.cache_axioms])

interpretation count_nc: d4_method S H t "countingOperation p" "noColCache exceeds hash_bytes" optCached p "weight_of p"
    "\<lambda>_. weights_ok p" "\<lambda>_ _. True" "\<lambda>_ _. True" "\<lambda>_ u. u"
    cacheKey "\<lambda>cb. entry_for (m_nbVar p) (length (m_clauses p)) (tmp_e cb)"
    "cache_inv nc_wf nc_entries (m_nbVar p) (length (m_clauses p))"
  for S :: "'s solver_if" and H :: "('s, 'd::linordered_field) heuristic_env" and t exceeds hash_bytes optCached
    and p :: "'a::comm_semiring_1 problem"
  by (rule d4_method.intro [OF cnt.operation_axioms ncache.cache_axioms])

interpretation compile_list: d4_method S H t "dnnfOperation sz S p" "listCache exceeds hash_bytes" optCached p w
    "\<lambda>nm. nm_ok (m_nbVar p) nm \<and> lit_own S \<and> nm_stamps nm" "nm_le (m_nbVar p)"
    "\<lambda>nm u. u < length (m_nodes nm)" "\<lambda>nm u. nmValues w (decVars p) nm ! u"
    cacheKey "\<lambda>cb. entry_for (m_nbVar p) (length (m_clauses p)) (tmp_e cb)"
    "cache_inv cl_wf cl_entries (m_nbVar p) (length (m_clauses p))"
  for S :: "'s solver_if" and H :: "('s, 'd::linordered_field) heuristic_env" and t exceeds hash_bytes optCached sz
    and p :: "'a::comm_semiring_1 problem" and w :: "'a weight"
  by (rule d4_method.intro [OF dnnf.operation_axioms lcache.cache_axioms])

interpretation compile_nc: d4_method S H t "dnnfOperation sz S p" "noColCache exceeds hash_bytes" optCached p w
    "\<lambda>nm. nm_ok (m_nbVar p) nm \<and> lit_own S \<and> nm_stamps nm" "nm_le (m_nbVar p)"
    "\<lambda>nm u. u < length (m_nodes nm)" "\<lambda>nm u. nmValues w (decVars p) nm ! u"
    cacheKey "\<lambda>cb. entry_for (m_nbVar p) (length (m_clauses p)) (tmp_e cb)"
    "cache_inv nc_wf nc_entries (m_nbVar p) (length (m_clauses p))"
  for S :: "'s solver_if" and H :: "('s, 'd::linordered_field) heuristic_env" and t exceeds hash_bytes optCached sz
    and p :: "'a::comm_semiring_1 problem" and w :: "'a weight"
  by (rule d4_method.intro [OF dnnf.operation_axioms ncache.cache_axioms])

section \<open>Model counts\<close>

lemma cnf_holds_cong:
  assumes "cnf_ok n F" "\<And>v. 1 \<le> v \<Longrightarrow> v \<le> n \<Longrightarrow> s v = s' v"
  shows "cnf_holds s F = cnf_holds s' F"
proof -
  have "clause_holds s c = clause_holds s' c" if "c \<in> set F" for c
    by (rule clause_holds_cong)
      (use assms that in \<open>auto simp: cnf_ok_def clause_ok_def clause_vars_def\<close>)
  then show ?thesis by (simp add: cnf_holds_def)
qed

text \<open>With every variable a decision variable and all weights 1 the count is the number of models.\<close>

lemma pcount_models:
  assumes F: "cnf_ok n F" and P: "{1..n} \<subseteq> P" and w: "\<And>v b. v \<in> {1..n} \<Longrightarrow> w v b = (1 :: 'a::comm_semiring_1)"
  shows "pcount w P (\<lambda>s. cnf_holds s F) {1..n} = of_nat (card {A. A \<subseteq> {1..n} \<and> cnf_holds (\<lambda>v. v \<in> A) F})"
proof -
  have X: "{1..n} \<inter> P = {1..n}" using P by blast
  have ext: "extends (\<lambda>s. cnf_holds s F) {1..n} A = cnf_holds (\<lambda>v. v \<in> A) F" for A
  proof
    assume "extends (\<lambda>s. cnf_holds s F) {1..n} A"
    then obtain s where s: "\<forall>v\<in>{1..n}. s v = (v \<in> A)" "cnf_holds s F" unfolding extends_def by (elim exE conjE)
    have "cnf_holds s F = cnf_holds (\<lambda>v. v \<in> A) F" by (rule cnf_holds_cong [OF F]) (use s(1) in simp)
    with s(2) show "cnf_holds (\<lambda>v. v \<in> A) F" by simp
  next
    assume "cnf_holds (\<lambda>v. v \<in> A) F"
    then show "extends (\<lambda>s. cnf_holds s F) {1..n} A"
      unfolding extends_def by (intro exI [of _ "\<lambda>v. v \<in> A"] conjI ballI refl)
  qed
  have pw: "pweight w {1..n} A = 1" for A unfolding pweight_def by (intro prod.neutral ballI w)
  then have "pcount w P (\<lambda>s. cnf_holds s F) {1..n} =
      (\<Sum>A\<in>Pow {1..n}. if cnf_holds (\<lambda>v. v \<in> A) F then 1 else 0)"
    by (simp only: pcount_def X ext pw)
  also have "\<dots> = of_nat (card {A \<in> Pow {1..n}. cnf_holds (\<lambda>v. v \<in> A) F})"
    by (simp add: sum.inter_filter [symmetric])
  also have "{A \<in> Pow {1..n}. cnf_holds (\<lambda>v. v \<in> A) F} = {A. A \<subseteq> {1..n} \<and> cnf_holds (\<lambda>v. v \<in> A) F}" by blast
  finally show ?thesis .
qed

section \<open>Compiled graphs\<close>

text \<open>The root of a compiled graph: its value under every weighting is the weighted count.\<close>

definition compiled :: "'a::comm_semiring_1 problem \<Rightarrow> 'a nodeManager \<Rightarrow> nat \<Rightarrow> bool" where
  "compiled p nm root \<longleftrightarrow> nm_ok (m_nbVar p) nm \<and> nm_stamps nm \<and> root < length (m_nodes nm)
     \<and> (\<forall>w :: 'a weight. nmValues w (decVars p) nm ! root =
          pcount w (decVars p) (\<lambda>s. cnf_holds s (m_clauses p)) {1..m_nbVar p})"

lemma compiledI:
  fixes p :: "'a::comm_semiring_1 problem"
  assumes "\<And>w :: 'a weight. \<exists>u st'. r = Some (u, st')
      \<and> (nm_ok (m_nbVar p) (m_operation st') \<and> lit_own S \<and> nm_stamps (m_operation st'))
      \<and> u < length (m_nodes (m_operation st'))
      \<and> nmValues w (decVars p) (m_operation st') ! u =
          pcount w (decVars p) (\<lambda>s. cnf_holds s (m_clauses p)) {1..m_nbVar p}"
  shows "\<exists>u st'. r = Some (u, st') \<and> compiled p (m_operation st') u"
proof -
  obtain u st' where r: "r = Some (u, st')" using assms by blast
  show ?thesis using assms unfolding r by (auto simp: compiled_def)
qed

lemma new_nodes_ok:
  fixes p :: "'a::comm_semiring_1 problem"
  assumes "problem_ok p" "solver_contract S n F sinv desc"
  shows "nm_ok (m_nbVar p) (makeNodeManager sz (m_nbVar p) :: 'a nodeManager) \<and> lit_own S
      \<and> nm_stamps (makeNodeManager sz (m_nbVar p) :: 'a nodeManager)"
  using makeNodeManager_ok [OF fits_small [OF problem_okD(2) [OF assms(1)]]] solver_lit_own [OF assms(2)] by blast

text \<open>A query on a compiled graph counts the models of the formula in which the assumption holds.\<close>

lemma compiled_query:
  fixes p :: "'a::comm_semiring_1 problem"
  assumes c: "compiled p nm root" and w: "weights_ok p" "neutral_weights p (decVars p)"
    and as: "distinct (map var as)" "var ` set as \<subseteq> decVars p \<inter> {1..m_nbVar p}"
  shows "\<exists>nm'. dnnf_count_under p nm root as =
      Some (pcount (weight_of p) (decVars p) (\<lambda>s. cnf_holds s (m_clauses p) \<and> lits_hold s as) {1..m_nbVar p}, nm')"
proof -
  have nm: "nm_ok (m_nbVar p) nm" "stamps_old (m_globalStamp nm) (m_nodes nm)" "m_globalStamp nm < - 1"
    "root < length (m_nodes nm)" "nmValues w' (decVars p) nm ! root =
          pcount w' (decVars p) (\<lambda>s. cnf_holds s (m_clauses p)) {1..m_nbVar p}" for w' :: "'a weight"
    using c by (auto simp: compiled_def nm_stamps_def)
  have "var ` set as \<subseteq> decVars p" "var ` set as \<subseteq> {1..m_nbVar p} \<inter> decVars p" using as(2) by auto
  with dnnf_count_under_value [OF nm(1-4) w as(1)] nm(5) [of "cond_weight as (weight_of p)"]
    pcount_cond_weight [of as "{1..m_nbVar p}" "decVars p"]
  show ?thesis by fastforce
qed

end
