(* ===== verification/ReferenceSolver.thy ===== *)
theory ReferenceSolver
  imports Contracts
begin

text \<open>
  A reference SAT solver: it enumerates the assignments of the problem's variables and, when some
  of them are models, assigns the literals that hold in all of them. It meets \<open>solver_contract\<close> for
  every well-formed formula, so the hypothesis of the theorems about the counting method can hold.
  The solvers of the program, MiniSat and Glucose, are third-party code and are not modelled.
\<close>

definition refModels :: "nat \<Rightarrow> cnf \<Rightarrow> lit list \<Rightarrow> var list list" where
  "refModels n F t =
     filter (\<lambda>A. cnf_holds (\<lambda>v. v \<in> set A) F \<and> lits_hold (\<lambda>v. v \<in> set A) t) (subseqs [1 ..< n + 1])"

definition refUnits :: "nat \<Rightarrow> var list list \<Rightarrow> lit list" where
  "refUnits n Ms =
     filter (\<lambda>l. \<forall>A\<in>set Ms. lit_holds (\<lambda>v. v \<in> set A) l)
       (concat (map (\<lambda>v. [makeLit v False, makeLit v True]) [1 ..< n + 1]))"

type_synonym ref_state = "lit list \<times> lit list"

definition refSolve :: "nat \<Rightarrow> cnf \<Rightarrow> ref_state \<Rightarrow> var list \<Rightarrow> bool \<times> ref_state" where
  "refSolve n F s V =
     (let Ms = refModels n F (fst s)
      in if Ms = [] then (False, s) else (True, (fst s, refUnits n Ms)))"

definition refSolver :: "nat \<Rightarrow> cnf \<Rightarrow> ref_state solver_if" where
  "refSolver n F =
     \<lparr>slv_solve = refSolve n F, slv_solveAll = \<lambda>s. (refModels n F (fst s) \<noteq> [], s),
      slv_litAssigned = \<lambda>s v. List.find (\<lambda>l. var l = v) (snd s),
      slv_getModelVar = \<lambda>s v. l_Undef, slv_getAssumption = fst,
      slv_pushAssumption = \<lambda>s l. (fst s @ [l], snd s),
      slv_popAssumption = \<lambda>s k. (take (length (fst s) - k) (fst s), if k = 0 then snd s else []),
      slv_restart = \<lambda>s. s, slv_decayCountConflict = \<lambda>s. s\<rparr>"

definition implied :: "cnf \<Rightarrow> lit list \<Rightarrow> lit set \<Rightarrow> bool" where
  "implied F t U \<longleftrightarrow> (\<forall>l\<in>U. \<forall>\<sigma>. fml F t \<sigma> \<longrightarrow> lit_holds \<sigma> l)"

definition ref_inv :: "nat \<Rightarrow> cnf \<Rightarrow> ref_state \<Rightarrow> bool" where
  "ref_inv n F s \<longleftrightarrow> (\<forall>l\<in>set (fst s) \<union> set (snd s). 1 \<le> var l \<and> var l \<le> n)
     \<and> implied F (fst s) (set (snd s))"

definition ref_desc :: "nat \<Rightarrow> cnf \<Rightarrow> ref_state \<Rightarrow> ref_state \<Rightarrow> bool" where
  "ref_desc n F s0 s \<longleftrightarrow> (\<exists>r. fst s = fst s0 @ r) \<and> implied F (fst s0) (asg (refSolver n F) s0)
     \<and> (\<forall>l\<in>asg (refSolver n F) s0. 1 \<le> var l \<and> var l \<le> n)"

lemma asg_refSolver: "asg (refSolver n F) s = {l. List.find (\<lambda>k. var k = var l) (snd s) = Some l}"
  by (simp add: asg_def refSolver_def)

lemma asg_subset: "asg (refSolver n F) s \<subseteq> set (snd s)"
  by (auto simp: asg_refSolver find_Some_iff)

lemma fml_mono: "fml F (t @ r) \<sigma> \<Longrightarrow> fml F t \<sigma>"
  by (auto simp: fml_def lits_hold_def)

text \<open>Only the variables of the problem matter, so the enumeration is complete.\<close>

lemma fml_restrict:
  assumes "cnf_ok n F" "\<forall>l\<in>set t. 1 \<le> var l \<and> var l \<le> n" "fml F t \<sigma>"
  obtains A where "A \<in> set (refModels n F t)" "\<forall>v. 1 \<le> v \<and> v \<le> n \<longrightarrow> (v \<in> set A \<longleftrightarrow> \<sigma> v)"
proof -
  let ?X = "{v \<in> {1..<n + 1}. \<sigma> v}"
  have "?X \<in> set ` set (subseqs [1 ..< n + 1])"
    unfolding subseqs_powset by (auto simp del: upt_Suc)
  then obtain A where A: "?X = set A" "A \<in> set (subseqs [1 ..< n + 1])" by (rule imageE)
  have v: "v \<in> set A \<longleftrightarrow> \<sigma> v" if "1 \<le> v" "v \<le> n" for v unfolding A(1) [symmetric] using that by simp
  have l: "lit_holds (\<lambda>v. v \<in> set A) l = lit_holds \<sigma> l" if "1 \<le> var l" "var l \<le> n" for l
    using v [OF that] by (simp add: lit_holds_def)
  have "clause_holds (\<lambda>v. v \<in> set A) c = clause_holds \<sigma> c" if "c \<in> set F" for c
  proof (rule clause_holds_cong)
    fix u assume "u \<in> clause_vars c"
    then have "1 \<le> u \<and> u \<le> n" using assms(1) that by (auto simp: cnf_ok_def clause_ok_def clause_vars_def)
    then show "(u \<in> set A) = \<sigma> u" using v by blast
  qed
  then have "A \<in> set (refModels n F t)"
    using A(2) assms(2,3) l by (simp add: refModels_def fml_def cnf_holds_def lits_hold_def)
  with v that show ?thesis by blast
qed

lemma refModels_fml: "A \<in> set (refModels n F t) \<Longrightarrow> fml F t (\<lambda>v. v \<in> set A)"
  by (simp add: refModels_def fml_def)

lemma refModels_sat:
  assumes "cnf_ok n F" "\<forall>l\<in>set t. 1 \<le> var l \<and> var l \<le> n"
  shows "refModels n F t \<noteq> [] \<longleftrightarrow> sat (fml F t)"
proof
  assume "refModels n F t \<noteq> []"
  then obtain A where "A \<in> set (refModels n F t)" by (metis last_in_set)
  then show "sat (fml F t)" using refModels_fml unfolding sat_def by blast
next
  assume "sat (fml F t)"
  then obtain \<sigma> where "fml F t \<sigma>" by (auto simp: sat_def)
  from fml_restrict [OF assms this] show "refModels n F t \<noteq> []" by (metis empty_iff empty_set)
qed

lemma refUnits_implied:
  assumes "cnf_ok n F" "\<forall>l\<in>set t. 1 \<le> var l \<and> var l \<le> n"
  shows "l \<in> set (refUnits n (refModels n F t)) \<longleftrightarrow>
    1 \<le> var l \<and> var l \<le> n \<and> (\<forall>\<sigma>. fml F t \<sigma> \<longrightarrow> lit_holds \<sigma> l)"
proof -
  have "l = makeLit (var l) False \<or> l = makeLit (var l) True"
    using makeLit_var_sign [of l] by (cases "sign l") auto
  then have "l \<in> set (concat (map (\<lambda>v. [makeLit v False, makeLit v True]) [1 ..< n + 1])) \<longleftrightarrow> 1 \<le> var l \<and> var l \<le> n"
    by (auto simp del: upt_Suc)
  moreover have "(\<forall>A\<in>set (refModels n F t). lit_holds (\<lambda>v. v \<in> set A) l) \<longleftrightarrow> (\<forall>\<sigma>. fml F t \<sigma> \<longrightarrow> lit_holds \<sigma> l)"
    if v: "1 \<le> var l" "var l \<le> n"
  proof
    assume a: "\<forall>A\<in>set (refModels n F t). lit_holds (\<lambda>v. v \<in> set A) l"
    show "\<forall>\<sigma>. fml F t \<sigma> \<longrightarrow> lit_holds \<sigma> l"
    proof (intro allI impI)
      fix \<sigma> assume "fml F t \<sigma>"
      then obtain A where "A \<in> set (refModels n F t)" "\<forall>v. 1 \<le> v \<and> v \<le> n \<longrightarrow> (v \<in> set A \<longleftrightarrow> \<sigma> v)"
        by (rule fml_restrict [OF assms])
      with a v show "lit_holds \<sigma> l" by (auto simp: lit_holds_def)
    qed
  next
    assume "\<forall>\<sigma>. fml F t \<sigma> \<longrightarrow> lit_holds \<sigma> l"
    then show "\<forall>A\<in>set (refModels n F t). lit_holds (\<lambda>v. v \<in> set A) l" using refModels_fml by blast
  qed
  ultimately show ?thesis unfolding refUnits_def set_filter by blast
qed

text \<open>With a model, no variable is implied both ways, so the assigned literals are the units.\<close>

lemma asg_units:
  assumes "cnf_ok n F" "\<forall>l\<in>set t. 1 \<le> var l \<and> var l \<le> n" "fml F t \<sigma>"
  shows "asg (refSolver n F) (t, refUnits n (refModels n F t)) = set (refUnits n (refModels n F t))"
proof
  let ?U = "refUnits n (refModels n F t)"
  show "asg (refSolver n F) (t, ?U) \<subseteq> set ?U" using asg_subset [of n F "(t, ?U)"] by simp
  show "set ?U \<subseteq> asg (refSolver n F) (t, ?U)"
  proof
    fix l assume l: "l \<in> set ?U"
    then have "List.find (\<lambda>k. var k = var l) ?U \<noteq> None" by (auto simp: find_None_iff)
    then obtain k where k: "List.find (\<lambda>k. var k = var l) ?U = Some k" by blast
    then have "k \<in> set ?U" "var k = var l" by (auto simp: find_Some_iff)
    then have "lit_holds \<sigma> k" "lit_holds \<sigma> l" using l refUnits_implied [OF assms(1,2)] assms(3) by blast+
    then have "k = l" using \<open>var k = var l\<close> by (auto simp: lit_eq_iff lit_holds_def)
    with k show "l \<in> asg (refSolver n F) (t, ?U)" by (simp add: asg_refSolver)
  qed
qed

text \<open>The implied literals are closed under unit propagation.\<close>

lemma units_propagated:
  assumes F: "cnf_ok n F" and t: "\<forall>l\<in>set t. 1 \<le> var l \<and> var l \<le> n" and \<sigma>: "fml F t \<sigma>" and c: "c \<in> set F"
    and ns: "\<not> sat_by (set (refUnits n (refModels n F t))) c"
  shows "2 \<le> card (clause_vars c - var ` set (refUnits n (refModels n F t)))"
proof (rule ccontr)
  let ?U = "set (refUnits n (refModels n F t))"
  have iff: "l \<in> ?U \<longleftrightarrow> 1 \<le> var l \<and> var l \<le> n \<and> (\<forall>\<sigma>. fml F t \<sigma> \<longrightarrow> lit_holds \<sigma> l)" for l
    by (rule refUnits_implied [OF F t])
  have ok: "clause_ok n c" using F c by (simp add: cnf_ok_def)
  assume "\<not> 2 \<le> card (clause_vars c - var ` ?U)"
  then have le: "card (clause_vars c - var ` ?U) \<le> Suc 0" by simp
  have false: "\<not> lit_holds s l" if l: "l \<in> set c" "var l \<in> var ` ?U" and s: "fml F t s" for l s
  proof
    assume h: "lit_holds s l"
    obtain k where k: "k \<in> ?U" "var k = var l" using l(2) by auto
    then have "lit_holds s k" using iff s by blast
    then have "k = l" using h k(2) by (auto simp: lit_eq_iff lit_holds_def)
    with k(1) l(1) ns show False by (auto simp: sat_by_def)
  qed
  have model: "\<exists>l\<in>set c. lit_holds s l" if "fml F t s" for s
    using that c by (auto simp: fml_def cnf_holds_def clause_holds_def)
  obtain l where l: "l \<in> set c" "lit_holds \<sigma> l" using model [OF \<sigma>] by blast
  then have v: "var l \<in> clause_vars c - var ` ?U" using false \<sigma> by (auto simp: clause_vars_def)
  have "lit_holds s l" if s: "fml F t s" for s
  proof -
    obtain k where k: "k \<in> set c" "lit_holds s k" using model [OF s] by blast
    then have "var k \<in> clause_vars c - var ` ?U" using false s by (auto simp: clause_vars_def)
    then have "var k = var l" using le v by (auto simp: card_le_Suc0_iff_eq)
    then have "k = l" using ok k(1) l(1) by (auto simp: clause_ok_def distinct_map inj_on_def)
    with k(2) show ?thesis by simp
  qed
  then have "l \<in> ?U" using iff ok l(1) by (auto simp: clause_ok_def)
  with v show False by blast
qed

lemma refSolver_contract:
  assumes F: "cnf_ok n F"
  shows "solver_contract (refSolver n F) n F (ref_inv n F) (ref_desc n F)"
proof -
  let ?S = "refSolver n F"
  have sel: "slv_getAssumption ?S = fst" "slv_solve ?S = refSolve n F"
    "slv_pushAssumption ?S = (\<lambda>s l. (fst s @ [l], snd s))"
    "slv_popAssumption ?S = (\<lambda>s k. (take (length (fst s) - k) (fst s), if k = 0 then snd s else []))"
    "slv_restart ?S = (\<lambda>s. s)" "slv_decayCountConflict ?S = (\<lambda>s. s)"
    "slv_solveAll ?S = (\<lambda>s. (refModels n F (fst s) \<noteq> [], s))"
    by (simp_all add: refSolver_def)
  have own: "lit_own ?S" by (auto simp: lit_own_def refSolver_def find_Some_iff)
  have refl: "ref_desc n F s s" if "ref_inv n F s" for s
    using that asg_subset [of n F s] by (auto simp: ref_inv_def ref_desc_def implied_def)
  have push: "push_law ?S n (ref_inv n F) (ref_desc n F)"
    unfolding push_law_def sel by (auto simp: ref_inv_def ref_desc_def implied_def dest: fml_mono)
  have pop: "pop_law ?S (ref_inv n F) (ref_desc n F)"
    unfolding pop_law_def sel by (auto simp: ref_inv_def ref_desc_def implied_def dest: in_set_takeD)
  have solve: "solve_law ?S n F (ref_inv n F) (ref_desc n F)"
    unfolding solve_law_def sel
  proof (intro allI impI)
    fix s V b s' assume inv: "ref_inv n F s" and e: "refSolve n F s V = (b, s')"
    let ?t = "fst s"
    have t: "\<forall>l\<in>set ?t. 1 \<le> var l \<and> var l \<le> n" using inv by (simp add: ref_inv_def)
    let ?U = "refUnits n (refModels n F ?t)"
    note m = refModels_sat [OF F t] and u = refUnits_implied [OF F t]
    show "ref_inv n F s' \<and> fst s' = fst s \<and> (\<forall>s0. ref_desc n F s0 s \<longrightarrow> ref_desc n F s0 s')
      \<and> b = sat (fml F ?t) \<and> (b \<longrightarrow> solved ?S F (ref_desc n F) s s')"
    proof (cases "sat (fml F ?t)")
      case False
      then show ?thesis using e m inv by (auto simp: refSolve_def)
    next
      case True
      then have r: "b" "s' = (?t, ?U)" using e m by (auto simp: refSolve_def Let_def)
      obtain \<sigma> where \<sigma>: "fml F ?t \<sigma>" using True by (auto simp: sat_def)
      have A: "asg ?S s' = set ?U" unfolding r(2) by (rule asg_units [OF F t \<sigma>])
      have "ref_inv n F s'" using t u by (auto simp: ref_inv_def r(2) implied_def)
      moreover have "\<forall>s0. ref_desc n F s0 s \<longrightarrow> ref_desc n F s0 s'" by (simp add: ref_desc_def r(2))
      moreover have "solved ?S F (ref_desc n F) s s'"
        unfolding solved_def A sel
      proof (intro conjI)
        show "\<forall>l\<in>set ?U. \<forall>\<sigma>. fml F ?t \<sigma> \<longrightarrow> lit_holds \<sigma> l" using u by blast
        show "set ?t \<subseteq> set ?U" using u t by (auto simp: fml_def lits_hold_def)
        show "\<forall>c\<in>set F. sat_by (set ?U) c \<or> 2 \<le> card (clause_vars c - var ` set ?U)"
          using units_propagated [OF F t \<sigma>] by blast
        show "\<forall>s0. ref_desc n F s0 s \<longrightarrow> asg ?S s0 \<subseteq> set ?U"
        proof (intro allI impI subsetI)
          fix s0 l assume d: "ref_desc n F s0 s" and l: "l \<in> asg ?S s0"
          obtain k where k: "?t = fst s0 @ k" using d by (auto simp: ref_desc_def)
          have "lit_holds \<sigma> l" if "fml F ?t \<sigma>" for \<sigma>
            using d l fml_mono [of F "fst s0" k \<sigma>] that k by (auto simp: ref_desc_def implied_def)
          moreover have "1 \<le> var l \<and> var l \<le> n" using d l by (simp add: ref_desc_def)
          ultimately show "l \<in> set ?U" using u by blast
        qed
      qed
      ultimately show ?thesis using True r by simp
    qed
  qed
  have all: "solveAll_law ?S F (ref_inv n F)"
    using refModels_sat [OF F] by (auto simp: solveAll_law_def sel ref_inv_def)
  have rest: "restart_law ?S (ref_inv n F)" "decay_law ?S (ref_inv n F) (ref_desc n F)"
    by (auto simp: restart_law_def decay_law_def sel)
  have len: "ref_desc n F s0 s \<Longrightarrow> length (fst s0) \<le> length (fst s)" for s0 s
    by (auto simp: ref_desc_def)
  show ?thesis
    unfolding solver_contract_def sel(1) using own refl push pop solve all rest len by blast
qed

lemma ref_start: "ref_inv n F ([], [])" "slv_getAssumption (refSolver n F) ([], []) = []"
  by (simp_all add: ref_inv_def implied_def refSolver_def)

end
