(* ===== verification/BufferRead.thy ===== *)
theory BufferRead
  imports ProblemTypes "HOL-Library.Word"
begin

text \<open>
  \<^verbatim>\<open>src/src/utils/BufferRead.hpp\<close>, the buffered reader of the parsers, and the list reader of
  \<^verbatim>\<open>src/src/utils/Parsing.cpp\<close>. The file descriptor is the list of the chunks that the successive
  calls of \<^verbatim>\<open>read()\<close> deliver, so a short read is possible anywhere; a failing read ends the program
  and is not modelled. As in the code, the buffer keeps its old bytes when a read returns fewer, and at
  the end of the input \<^verbatim>\<open>currentChar\<close> reads such a stale byte.

  The lemmas relate each operation to the characters still to come, \<open>pending\<close>: the place of the
  chunk boundaries does not matter.
\<close>

section \<open>The reader\<close>

definition BUFFER_SIZE :: nat where "BUFFER_SIZE = 65536"

record bufferRead =
  br_pos :: nat
  br_size :: nat
  br_buffer :: string
  br_fd :: "string list"

definition br_read :: "bufferRead \<Rightarrow> bufferRead" where
  "br_read b =
     (case br_fd b of
        [] \<Rightarrow> b\<lparr>br_size := 0\<rparr>
      | c # cs \<Rightarrow> b\<lparr>br_size := length c, br_buffer := c @ drop (length c) (br_buffer b), br_fd := cs\<rparr>)"

text \<open>The constructors; \<open>junk\<close> is the content of the buffer before the first read.\<close>

definition newBufferRead :: "string \<Rightarrow> string list \<Rightarrow> bufferRead" where
  "newBufferRead junk fd = br_read \<lparr>br_pos = 0, br_size = 0, br_buffer = junk, br_fd = fd\<rparr>"

definition currentChar :: "bufferRead \<Rightarrow> char" where "currentChar b = br_buffer b ! br_pos b"

definition consumeChar :: "bufferRead \<Rightarrow> bufferRead" where
  "consumeChar b =
     (let b1 = b\<lparr>br_pos := br_pos b + 1\<rparr>
      in if br_pos b1 \<ge> br_size b1 then br_read (b1\<lparr>br_pos := 0\<rparr>) else b1)"

definition nextChar :: "bufferRead \<Rightarrow> char \<times> bufferRead" where
  "nextChar b = (currentChar b, consumeChar b)"

definition eof :: "bufferRead \<Rightarrow> bool" where "eof b \<longleftrightarrow> br_size b = 0"

text \<open>Every character consumed before the end of the input makes this measure smaller.\<close>

definition br_left :: "bufferRead \<Rightarrow> nat" where
  "br_left b = (if br_size b = 0 then 0 else 1 + (br_size b - br_pos b)) + sum_list (map (\<lambda>c. length c + 2) (br_fd b))"

lemma consumeChar_le: "br_left (consumeChar b) \<le> br_left b"
  and consumeChar_less: "\<not> eof b \<Longrightarrow> br_left (consumeChar b) < br_left b"
  by (auto simp: br_left_def consumeChar_def br_read_def eof_def Let_def split: list.splits)

text \<open>The loops that skip characters.\<close>

function skipWhile :: "(char \<Rightarrow> bool) \<Rightarrow> bufferRead \<Rightarrow> bufferRead" where
  "skipWhile P b = (if \<not> eof b \<and> P (currentChar b) then skipWhile P (consumeChar b) else b)"
  by pat_completeness auto

termination skipWhile
  by (relation "measure (\<lambda>(P, b). br_left b)") (auto simp: consumeChar_less)

declare skipWhile.simps [simp del]

definition isSpace :: "char \<Rightarrow> bool" where
  "isSpace c \<longleftrightarrow> c = CHR '' '' \<or> c = CHR 0x09 \<or> c = CHR 0x0A \<or> c = CHR 0x0D"

definition isSimpleSpace :: "char \<Rightarrow> bool" where
  "isSimpleSpace c \<longleftrightarrow> c = CHR '' '' \<or> c = CHR 0x09"

definition isDigit :: "char \<Rightarrow> bool" where
  "isDigit c \<longleftrightarrow> (of_char c :: nat) \<ge> of_char (CHR ''0'') \<and> (of_char c :: nat) \<le> of_char (CHR ''9'')"

definition isDoubleChar :: "char \<Rightarrow> bool" where
  "isDoubleChar c \<longleftrightarrow> isDigit c \<or> c = CHR ''.'' \<or> c = CHR ''e'' \<or> c = CHR ''-''"

definition skipSpace :: "bufferRead \<Rightarrow> bufferRead" where "skipSpace = skipWhile isSpace"

definition skipSimpleSpace :: "bufferRead \<Rightarrow> bufferRead" where "skipSimpleSpace = skipWhile isSimpleSpace"

definition skipLine :: "bufferRead \<Rightarrow> bufferRead" where
  "skipLine b = consumeChar (skipWhile (\<lambda>c. c \<noteq> CHR 0x0A) b)"

text \<open>
  Integers. The accumulator is a C++ \<^verbatim>\<open>int\<close>: its 32 bits are written out, although the overflow is
  undefined behaviour.
\<close>

definition wrap32 :: "int \<Rightarrow> int" where "wrap32 x = sint (word_of_int x :: 32 word)"

definition digitVal :: "char \<Rightarrow> int" where "digitVal c = int (of_char c) - int (of_char (CHR ''0''))"

function nextDigits :: "int \<Rightarrow> bufferRead \<Rightarrow> int \<times> bufferRead" where
  "nextDigits ret b =
     (if \<not> eof b \<and> isDigit (currentChar b)
      then nextDigits (wrap32 (ret * 10 + digitVal (fst (nextChar b)))) (snd (nextChar b))
      else (ret, b))"
  by pat_completeness auto

termination nextDigits
  by (relation "measure (\<lambda>(r, b). br_left b)") (auto simp: consumeChar_less nextChar_def)

declare nextDigits.simps [simp del]

definition nextInt :: "bufferRead \<Rightarrow> int \<times> bufferRead" where
  "nextInt b0 =
     (let b1 = skipSpace b0;
          sign = (currentChar b1 = CHR ''-'');
          b2 = (if sign then consumeChar b1 else b1);
          (ret, b3) = nextDigits 0 b2
      in (if sign then wrap32 (- ret) else ret, b3))"

primrec canConsumeChars :: "string \<Rightarrow> bufferRead \<Rightarrow> bool \<times> bufferRead" where
  "canConsumeChars [] b = (True, b)"
| "canConsumeChars (c # cs) b =
     (if currentChar b \<noteq> c then (False, b) else canConsumeChars cs (consumeChar b))"

definition canConsume :: "string \<Rightarrow> bufferRead \<Rightarrow> bool \<times> bufferRead" where
  "canConsume motif b = canConsumeChars motif (skipSimpleSpace b)"

text \<open>The text of a number with a fractional part or an exponent.\<close>

function numberText :: "string \<Rightarrow> bufferRead \<Rightarrow> string \<times> bufferRead" where
  "numberText cur b =
     (if \<not> eof b \<and> isDoubleChar (currentChar b) then numberText (cur @ [currentChar b]) (consumeChar b)
      else (cur, b))"
  by pat_completeness auto

termination numberText
  by (relation "measure (\<lambda>(r, b). br_left b)") (auto simp: consumeChar_less)

declare numberText.simps [simp del]

text \<open>
  \<^verbatim>\<open>nextDouble\<close> and \<^verbatim>\<open>nextMpf_float\<close>: the conversion of the text (\<^verbatim>\<open>std::stod\<close>, the constructor of
  \<^verbatim>\<open>mpf_float\<close>) is a parameter, None when it throws.
\<close>

definition nextNumber :: "(string \<Rightarrow> 'a::uminus option) \<Rightarrow> bufferRead \<Rightarrow> ('a \<times> bufferRead) option" where
  "nextNumber conv b0 =
     (let b1 = skipSpace b0;
          sign = (currentChar b1 = CHR ''-'');
          b2 = (if sign then consumeChar b1 else b1);
          (cur, b3) = numberText [] b2
      in map_option (\<lambda>ret. (if sign then - ret else ret, b3)) (conv cur))"

section \<open>Lists of integers\<close>

lemma skipWhile_le: "br_left (skipWhile P b) \<le> br_left b"
proof (induction P b rule: skipWhile.induct)
  case (1 P b)
  then show ?case using consumeChar_le [of b] by (subst skipWhile.simps) auto
qed

lemma nextDigits_le:
  "nextDigits r b = (v, b') \<Longrightarrow> br_left b' \<le> br_left b \<and> (v \<noteq> r \<longrightarrow> br_left b' < br_left b)"
proof (induction r b rule: nextDigits.induct)
  case (1 r b)
  show ?case
  proof (cases "\<not> eof b \<and> isDigit (currentChar b)")
    case True
    then have e: "nextDigits (wrap32 (r * 10 + digitVal (currentChar b))) (consumeChar b) = (v, b')"
      using "1.prems" by (subst (asm) nextDigits.simps) (simp add: nextChar_def)
    show ?thesis using "1.IH" [OF True] e True consumeChar_less [of b] by (simp add: nextChar_def)
  next
    case False
    then show ?thesis using "1.prems" by (subst (asm) nextDigits.simps) auto
  qed
qed

lemma nextInt_less:
  assumes "nextInt b = (v, b')"
  shows "br_left b' \<le> br_left b" "v \<noteq> 0 \<Longrightarrow> br_left b' < br_left b"
proof -
  define b1 where "b1 = skipSpace b"
  define b2 where "b2 = (if currentChar b1 = CHR ''-'' then consumeChar b1 else b1)"
  obtain r b3 where d: "nextDigits 0 b2 = (r, b3)" by fastforce
  have e: "b' = b3" "v \<noteq> 0 \<Longrightarrow> r \<noteq> 0"
    using assms d by (auto simp: nextInt_def b1_def [symmetric] b2_def [symmetric] Let_def wrap32_def split: if_splits)
  have "br_left b2 \<le> br_left b"
    using skipWhile_le [of isSpace b] consumeChar_le [of b1] by (auto simp: b2_def b1_def skipSpace_def)
  then show "br_left b' \<le> br_left b" "v \<noteq> 0 \<Longrightarrow> br_left b' < br_left b"
    using nextDigits_le [OF d] e by auto
qed

function readListIntTerminatedByZero :: "bufferRead \<Rightarrow> int list \<Rightarrow> int list \<times> bufferRead" where
  "readListIntTerminatedByZero b list =
     (let (v, b') = nextInt b
      in if v \<noteq> 0 then readListIntTerminatedByZero b' (list @ [v]) else (list, b'))"
  by pat_completeness auto

termination readListIntTerminatedByZero
proof (relation "measure (\<lambda>(b, l). br_left b)")
  fix b list x v b'
  assume "x = nextInt b" "(v, b') = x" "v \<noteq> (0::int)"
  then show "((b', list @ [v]), b, list) \<in> measure (\<lambda>(b, l). br_left b)"
    using nextInt_less(2) [of b v b'] by simp
qed simp

declare readListIntTerminatedByZero.simps [simp del]

section \<open>The characters to come\<close>

definition pending :: "bufferRead \<Rightarrow> string" where
  "pending b = take (br_size b - br_pos b) (drop (br_pos b) (br_buffer b)) @ concat (br_fd b)"

text \<open>Reads deliver between 1 and \<^verbatim>\<open>BUFFER_SIZE\<close> bytes until the end of the file.\<close>

definition chunks_ok :: "string list \<Rightarrow> bool" where
  "chunks_ok fd \<longleftrightarrow> (\<forall>c\<in>set fd. c \<noteq> [] \<and> length c \<le> BUFFER_SIZE)"

definition br_ok :: "bufferRead \<Rightarrow> bool" where
  "br_ok b \<longleftrightarrow> length (br_buffer b) = BUFFER_SIZE \<and> chunks_ok (br_fd b) \<and> br_size b \<le> BUFFER_SIZE
     \<and> (if br_size b = 0 then br_pos b = 0 \<and> br_fd b = [] else br_pos b < br_size b)"

lemma br_read_ok:
  assumes "length (br_buffer b) = BUFFER_SIZE" "chunks_ok (br_fd b)" "br_pos b = 0"
  shows "br_ok (br_read b) \<and> pending (br_read b) = concat (br_fd b)"
  using assms by (auto simp: br_ok_def br_read_def chunks_ok_def pending_def split: list.splits)

lemma newBufferRead_ok:
  assumes "length junk = BUFFER_SIZE" "chunks_ok fd"
  shows "br_ok (newBufferRead junk fd) \<and> pending (newBufferRead junk fd) = concat fd"
  using assms br_read_ok [of "\<lparr>br_pos = 0, br_size = 0, br_buffer = junk, br_fd = fd\<rparr>"]
  by (simp add: newBufferRead_def)

text \<open>Every access to the buffer is inside it.\<close>

lemma br_pos_in_buffer: "br_ok b \<Longrightarrow> br_pos b < length (br_buffer b)"
  by (auto simp: br_ok_def BUFFER_SIZE_def split: if_splits)

lemma eof_pending: "br_ok b \<Longrightarrow> eof b \<longleftrightarrow> pending b = []"
  by (auto simp: br_ok_def pending_def eof_def chunks_ok_def split: if_splits)

lemma currentChar_pending: "br_ok b \<Longrightarrow> pending b = c # cs \<Longrightarrow> currentChar b = c"
  by (auto simp: br_ok_def pending_def currentChar_def Cons_nth_drop_Suc [symmetric] take_Cons' split: if_splits)

lemma consumeChar_ok:
  assumes "br_ok b"
  shows "br_ok (consumeChar b) \<and> pending (consumeChar b) = tl (pending b)"
proof (cases "br_size b = 0")
  case True
  then show ?thesis using assms
    by (auto simp: br_ok_def consumeChar_def br_read_def pending_def Let_def)
next
  case False
  have b: "length (br_buffer b) = BUFFER_SIZE" "chunks_ok (br_fd b)" "br_size b \<le> BUFFER_SIZE" "br_pos b < br_size b"
    using assms False by (auto simp: br_ok_def)
  have "take (br_size b - br_pos b) (drop (br_pos b) (br_buffer b)) =
      br_buffer b ! br_pos b # take (br_size b - Suc (br_pos b)) (drop (Suc (br_pos b)) (br_buffer b))"
    using b by (subst Cons_nth_drop_Suc [symmetric]) (auto simp: take_Cons' Suc_diff_Suc)
  then have t: "tl (pending b) = take (br_size b - Suc (br_pos b)) (drop (Suc (br_pos b)) (br_buffer b)) @ concat (br_fd b)"
    by (simp add: pending_def)
  show ?thesis
  proof (cases "br_pos b + 1 < br_size b")
    case True
    then show ?thesis using b t by (simp add: consumeChar_def br_ok_def pending_def Let_def)
  next
    case False
    then have "consumeChar b = br_read (b\<lparr>br_pos := 0\<rparr>)" by (simp add: consumeChar_def Let_def)
    then show ?thesis using br_read_ok [of "b\<lparr>br_pos := 0\<rparr>"] b t False by simp
  qed
qed

lemmas reader_simps = eof_pending currentChar_pending consumeChar_ok

lemma skipWhile_ok:
  "br_ok b \<Longrightarrow> br_ok (skipWhile P b) \<and> pending (skipWhile P b) = dropWhile P (pending b)"
proof (induction P b rule: skipWhile.induct)
  case (1 P b)
  show ?case
  proof (cases "pending b")
    case Nil
    then show ?thesis using "1.prems" by (subst (1 2) skipWhile.simps) (simp add: reader_simps)
  next
    case (Cons c cs)
    then show ?thesis using "1.prems" "1.IH" consumeChar_ok [OF "1.prems"]
      by (subst (1 2) skipWhile.simps) (simp add: reader_simps)
  qed
qed

lemma skipWhile_stop: "br_ok b \<Longrightarrow> pending b = c # cs \<Longrightarrow> \<not> P c \<Longrightarrow> skipWhile P b = b"
  by (subst skipWhile.simps) (simp add: reader_simps)

section \<open>Reading back a printed number\<close>

text \<open>The digits that \<^verbatim>\<open>operator<<\<close> writes.\<close>

definition digitChar :: "nat \<Rightarrow> char" where "digitChar k = char_of (48 + k)"

fun showNat :: "nat \<Rightarrow> string" where
  "showNat n = (if n < 10 then [digitChar n] else showNat (n div 10) @ [digitChar (n mod 10)])"

declare showNat.simps [simp del]

definition showInt :: "int \<Rightarrow> string" where
  "showInt v = (if v < 0 then CHR ''-'' # showNat (nat (- v)) else showNat (nat v))"

lemma digitChar: "k < 10 \<Longrightarrow> isDigit (digitChar k) \<and> digitVal (digitChar k) = int k"
  by (simp add: isDigit_def digitVal_def digitChar_def)

lemma showNat_digits: "c \<in> set (showNat n) \<Longrightarrow> isDigit c"
proof (induction n rule: showNat.induct)
  case (1 n)
  then show ?case using digitChar [of n] digitChar [of "n mod 10"]
    by (subst (asm) (2) showNat.simps) (auto split: if_splits)
qed

lemma showNat_ne: "showNat n \<noteq> []"
  by (subst showNat.simps) simp

lemma wrap32_id: "- (2 ^ 31) \<le> x \<Longrightarrow> x < 2 ^ 31 \<Longrightarrow> wrap32 x = x"
  unfolding wrap32_def sint_sbintrunc' by (rule signed_take_bit_int_eq_self) simp_all

lemma showNat_value:
  "int n < 2 ^ 31 \<Longrightarrow> foldl (\<lambda>r c. wrap32 (r * 10 + digitVal c)) 0 (showNat n) = int n"
proof (induction n rule: showNat.induct)
  case (1 n)
  show ?case
  proof (cases "n < 10")
    case True
    then show ?thesis using digitChar [of n] wrap32_id [of "int n"] by (subst showNat.simps) simp
  next
    case False
    have "int (n div 10) * 10 + int (n mod 10) = int n" by presburger
    then show ?thesis using False 1 digitChar [of "n mod 10"] wrap32_id [of "int n"]
      by (subst showNat.simps) simp
  qed
qed

definition no_digit :: "string \<Rightarrow> bool" where
  "no_digit s \<longleftrightarrow> (case s of [] \<Rightarrow> True | c # cs \<Rightarrow> \<not> isDigit c)"

lemma nextDigits_ok:
  assumes "br_ok b" "pending b = ds @ rest" "\<forall>c\<in>set ds. isDigit c" "no_digit rest"
  shows "\<exists>b'. nextDigits r b = (foldl (\<lambda>r c. wrap32 (r * 10 + digitVal c)) r ds, b') \<and> br_ok b' \<and> pending b' = rest"
  using assms
proof (induction ds arbitrary: r b)
  case Nil
  then have "\<not> (\<not> eof b \<and> isDigit (currentChar b))"
    by (cases rest) (auto simp: reader_simps no_digit_def)
  then show ?case using Nil.prems(1,2) by (subst nextDigits.simps) auto
next
  case (Cons c cs)
  then have c: "\<not> eof b" "currentChar b = c" "isDigit c" by (auto simp: reader_simps)
  have n: "br_ok (consumeChar b)" "pending (consumeChar b) = cs @ rest" using Cons.prems consumeChar_ok [of b] by auto
  show ?case using Cons.IH [OF n, of "wrap32 (r * 10 + digitVal c)"] Cons.prems(3,4) c
    by (subst nextDigits.simps) (simp add: nextChar_def)
qed

lemma digit_not_space: "isDigit c \<Longrightarrow> \<not> isSpace c" "isDigit c \<Longrightarrow> c \<noteq> CHR ''-''"
  by (auto simp: isDigit_def isSpace_def)

lemma showInt_Cons:
  obtains c cs where "showInt v = c # cs" "\<not> isSpace c" "c = CHR ''-'' \<longleftrightarrow> v < 0"
proof (cases "v < 0")
  case True
  then show ?thesis using that [of "CHR ''-''" "showNat (nat (- v))"] by (simp add: showInt_def isSpace_def)
next
  case False
  obtain c cs where c: "showNat (nat v) = c # cs" by (meson list.exhaust showNat_ne)
  then have "isDigit c" by (metis list.set_intros(1) showNat_digits)
  with False c digit_not_space that [of c cs] show ?thesis by (simp add: showInt_def)
qed

text \<open>\<^verbatim>\<open>nextInt\<close> reads back a printed integer, wherever the chunk boundaries are.\<close>

lemma nextInt_showInt:
  assumes ok: "br_ok b" and pend: "pending b = ws @ showInt v @ rest" and ws: "\<forall>c\<in>set ws. isSpace c" and nd: "no_digit rest"
    and v: "- (2 ^ 31) < v" "v < 2 ^ 31"
  obtains b' where "nextInt b = (v, b')" "br_ok b'" "pending b' = rest"
proof -
  define b1 where "b1 = skipSpace b"
  obtain c cs where c: "showInt v = c # cs" "\<not> isSpace c" "c = CHR ''-'' \<longleftrightarrow> v < 0" by (rule showInt_Cons)
  have "dropWhile isSpace (pending b) = showInt v @ rest"
    using ws c(1,2) unfolding pend by (simp add: dropWhile_append2)
  then have b1: "br_ok b1" "pending b1 = showInt v @ rest"
    using skipWhile_ok [OF ok, of isSpace] by (simp_all add: b1_def skipSpace_def)
  let ?n = "nat \<bar>v\<bar>"
  define b2 where "b2 = (if currentChar b1 = CHR ''-'' then consumeChar b1 else b1)"
  have s: "currentChar b1 = CHR ''-'' \<longleftrightarrow> v < 0"
    using currentChar_pending [OF b1(1), of c] b1(2) c by simp
  have b2: "br_ok b2" "pending b2 = showNat ?n @ rest"
    using b1 s consumeChar_ok [OF b1(1)] by (auto simp: b2_def showInt_def)
  obtain b3 where b3: "nextDigits 0 b2 = (int ?n, b3)" "br_ok b3" "pending b3 = rest"
    using nextDigits_ok [OF b2 _ nd, of 0] showNat_digits showNat_value [of ?n] v by auto
  have "nextInt b = (v, b3)"
    unfolding nextInt_def b1_def [symmetric] Let_def b2_def [symmetric] b3(1) prod.case
    using s v wrap32_id [of v] by simp
  with b3(2,3) that show ?thesis by blast
qed

lemma nextInt_stop:
  assumes "br_ok b" "pending b = ws @ c # rest" "\<forall>c\<in>set ws. isSpace c" "\<not> isSpace c" "\<not> isDigit c" "c \<noteq> CHR ''-''"
  obtains b' where "nextInt b = (0, b')" "br_ok b'" "pending b' = c # rest"
proof -
  have "br_ok (skipSpace b)" "pending (skipSpace b) = c # rest"
    using skipWhile_ok [OF assms(1), of isSpace] assms by (simp_all add: skipSpace_def dropWhile_append2)
  moreover from this have "nextDigits 0 (skipSpace b) = (0, skipSpace b)" "currentChar (skipSpace b) = c"
    using nextDigits_ok [of "skipSpace b" "[]" "c # rest" 0] assms(5) 
    by (auto simp: reader_simps, subst nextDigits.simps, simp add: reader_simps)
  ultimately show ?thesis using that [of "skipSpace b"] assms(6) by (simp add: nextInt_def Let_def)
qed

end
