(* ===== verification/Parsers.thy ===== *)
theory Parsers
  imports Complex_Main ProblemManager BufferRead
begin

text \<open>
  The parsers: \<^verbatim>\<open>src/src/utils/Parsing.cpp\<close>, \<^verbatim>\<open>src/src/problem/cnf/ParserDimacs.cpp\<close>,
  \<^verbatim>\<open>src/src/problem/cnf/ParserErosionDimacs.cpp\<close> and \<^verbatim>\<open>src/src/problem/qbf/ParserQDimacs.cpp\<close>. A
  parser that ends the program or throws returns an error; the main loops are partial functions, None
  when the loop does not end.

  Variables read from a list are C++ \<^verbatim>\<open>int\<close>s of either sign and are \<open>int\<close>s here; the only literals
  made have positive variables. The text of a weight is converted by parameters (\<^verbatim>\<open>std::stod\<close> and
  \<^verbatim>\<open>mpf_float\<close>), None when the conversion throws. The diagnostic output is left out, and so are the
  assertions, as in the default build.
\<close>

section \<open>Errors\<close>

datatype parseError = Exit int | NumberException | LengthError | OutOfRange

record ('a, 'd) numbers =
  ne_stod :: "string \<Rightarrow> 'd option"
  ne_mpf :: "string \<Rightarrow> 'a option"
  ne_ofDouble :: "'d \<Rightarrow> 'a"

section \<open>Weights\<close>

text \<open>An index outside the vector is undefined behaviour; it is an error here.\<close>

definition setWeight :: "int \<Rightarrow> 'a \<Rightarrow> 'a list \<Rightarrow> parseError + 'a list" where
  "setWeight i w ws = (if 0 \<le> i \<and> i < int (length ws) then Inr (ws[nat i := w]) else Inl OutOfRange)"

definition nextMpf_float :: "('a::comm_ring_1, 'd) numbers \<Rightarrow> bufferRead \<Rightarrow> ('a \<times> bufferRead) option" where
  "nextMpf_float N = nextNumber (ne_mpf N)"

text \<open>\<^verbatim>\<open>std::stod\<close> throws on an empty text.\<close>

definition nextDouble :: "('a, 'd::floor_ceiling) numbers \<Rightarrow> bufferRead \<Rightarrow> ('d \<times> bufferRead) option" where
  "nextDouble N = nextNumber (\<lambda>s. if s = [] then None else ne_stod N s)"

definition parseNextWeightedLits ::
  "('a::comm_ring_1, 'd) numbers \<Rightarrow> bufferRead \<Rightarrow> 'a list \<Rightarrow> parseError + ('a list \<times> bufferRead)" where
  "parseNextWeightedLits N b weightLit =
     (let (lit, b1) = nextInt b
      in case nextMpf_float N b1 of
           None \<Rightarrow> Inl NumberException
         | Some (w, b2) \<Rightarrow>
             (case setWeight (if lit > 0 then push_bit 1 lit else push_bit 1 (- lit) + 1) w weightLit of
                Inl e \<Rightarrow> Inl e
              | Inr ws \<Rightarrow> Inr (ws, b2)))"

lemma numberText_less:
  assumes "numberText cur b = (s, b')"
  shows "br_left b' \<le> br_left b \<and> (s \<noteq> cur \<longrightarrow> br_left b' < br_left b)"
  using assms
proof (induction cur b rule: numberText.induct)
  case (1 cur b)
  show ?case
  proof (cases "\<not> eof b \<and> isDoubleChar (currentChar b)")
    case True
    then have "numberText (cur @ [currentChar b]) (consumeChar b) = (s, b')"
      using "1.prems" by (subst (asm) numberText.simps) simp
    then show ?thesis using "1.IH" [OF True] True consumeChar_less [of b] by force
  next
    case False
    then show ?thesis using "1.prems" by (subst (asm) numberText.simps) auto
  qed
qed

lemma nextDouble_less: "nextDouble N b = Some (w, b') \<Longrightarrow> br_left b' < br_left b"
proof -
  assume a: "nextDouble N b = Some (w, b')"
  define b1 where "b1 = skipSpace b"
  define b2 where "b2 = (if currentChar b1 = CHR ''-'' then consumeChar b1 else b1)"
  obtain s b3 where t: "numberText [] b2 = (s, b3)" by fastforce
  have "s \<noteq> []" "b' = b3"
    using a t by (auto simp: nextDouble_def nextNumber_def b1_def [symmetric] b2_def [symmetric] Let_def split: if_splits)
  moreover have "br_left b2 \<le> br_left b"
    using skipWhile_le [of isSpace b] consumeChar_le [of b1] by (auto simp: b2_def b1_def skipSpace_def)
  ultimately show ?thesis using numberText_less [OF t] by auto
qed

function parseRandonVars ::
  "('a, 'd::floor_ceiling) numbers \<Rightarrow> 'd \<Rightarrow> bufferRead \<Rightarrow> 'a list \<Rightarrow> int list
     \<Rightarrow> parseError + ('a list \<times> int list \<times> bufferRead)" where
  "parseRandonVars N currentWeight b weightLit vars =
     (case nextDouble N b of
        None \<Rightarrow> Inl NumberException
      | Some (w, b') \<Rightarrow>
          if w \<ge> 1 \<and> currentWeight \<noteq> - 1
          then let v = \<lfloor>w\<rfloor>
               in case setWeight (push_bit 1 v) (ne_ofDouble N currentWeight) weightLit of
                    Inl e \<Rightarrow> Inl e
                  | Inr ws \<Rightarrow>
                      (case setWeight (push_bit 1 v + 1) (ne_ofDouble N (1 - currentWeight)) ws of
                         Inl e \<Rightarrow> Inl e
                       | Inr ws' \<Rightarrow>
                           if w \<noteq> 0 then parseRandonVars N currentWeight b' ws' (if v \<noteq> 0 then vars @ [v] else vars)
                           else Inr (ws', (if v \<noteq> 0 then vars @ [v] else vars), b'))
          else if w \<noteq> 0 then parseRandonVars N w b' weightLit vars
          else Inr (weightLit, vars, b'))"
  by pat_completeness auto

termination parseRandonVars
  by (relation "measure (\<lambda>(N, c, b, ws, vs). br_left b)") (auto simp: nextDouble_less)

declare parseRandonVars.simps [simp del]

section \<open>A clause\<close>

function readLits :: "int \<Rightarrow> bufferRead \<Rightarrow> lit list \<Rightarrow> parseError + (lit list \<times> bufferRead)" where
  "readLits nbVars b lits =
     (let (v, b') = nextInt b
      in if (v > 0 \<and> nbVars < v) \<or> (- v > 0 \<and> nbVars < - v) then Inl (Exit 3)
         else if v \<noteq> 0
         then readLits nbVars b' (lits @ [if v > 0 then makeLit (nat v) False else makeLit (nat (- v)) True])
         else Inr (lits, b'))"
  by pat_completeness auto

termination readLits
proof (relation "measure (\<lambda>(n, b, l). br_left b)")
  fix nbVars b lits x v b'
  assume "x = nextInt b" "(v, b') = x" "v \<noteq> (0::int)"
  then show "((nbVars, b', lits @ [if v > 0 then makeLit (nat v) False else makeLit (nat (- v)) True]), nbVars, b, lits)
      \<in> measure (\<lambda>(n, b, l). br_left b)"
    using nextInt_less(2) [of b v b'] by simp
qed simp

declare readLits.simps [simp del]

text \<open>
  The loop over the sorted literals that removes the copies and looks for a tautology; \<open>kept\<close> is
  \<^verbatim>\<open>lits[0..j-1]\<close>. The loop starts behind the first literal, and the literals are resized to
  \<^verbatim>\<open>j = 1\<close> even when there is none, which makes a literal of value 0.
\<close>

fun removeRedundant :: "lit list \<Rightarrow> lit list \<Rightarrow> lit list \<times> bool" where
  "removeRedundant kept [] = (kept, False)"
| "removeRedundant kept (l # ls) =
     (if l = last kept then removeRedundant kept ls
      else if l = neg (last kept) then (kept @ [l], True)
      else removeRedundant (kept @ [l]) ls)"

definition cleanClause :: "lit list \<Rightarrow> lit list \<times> bool" where
  "cleanClause lits =
     (case sort lits of [] \<Rightarrow> ([Lit 0], False) | l # ls \<Rightarrow> removeRedundant [l] ls)"

definition addClause :: "lit list \<Rightarrow> clause list \<Rightarrow> clause list" where
  "addClause lits clauses =
     (let (cl, isSat) = cleanClause lits in if isSat then clauses else clauses @ [cl])"

section \<open>DIMACS\<close>

record 'a parser =
  pa_in :: bufferRead
  pa_nbVars :: int
  pa_nbClauses :: int
  pa_cpt :: nat
  pa_previousChar :: char
  pa_weightLit :: "'a list"
  pa_clauses :: "clause list"
  pa_selected :: "int list"
  pa_maxVar :: "int list"
  pa_indVar :: "int list"

definition resize_with :: "nat \<Rightarrow> 'a \<Rightarrow> 'a list \<Rightarrow> 'a list" where
  "resize_with n x xs = take n xs @ replicate (n - length xs) x"

text \<open>The test \<^verbatim>\<open>nextChar() != 'c' || nextChar() != 'n' || nextChar() != 'f'\<close>.\<close>

primrec expectChars :: "string \<Rightarrow> bufferRead \<Rightarrow> bufferRead option" where
  "expectChars [] b = Some b"
| "expectChars (c # cs) b = (if fst (nextChar b) \<noteq> c then None else expectChars cs (snd (nextChar b)))"

definition dimacsHeader :: "'a::comm_ring_1 parser \<Rightarrow> parseError + 'a parser" where
  "dimacsHeader st =
     (let b1 = skipSpace (consumeChar (pa_in st));
          vpActivated = (currentChar b1 = CHR ''p'');
          b2 = (if vpActivated then consumeChar b1 else b1);
          b3 = (if currentChar b2 = CHR ''w'' then consumeChar b2 else b2)
      in case expectChars ''cnf'' b3 of
           None \<Rightarrow> Inl (Exit 3)
         | Some b4 \<Rightarrow>
             let (nbVars, b5) = nextInt b4;
                 (nbClauses, b6) = nextInt b5;
                 b7 = (if vpActivated then snd (nextInt b6) else b6)
             in if nbVars < - 1 then Inl LengthError
                else if nbClauses < 0 then Inl (Exit 2)
                else Inr (st\<lparr>pa_in := b7, pa_nbVars := nbVars, pa_nbClauses := nbClauses,
                             pa_weightLit := resize_with (nat (push_bit 1 (nbVars + 1))) 1 (pa_weightLit st)\<rparr>))"

definition nextBlock :: "char \<Rightarrow> 'a parser \<Rightarrow> 'a parser" where
  "nextBlock c st =
     (if pa_previousChar st \<noteq> c then st\<lparr>pa_cpt := pa_cpt st + 1, pa_previousChar := c\<rparr> else st)"

definition dimacsExist :: "'a parser \<Rightarrow> 'a parser" where
  "dimacsExist st0 =
     (let st = nextBlock (CHR ''e'') (st0\<lparr>pa_in := consumeChar (pa_in st0)\<rparr>);
          (vars, b) = readListIntTerminatedByZero (pa_in st) []
      in st\<lparr>pa_in := b, pa_maxVar := (if pa_cpt st = 1 then pa_maxVar st @ vars else pa_maxVar st)\<rparr>)"

definition dimacsRandom ::
  "('a::comm_ring_1, 'd::floor_ceiling) numbers \<Rightarrow> 'a parser \<Rightarrow> parseError + 'a parser" where
  "dimacsRandom N st0 =
     (let st = nextBlock (CHR ''r'') (st0\<lparr>pa_in := consumeChar (pa_in st0)\<rparr>)
      in case parseRandonVars N (- 1) (pa_in st) (pa_weightLit st) [] of
           Inl e \<Rightarrow> Inl e
         | Inr (ws, vars, b) \<Rightarrow>
             Inr (st\<lparr>pa_in := skipLine b, pa_weightLit := ws, pa_indVar := pa_indVar st @ vars\<rparr>))"

definition dimacsSelected :: "bufferRead \<Rightarrow> 'a parser \<Rightarrow> 'a parser" where
  "dimacsSelected b st =
     (let (vars, b') = readListIntTerminatedByZero b (pa_selected st)
      in st\<lparr>pa_in := b', pa_selected := vars\<rparr>)"

definition dimacsWeight ::
  "('a::comm_ring_1, 'd::floor_ceiling) numbers \<Rightarrow> bufferRead \<Rightarrow> 'a parser \<Rightarrow> parseError + 'a parser" where
  "dimacsWeight N b st =
     (case parseNextWeightedLits N b (pa_weightLit st) of
        Inl e \<Rightarrow> Inl e
      | Inr (ws, b') \<Rightarrow> Inr (st\<lparr>pa_in := b', pa_weightLit := ws\<rparr>))"

definition dimacsComment ::
  "('a::comm_ring_1, 'd::floor_ceiling) numbers \<Rightarrow> 'a parser \<Rightarrow> parseError + 'a parser" where
  "dimacsComment N st =
     (let b1 = skipSimpleSpace (consumeChar (pa_in st))
      in if currentChar b1 = CHR ''t'' then Inr (st\<lparr>pa_in := skipLine (consumeChar b1)\<rparr>)
         else if currentChar b1 \<noteq> CHR ''p''
         then let (isMax, b2) = canConsume ''max'' b1
              in if isMax
                 then let (vars, b3) = readListIntTerminatedByZero b2 (pa_maxVar st)
                      in Inr (st\<lparr>pa_in := b3, pa_maxVar := vars\<rparr>)
                 else let (isInd, b3) = canConsume ''ind'' b2
                      in if isInd
                         then let (vars, b4) = readListIntTerminatedByZero b3 (pa_indVar st)
                              in Inr (st\<lparr>pa_in := b4, pa_indVar := vars\<rparr>)
                         else Inr (st\<lparr>pa_in := skipLine b3\<rparr>)
         else let (isWeight, b2) = canConsume ''weight'' (consumeChar b1)
              in if isWeight
                 then (case dimacsWeight N b2 st of
                         Inl e \<Rightarrow> Inl e
                       | Inr st' \<Rightarrow> Inr (st'\<lparr>pa_in := snd (nextInt (pa_in st'))\<rparr>))
                 else let (isShow, b3) = canConsume ''show'' b2
                      in if isShow then Inr (dimacsSelected b3 st) else Inr (st\<lparr>pa_in := skipLine b3\<rparr>))"

definition dimacsClause :: "'a parser \<Rightarrow> parseError + 'a parser" where
  "dimacsClause st =
     (case readLits (pa_nbVars st) (pa_in st) [] of
        Inl e \<Rightarrow> Inl e
      | Inr (lits, b) \<Rightarrow> Inr (st\<lparr>pa_in := b, pa_clauses := addClause lits (pa_clauses st)\<rparr>))"

text \<open>One turn of the loop of \<^verbatim>\<open>parse_DIMACS_main\<close>; the flag tells whether it goes on.\<close>

definition dimacsLine ::
  "('a::comm_ring_1, 'd::floor_ceiling) numbers \<Rightarrow> 'a parser \<Rightarrow> parseError + ('a parser \<times> bool)" where
  "dimacsLine N st0 =
     (let st = st0\<lparr>pa_in := skipSpace (pa_in st0)\<rparr>;
          b = pa_in st; c = currentChar b
      in if eof b then Inr (st, False)
         else if c = CHR ''p'' then map_sum id (\<lambda>s. (s, True)) (dimacsHeader st)
         else if c = CHR ''e'' then Inr (dimacsExist st, True)
         else if c = CHR ''r'' then map_sum id (\<lambda>s. (s, True)) (dimacsRandom N st)
         else if c = CHR ''z'' then Inr (st, False)
         else if c = CHR ''v'' then Inr (dimacsSelected (consumeChar (consumeChar b)) st, True)
         else if c = CHR ''w'' then map_sum id (\<lambda>s. (s, True)) (dimacsWeight N (skipSpace (consumeChar b)) st)
         else if c = CHR ''c'' then map_sum id (\<lambda>s. (s, True)) (dimacsComment N st)
         else map_sum id (\<lambda>s. (s, True)) (dimacsClause st))"

partial_function (option) parse_DIMACS_main ::
  "('a::comm_ring_1, 'd::floor_ceiling) numbers \<Rightarrow> 'a parser \<Rightarrow> (parseError + 'a parser) option" where
  "parse_DIMACS_main N st =
     (case dimacsLine N st of
        Inl e \<Rightarrow> Some (Inl e)
      | Inr (st', cont) \<Rightarrow> if cont then parse_DIMACS_main N st' else Some (Inr st'))"

definition newParser :: "bufferRead \<Rightarrow> 'a parser" where
  "newParser b = \<lparr>pa_in = b, pa_nbVars = 0, pa_nbClauses = 0, pa_cpt = 0, pa_previousChar = CHR 0x00,
     pa_weightLit = [], pa_clauses = [], pa_selected = [], pa_maxVar = [], pa_indVar = []\<rparr>"

definition parse_DIMACS ::
  "('a::comm_ring_1, 'd::floor_ceiling) numbers \<Rightarrow> string \<Rightarrow> string list \<Rightarrow> (parseError + 'a parser) option" where
  "parse_DIMACS N junk fd = parse_DIMACS_main N (newParser (newBufferRead junk fd))"

text \<open>The constructors of \<^verbatim>\<open>ProblemManagerCnf\<close> that parse: the weights of the variables and the order.\<close>

definition problemOfParser :: "'a::comm_ring_1 parser \<Rightarrow> 'a problem" where
  "problemOfParser st = initWeights
     \<lparr>m_nbVar = nat (pa_nbVars st), m_weightLit = pa_weightLit st, m_weightVar = [],
      m_selected = map nat (pa_selected st), m_maxVar = map nat (pa_maxVar st), m_indVar = map nat (pa_indVar st),
      m_order = [], m_isUnsat = False, m_clauses = pa_clauses st\<rparr>"

end
