(* ===== verification/ParserCorrect.thy ===== *)
theory ParserCorrect
  imports Parsers
begin

text \<open>
  What the DIMACS parser does: the clauses it keeps are sorted, without copies and equivalent to the
  clauses read; a printed formula is read back, however the reads cut the file; and a character that
  starts no line makes the loop run for ever.
\<close>

section \<open>Cleaning a clause\<close>

definition taut :: "lit set \<Rightarrow> bool" where "taut C \<longleftrightarrow> (\<exists>l\<in>C. neg l \<in> C)"

lemma lit_le_m_x: "(l \<le> l') = (m_x l \<le> m_x l')" "(l < l') = (m_x l < m_x l')"
  by (simp_all add: less_eq_lit_def less_lit_def)

text \<open>In a sorted list the only literal between \<open>x\<close> and its larger negation is \<open>x\<close> itself.\<close>

lemma same_var_adjacent:
  assumes "x \<le> y" "y < l" "var x = var l"
  shows "y = x \<and> l = neg x"
proof -
  have "m_x x div 2 = m_x l div 2" "m_x x \<le> m_x y" "m_x y < m_x l"
    using assms by (simp_all add: lit_le_m_x var_div2)
  then have "m_x y = m_x x" "var x = var l" "l \<noteq> x" by (auto simp: var_div2)
  then show ?thesis using same_var_cases [of x l] lit.expand by blast
qed

definition clean :: "lit list \<Rightarrow> bool" where
  "clean c \<longleftrightarrow> sorted_wrt (<) c \<and> distinct (map var c)"

lemma removeRedundant_ok:
  assumes "clean kept" "kept \<noteq> []" "sorted (kept @ ls)" "removeRedundant kept ls = (r, isSat)"
  shows "if isSat then taut (set (kept @ ls)) else set r = set (kept @ ls) \<and> clean r"
  using assms
proof (induction ls arbitrary: kept)
  case (Cons l ls)
  let ?y = "last kept"
  have y: "?y \<in> set kept" "?y \<le> l" using Cons.prems(2,3) by (auto simp: sorted_append)
  consider "l = ?y" | "l = neg ?y" | "l \<noteq> ?y" "l \<noteq> neg ?y" by blast
  then show ?case
  proof cases
    case 1
    have "sorted (kept @ ls)" using Cons.prems(3) by (auto simp: sorted_append)
    moreover have "removeRedundant kept ls = (r, isSat)" using 1 Cons.prems(4) by simp
    moreover have e: "set (kept @ l # ls) = set (kept @ ls)" using 1 y(1) by auto
    ultimately show ?thesis unfolding e using Cons.IH [OF Cons.prems(1,2)] by blast
  next
    case 2
    then show ?thesis using Cons.prems(4) y(1) by (cases "l = ?y") (auto simp: taut_def intro!: bexI [of _ l])
  next
    case 3
    have up: "x \<le> ?y" if "x \<in> set kept" for x
      by (rule sorted_last_ge [OF _ that]) (use Cons.prems(3) in \<open>simp add: sorted_append\<close>)
    have lt: "?y < l" using y(2) 3(1) by simp
    have "var x \<noteq> var l" if "x \<in> set kept" for x using same_var_adjacent [OF up [OF that] lt] 3(2) by auto
    moreover have "\<forall>x\<in>set kept. x < l" using up lt by (auto intro: le_less_trans)
    ultimately have "clean (kept @ [l])" using Cons.prems(1) by (force simp: clean_def sorted_wrt_append)
    moreover have "sorted ((kept @ [l]) @ ls)" "removeRedundant (kept @ [l]) ls = (r, isSat)"
      using Cons.prems(3,4) 3 by simp_all
    ultimately show ?thesis using Cons.IH [of "kept @ [l]"] unfolding append_assoc append.simps by blast
  qed
qed (auto split: if_splits)

lemma cleanClause_ok:
  assumes "lits \<noteq> []" "cleanClause lits = (cl, isSat)"
  shows "if isSat then taut (set lits) else set cl = set lits \<and> clean cl"
proof -
  obtain l ls where s: "sort lits = l # ls" using assms(1) by (metis list.exhaust set_empty set_sort)
  have r: "clean [l]" "sorted ([l] @ ls)" "removeRedundant [l] ls = (cl, isSat)"
    using assms(2) s sorted_sort [of lits] by (simp_all add: clean_def cleanClause_def)
  have e: "set ([l] @ ls) = set lits" using s by (metis append_Cons append_Nil set_sort)
  show ?thesis using removeRedundant_ok [OF r(1) _ r(2,3)] unfolding e by simp
qed

lemma taut_holds: "taut (set c) \<Longrightarrow> clause_holds s c"
  unfolding clause_holds_def taut_def using lit_holds_neg by blast

lemma addClause_sem:
  assumes "lits \<noteq> []"
  shows "cnf_holds s (addClause lits F) \<longleftrightarrow> clause_holds s lits \<and> cnf_holds s F"
proof -
  obtain cl isSat where c: "cleanClause lits = (cl, isSat)" by fastforce
  have "isSat \<Longrightarrow> clause_holds s lits" "\<not> isSat \<Longrightarrow> clause_holds s cl = clause_holds s lits"
    using cleanClause_ok [OF assms c] taut_holds by (auto simp: clause_holds_def)
  then show ?thesis by (auto simp: addClause_def c cnf_holds_def)
qed

lemma addClause_clean:
  assumes "lits \<noteq> []" "\<forall>l\<in>set lits. 1 \<le> var l \<and> var l \<le> n" "cnf_ok n F"
  shows "cnf_ok n (addClause lits F)"
proof -
  obtain cl isSat where c: "cleanClause lits = (cl, isSat)" by fastforce
  have "\<not> isSat \<Longrightarrow> clause_ok n cl"
    using cleanClause_ok [OF assms(1) c] assms(1,2) by (auto simp: clause_ok_def clean_def simp flip: set_empty)
  then show ?thesis using assms(3) by (auto simp: addClause_def c cnf_ok_def)
qed

text \<open>A clause that is clean already is kept as it is.\<close>

lemma removeRedundant_clean: "clean (kept @ ls) \<Longrightarrow> kept \<noteq> [] \<Longrightarrow> removeRedundant kept ls = (kept @ ls, False)"
proof (induction ls arbitrary: kept)
  case (Cons l ls)
  have "var (last kept) \<in> var ` set kept" using last_in_set [OF Cons.prems(2)] by (rule imageI)
  then have "var (last kept) \<noteq> var l" using Cons.prems(1) by (auto simp: clean_def)
  then show ?case using Cons by auto
qed simp

lemma addClause_id:
  assumes "clean c" "c \<noteq> []"
  shows "addClause c F = F @ [c]"
proof -
  have "sort c = c" using assms(1) by (auto simp: clean_def strict_sorted_imp_sorted sorted_sort_id)
  moreover obtain l ls where "c = l # ls" using assms(2) by (cases c) auto
  ultimately show ?thesis
    using removeRedundant_clean [of "[l]" ls] assms(1) by (simp add: addClause_def cleanClause_def)
qed

section \<open>A character that starts no line\<close>

definition stuckChar :: "char \<Rightarrow> bool" where
  "stuckChar c \<longleftrightarrow> \<not> isSpace c \<and> \<not> isDigit c \<and> c \<notin> set ''-perzvwc''"

lemma readLits_stop:
  assumes "br_ok b" "pending b = c # rest" "\<not> isSpace c" "\<not> isDigit c" "c \<noteq> CHR ''-''"
  obtains b' where "readLits n b lits = Inr (lits, b')" "br_ok b'" "pending b' = c # rest"
proof -
  obtain b' where b': "nextInt b = (0, b')" "br_ok b'" "pending b' = c # rest"
    by (rule nextInt_stop [OF assms(1), of "[]" c rest]) (use assms in simp_all)
  have "readLits n b lits = Inr (lits, b')" by (subst readLits.simps) (simp add: b'(1))
  with b' that show ?thesis by blast
qed

lemma stuck_line:
  assumes "br_ok (pa_in st)" "pending (pa_in st) = ws @ c # rest" "\<forall>c\<in>set ws. isSpace c" "stuckChar c"
  obtains st' where "dimacsLine N st = Inr (st', True)" "br_ok (pa_in st')" "pending (pa_in st') = c # rest"
proof -
  let ?b = "skipSpace (pa_in st)"
  have c: "\<not> isSpace c" "\<not> isDigit c" "c \<notin> set ''-perzvwc''" using assms(4) by (simp_all add: stuckChar_def)
  have b: "br_ok ?b" "pending ?b = c # rest"
    using skipWhile_ok [OF assms(1), of isSpace] assms(2,3) c(1) by (simp_all add: skipSpace_def dropWhile_append2)
  have s: "currentChar ?b = c" "\<not> eof ?b" using b by (simp_all add: reader_simps)
  obtain b' where b': "readLits (pa_nbVars st) ?b [] = Inr ([], b')" "br_ok b'" "pending b' = c # rest"
    using readLits_stop [OF b c(1,2)] c(3) by auto
  have "c \<noteq> CHR ''p''" "c \<noteq> CHR ''e''" "c \<noteq> CHR ''r''" "c \<noteq> CHR ''z''" "c \<noteq> CHR ''v''" "c \<noteq> CHR ''w''" "c \<noteq> CHR ''c''"
    using c(3) by simp_all
  then have "dimacsLine N st = Inr (st\<lparr>pa_in := b', pa_clauses := addClause [] (pa_clauses st)\<rparr>, True)"
    unfolding dimacsLine_def Let_def dimacsClause_def by (simp add: s b'(1))
  then show ?thesis using that b'(2,3) by simp
qed

text \<open>Nothing is consumed, so the loop does not end; each turn adds a clause.\<close>

lemma stuck_loop:
  assumes "br_ok (pa_in st)" "pending (pa_in st) = ws @ c # rest" "\<forall>c\<in>set ws. isSpace c" "stuckChar c"
  shows "parse_DIMACS_main N st = None"
proof -
  let ?P = "\<lambda>N st r. \<forall>ws. br_ok (pa_in st) \<longrightarrow> pending (pa_in st) = ws @ c # rest \<longrightarrow>
      (\<forall>c\<in>set ws. isSpace c) \<longrightarrow> \<not> stuckChar c"
  have False if e: "parse_DIMACS_main N st = Some r" for r
  proof -
    have "?P N st r"
    proof (rule parse_DIMACS_main.raw_induct [of ?P, OF _ e], intro allI impI notI)
      fix main N st r ws
      assume ih: "\<And>N st r. main N st = Some r \<Longrightarrow> ?P N st r"
        and s: "(case dimacsLine N st of Inl e \<Rightarrow> Some (Inl e)
          | Inr (st', cont) \<Rightarrow> if cont then main N st' else Some (Inr st')) = Some r"
        and st: "br_ok (pa_in st)" "pending (pa_in st) = ws @ c # rest" "\<forall>c\<in>set ws. isSpace c" "stuckChar c"
      obtain st' where "dimacsLine N st = Inr (st', True)" "br_ok (pa_in st')" "pending (pa_in st') = c # rest"
        using stuck_line [OF st] by metis
      with s ih [of N st' r] st(4) show False by (auto dest: spec [of _ "[]"])
    qed
    then show False using assms by blast
  qed
  then show ?thesis by (cases "parse_DIMACS_main N st") auto
qed

section \<open>Reading a printed formula\<close>

text \<open>
  The text of a formula, as the last part of \<^verbatim>\<open>ProblemManagerCnf::display\<close> and
  \<^verbatim>\<open>operator<<\<close> of \<^verbatim>\<open>Lit\<close> write it.
\<close>

definition newline :: string where "newline = [CHR 0x0A]"

definition showLits :: "lit list \<Rightarrow> string" where
  "showLits c = concat (map (\<lambda>l. showInt (human l) @ '' '') c)"

definition showClause :: "clause \<Rightarrow> string" where
  "showClause c = showLits c @ ''0'' @ newline"

definition displayFormula :: "nat \<Rightarrow> cnf \<Rightarrow> string" where
  "displayFormula n F = ''p cnf '' @ showNat n @ '' '' @ showNat (length F) @ newline @ concat (map showClause F)"

definition spaces :: "string \<Rightarrow> bool" where "spaces ws \<longleftrightarrow> (\<forall>c\<in>set ws. isSpace c)"

lemma spaces_simps [simp]: "spaces []" "spaces (c # ws) \<longleftrightarrow> isSpace c \<and> spaces ws"
  "spaces (ws @ vs) \<longleftrightarrow> spaces ws \<and> spaces vs" "spaces newline" "isSpace CHR '' ''"
  by (auto simp: spaces_def newline_def isSpace_def)

lemma no_digit_simps [simp]: "no_digit []" "no_digit (c # s) \<longleftrightarrow> \<not> isDigit c" "no_digit (newline @ s)"
  "\<not> isDigit CHR '' ''"
  by (simp_all add: no_digit_def newline_def isDigit_def)

lemma human_lit: "human l = (if sign l then - int (var l) else int (var l))"
  by (simp add: human_def sign_def)

lemma showInt_0: "showInt 0 = ''0''"
  by code_simp

lemma showInt_nat: "showInt (int n) = showNat n"
  by (simp add: showInt_def)

lemma nextInt_reads:
  assumes "br_ok b" "pending b = ws @ showInt v @ rest" "spaces ws" "no_digit rest" "\<bar>v\<bar> < 2 ^ 31"
  obtains b' where "nextInt b = (v, b')" "br_ok b'" "pending b' = rest"
  by (rule nextInt_showInt [OF assms(1,2) _ assms(4)]) (use assms(3,5) in \<open>auto simp: spaces_def\<close>)

definition lits_in :: "nat \<Rightarrow> lit list \<Rightarrow> bool" where
  "lits_in n c \<longleftrightarrow> (\<forall>l\<in>set c. 1 \<le> var l \<and> var l \<le> n)"

lemma readLits_shown:
  assumes "br_ok b" "pending b = ws @ showLits c @ ''0'' @ rest" "spaces ws" "no_digit rest" "lits_in n c" "n < 2 ^ 31"
  shows "\<exists>b'. readLits (int n) b acc = Inr (acc @ c, b') \<and> br_ok b' \<and> pending b' = rest"
  using assms(1-3,5)
proof (induction c arbitrary: acc b ws)
  case Nil
  obtain b' where b': "nextInt b = (0, b')" "br_ok b'" "pending b' = rest"
    by (rule nextInt_reads [OF Nil.prems(1) _ Nil.prems(3) assms(4), of 0])
      (use Nil.prems(2) in \<open>simp_all add: showLits_def showInt_0\<close>)
  then show ?case by (subst readLits.simps) simp
next
  case (Cons l c)
  have v: "1 \<le> var l" "var l \<le> n" "lits_in n c" using Cons.prems(4) by (simp_all add: lits_in_def)
  obtain b1 where b1: "nextInt b = (human l, b1)" "br_ok b1" "pending b1 = '' '' @ showLits c @ ''0'' @ rest"
    by (rule nextInt_reads [OF Cons.prems(1) _ Cons.prems(3), of "human l" "'' '' @ showLits c @ ''0'' @ rest"])
      (use Cons.prems(2) v assms(6) in \<open>auto simp: showLits_def human_lit\<close>)
  have l: "(if human l > 0 then makeLit (nat (human l)) False else makeLit (nat (- human l)) True) = l" "human l \<noteq> 0"
    "\<not> (human l > 0 \<and> int n < human l)" "\<not> (- human l > 0 \<and> int n < - human l)"
    using v by (auto simp: human_lit lit_eq_iff)
  have "readLits (int n) b acc = readLits (int n) b1 (acc @ [l])"
    by (subst readLits.simps) (simp only: b1(1) Let_def prod.case l simp_thms if_True if_False)
  then show ?case using Cons.IH [OF b1(2,3) _ v(3), of "acc @ [l]"] by simp
qed

lemma expectChars_ok:
  "br_ok b \<Longrightarrow> pending b = s @ rest \<Longrightarrow> \<exists>b'. expectChars s b = Some b' \<and> br_ok b' \<and> pending b' = rest"
proof (induction s arbitrary: b)
  case (Cons c s)
  have "currentChar b = c" using Cons.prems by (simp add: reader_simps)
  moreover have "br_ok (consumeChar b)" "pending (consumeChar b) = s @ rest"
    using consumeChar_ok [OF Cons.prems(1)] Cons.prems(2) by simp_all
  ultimately show ?case using Cons.IH by (simp add: nextChar_def)
qed simp

lemma skipSpace_ok:
  assumes "br_ok b" "pending b = ws @ rest" "spaces ws" "rest \<noteq> [] \<Longrightarrow> \<not> isSpace (hd rest)"
  shows "br_ok (skipSpace b)" "pending (skipSpace b) = rest"
proof -
  have "dropWhile isSpace (ws @ rest) = rest"
    using assms(3,4) by (cases rest) (auto simp: spaces_def dropWhile_append2)
  then show "br_ok (skipSpace b)" "pending (skipSpace b) = rest"
    using skipWhile_ok [OF assms(1), of isSpace] assms(2) by (simp_all add: skipSpace_def)
qed

lemma showLits_head:
  assumes "c \<noteq> []"
  obtains h r where "showLits c @ s = h # r" "isDigit h \<or> h = CHR ''-''"
proof -
  obtain l ls where c: "c = l # ls" using assms by (cases c) auto
  obtain h r where h: "showInt (human l) = h # r" by (rule showInt_Cons)
  moreover from this have "isDigit h \<or> h = CHR ''-''"
    using showNat_digits by (auto simp: showInt_def split: if_splits) (metis list.set_intros(1))
  ultimately show ?thesis using that by (simp add: c showLits_def)
qed

lemma digit_no_keyword:
  "isDigit h \<or> h = CHR ''-'' \<Longrightarrow> \<not> isSpace h \<and> h \<noteq> CHR ''p'' \<and> h \<noteq> CHR ''e'' \<and> h \<noteq> CHR ''r'' \<and> h \<noteq> CHR ''z''
     \<and> h \<noteq> CHR ''v'' \<and> h \<noteq> CHR ''w'' \<and> h \<noteq> CHR ''c'' \<and> h \<noteq> CHR ''a'' \<and> h \<noteq> CHR ''t''"
  by (auto simp: isDigit_def isSpace_def)

lemma dimacs_end:
  assumes "br_ok (pa_in st)" "pending (pa_in st) = ws" "spaces ws"
  shows "\<exists>b. dimacsLine N st = Inr (st\<lparr>pa_in := b\<rparr>, False)"
  using skipSpace_ok [of "pa_in st" ws "[]"] assms by (auto simp: dimacsLine_def Let_def eof_pending)

lemma dimacs_clause:
  assumes "br_ok (pa_in st)" "pending (pa_in st) = ws @ showClause c @ rest" "spaces ws"
    and "c \<noteq> []" "lits_in n c" "n < 2 ^ 31" "pa_nbVars st = int n"
  shows "\<exists>b. dimacsLine N st = Inr (st\<lparr>pa_in := b, pa_clauses := addClause c (pa_clauses st)\<rparr>, True)
    \<and> br_ok b \<and> pending b = newline @ rest"
proof -
  obtain h r where h: "showClause c @ rest = h # r" "isDigit h \<or> h = CHR ''-''"
    using showLits_head [OF assms(4), of "''0'' @ newline @ rest"] by (auto simp: showClause_def)
  note k = digit_no_keyword [OF h(2)]
  let ?b = "skipSpace (pa_in st)"
  have b: "br_ok ?b" "pending ?b = showClause c @ rest"
    using skipSpace_ok [OF assms(1-3)] h(1) k by simp_all
  have s: "currentChar ?b = h" "\<not> eof ?b" using b h(1) by (simp_all add: reader_simps)
  obtain b' where b': "readLits (int n) ?b [] = Inr (c, b')" "br_ok b'" "pending b' = newline @ rest"
    using readLits_shown [OF b(1), of "[]" c "newline @ rest" n "[]"] b(2) assms(5,6) by (auto simp: showClause_def)
  have "dimacsLine N st = Inr (st\<lparr>pa_in := b', pa_clauses := addClause c (pa_clauses st)\<rparr>, True)"
    unfolding dimacsLine_def Let_def dimacsClause_def using k by (simp add: s b'(1) assms(7))
  with b'(2,3) show ?thesis by blast
qed

lemma dimacs_header:
  assumes "br_ok (pa_in st)" "pending (pa_in st) = ''p cnf '' @ showNat n @ '' '' @ showNat m @ newline @ rest"
    and "n < 2 ^ 31" "m < 2 ^ 31" "pa_weightLit st = []"
  shows "\<exists>b. dimacsLine N st = Inr (st\<lparr>pa_in := b, pa_nbVars := int n, pa_nbClauses := int m,
      pa_weightLit := replicate (2 * (n + 1)) 1\<rparr>, True) \<and> br_ok b \<and> pending b = newline @ rest"
proof -
  let ?b = "skipSpace (pa_in st)"
  have b: "br_ok ?b" "pending ?b = ''p cnf '' @ showNat n @ '' '' @ showNat m @ newline @ rest"
    using skipSpace_ok [OF assms(1), of "[]"] assms(2) by (simp_all add: isSpace_def)
  have s: "currentChar ?b = CHR ''p''" "\<not> eof ?b" using b by (simp_all add: reader_simps)
  define b1 where "b1 = skipSpace (consumeChar ?b)"
  have b1: "br_ok b1" "pending b1 = ''cnf'' @ '' '' @ showNat n @ '' '' @ showNat m @ newline @ rest"
    using skipSpace_ok [of "consumeChar ?b" "'' ''" "''cnf'' @ '' '' @ showNat n @ '' '' @ showNat m @ newline @ rest"]
      consumeChar_ok [OF b(1)] b(2) by (simp_all add: b1_def isSpace_def)
  have c1: "currentChar b1 = CHR ''c''" using b1 by (simp add: reader_simps)
  obtain b2 where b2: "expectChars ''cnf'' b1 = Some b2" "br_ok b2" "pending b2 = '' '' @ showNat n @ '' '' @ showNat m @ newline @ rest"
    using expectChars_ok [OF b1] by blast
  obtain b3 where b3: "nextInt b2 = (int n, b3)" "br_ok b3" "pending b3 = '' '' @ showNat m @ newline @ rest"
    by (rule nextInt_reads [OF b2(2), of "'' ''" "int n" "'' '' @ showNat m @ newline @ rest"])
      (use b2(3) assms(3) in \<open>simp_all add: showInt_nat\<close>)
  obtain b4 where b4: "nextInt b3 = (int m, b4)" "br_ok b4" "pending b4 = newline @ rest"
    by (rule nextInt_reads [OF b3(2), of "'' ''" "int m" "newline @ rest"])
      (use b3(3) assms(4) in \<open>simp_all add: showInt_nat\<close>)
  have p: "nat (push_bit 1 (int n + 1)) = 2 * (n + 1)" by (simp add: push_bit_eq_mult nat_add_distrib nat_mult_distrib)
  have "dimacsHeader (st\<lparr>pa_in := ?b\<rparr>) = Inr (st\<lparr>pa_in := b4, pa_nbVars := int n, pa_nbClauses := int m,
      pa_weightLit := replicate (2 * (n + 1)) 1\<rparr>)"
    by (simp add: dimacsHeader_def Let_def b1_def [symmetric] c1 b2(1) b3(1) b4(1) assms(5) resize_with_def p
        del: replicate_Suc expectChars.simps)
  then have "dimacsLine N st = Inr (st\<lparr>pa_in := b4, pa_nbVars := int n, pa_nbClauses := int m,
      pa_weightLit := replicate (2 * (n + 1)) 1\<rparr>, True)"
    by (simp add: dimacsLine_def Let_def s del: replicate_Suc)
  with b4(2,3) show ?thesis by blast
qed

lemma parse_shown:
  assumes "br_ok (pa_in st)" "pending (pa_in st) = ws @ concat (map showClause F)" "spaces ws"
    and "\<forall>c\<in>set F. c \<noteq> [] \<and> lits_in n c" "n < 2 ^ 31" "pa_nbVars st = int n"
  shows "\<exists>b. parse_DIMACS_main N st =
    Some (Inr (st\<lparr>pa_in := b, pa_clauses := foldl (\<lambda>cls c. addClause c cls) (pa_clauses st) F\<rparr>))"
  using assms
proof (induction F arbitrary: st ws)
  case Nil
  then obtain b where "dimacsLine N st = Inr (st\<lparr>pa_in := b\<rparr>, False)" using dimacs_end [of st ws N] by auto
  then show ?case by (subst parse_DIMACS_main.simps) (simp, blast)
next
  case (Cons c F)
  obtain b where b: "dimacsLine N st = Inr (st\<lparr>pa_in := b, pa_clauses := addClause c (pa_clauses st)\<rparr>, True)"
    "br_ok b" "pending b = newline @ concat (map showClause F)"
    using dimacs_clause [OF Cons.prems(1) _ Cons.prems(3), of c _ n N] Cons.prems(2,4-6) by auto
  let ?st = "st\<lparr>pa_in := b, pa_clauses := addClause c (pa_clauses st)\<rparr>"
  have "parse_DIMACS_main N st = parse_DIMACS_main N ?st" by (subst parse_DIMACS_main.simps) (simp add: b(1))
  then show ?case using Cons.IH [of ?st newline] b(2,3) Cons.prems(4-6) by simp
qed

lemma parse_displayFormula:
  assumes "length junk = BUFFER_SIZE" "chunks_ok fd" "concat fd = displayFormula n F"
    and "\<forall>c\<in>set F. c \<noteq> [] \<and> lits_in n c" "n < 2 ^ 31" "length F < 2 ^ 31"
  shows "\<exists>b. parse_DIMACS N junk fd = Some (Inr \<lparr>pa_in = b, pa_nbVars = int n, pa_nbClauses = int (length F),
    pa_cpt = 0, pa_previousChar = CHR 0x00, pa_weightLit = replicate (2 * (n + 1)) 1,
    pa_clauses = foldl (\<lambda>cls c. addClause c cls) [] F, pa_selected = [], pa_maxVar = [], pa_indVar = []\<rparr>)"
proof -
  let ?st = "newParser (newBufferRead junk fd)"
  have "br_ok (pa_in ?st)" "pending (pa_in ?st) = displayFormula n F"
    using newBufferRead_ok [OF assms(1,2)] assms(3) by (simp_all add: newParser_def)
  then obtain b where b: "dimacsLine N ?st = Inr (?st\<lparr>pa_in := b, pa_nbVars := int n, pa_nbClauses := int (length F),
      pa_weightLit := replicate (2 * (n + 1)) 1\<rparr>, True)" "br_ok b" "pending b = newline @ concat (map showClause F)"
    using dimacs_header [of ?st n "length F"] assms(5,6) by (auto simp: displayFormula_def newParser_def)
  let ?st1 = "?st\<lparr>pa_in := b, pa_nbVars := int n, pa_nbClauses := int (length F),
      pa_weightLit := replicate (2 * (n + 1)) 1\<rparr>"
  have "parse_DIMACS N junk fd = parse_DIMACS_main N ?st1"
    unfolding parse_DIMACS_def by (subst parse_DIMACS_main.simps) (simp only: b(1) sum.case prod.case if_True)
  then show ?thesis using parse_shown [of ?st1 newline F n N] b(2,3) assms(4,5)
    by (simp add: newParser_def del: replicate_Suc)
qed

text \<open>The problem that is made of it.\<close>

lemma foldl_addClause:
  assumes "\<forall>c\<in>set F. c \<noteq> [] \<and> lits_in n c" "cnf_ok n G"
  shows "cnf_ok n (foldl (\<lambda>cls c. addClause c cls) G F)
    \<and> (cnf_holds s (foldl (\<lambda>cls c. addClause c cls) G F) \<longleftrightarrow> cnf_holds s F \<and> cnf_holds s G)"
  using assms
proof (induction F arbitrary: G)
  case (Cons c F)
  have c: "c \<noteq> []" "\<forall>l\<in>set c. 1 \<le> var l \<and> var l \<le> n" using Cons.prems(1) by (simp_all add: lits_in_def)
  show ?case using Cons.IH [of "addClause c G"] addClause_clean [OF c Cons.prems(2)] addClause_sem [OF c(1)] Cons.prems(1)
    by (auto simp: cnf_holds_def)
qed (simp add: cnf_holds_def)

section \<open>Properties\<close>

text \<open>
  C1. Reading an integer: the printed number comes back, wherever the reads cut the input, for every
  value of an \<^verbatim>\<open>int\<close> but the least.
\<close>

theorem nextInt_reads_back:
  assumes "length junk = BUFFER_SIZE" "chunks_ok fd" "concat fd = ws @ showInt v @ rest" "spaces ws" "no_digit rest"
    and "\<bar>v\<bar> < 2 ^ 31"
  shows "\<exists>b. nextInt (newBufferRead junk fd) = (v, b) \<and> br_ok b \<and> pending b = rest"
proof -
  have "br_ok (newBufferRead junk fd)" "pending (newBufferRead junk fd) = ws @ showInt v @ rest"
    using newBufferRead_ok [OF assms(1,2)] assms(3) by simp_all
  from nextInt_reads [OF this assms(4-6)] show ?thesis by metis
qed

theorem nextInt_reads_back_witness:
  "\<exists>b. nextInt (newBufferRead (replicate BUFFER_SIZE CHR ''7'') ['' -'', ''4'', ''2 0'']) = (- 42, b) \<and> br_ok b \<and> pending b = '' 0''"
  by (rule nextInt_reads_back [of _ _ "'' ''" "- 42" "'' 0''"])
    (simp_all add: chunks_ok_def BUFFER_SIZE_def isSpace_def showInt_def showNat.simps digitChar_def, code_simp)

text \<open>
  C27. Cleaning a clause: the copies and the order go, the set of literals stays, and the clause is
  dropped exactly when it is a tautology, so the formula keeps its models.
\<close>

theorem clause_cleaning:
  assumes "lits \<noteq> []"
  shows "cnf_holds s (addClause lits F) \<longleftrightarrow> clause_holds s lits \<and> cnf_holds s F"
  by (rule addClause_sem [OF assms])

theorem clause_cleaning_witness:
  "addClause [makeLit 2 False, makeLit 1 True, makeLit 2 False] [] = [[makeLit 1 True, makeLit 2 False]]
   \<and> addClause [makeLit 2 False, makeLit 1 True, makeLit 2 True] [] = []
   \<and> cnf_holds (\<lambda>v. True) (addClause [makeLit 2 False, makeLit 1 True, makeLit 2 False] [])"
proof (intro conjI)
  show "cnf_holds (\<lambda>v. True) (addClause [makeLit 2 False, makeLit 1 True, makeLit 2 False] [])"
    using clause_cleaning [of "[makeLit 2 False, makeLit 1 True, makeLit 2 False]" "\<lambda>v. True" "[]"]
    by (simp add: clause_holds_def cnf_holds_def)
qed code_simp+



text \<open>
  C29. A line that starts with a character of no kind of line is never left: the parser runs for ever,
  adding a clause in each turn.
\<close>

theorem parse_diverges:
  assumes "br_ok (pa_in st)" "pending (pa_in st) = ws @ c # rest" "\<forall>c\<in>set ws. isSpace c" "stuckChar c"
  shows "parse_DIMACS_main N st = None"
  by (rule stuck_loop [OF assms])

theorem parse_diverges_witness:
  "parse_DIMACS_main \<lparr>ne_stod = \<lambda>_. None :: rat option, ne_mpf = \<lambda>_. None :: int option, ne_ofDouble = \<lambda>_. 0\<rparr>
    (newParser (newBufferRead (replicate BUFFER_SIZE CHR 0x00) [''x''])) = None"
proof (rule parse_diverges)
  have "br_ok (newBufferRead (replicate BUFFER_SIZE CHR 0x00) [''x'']) \<and>
      pending (newBufferRead (replicate BUFFER_SIZE CHR 0x00) [''x'']) = ''x''"
    using newBufferRead_ok [of "replicate BUFFER_SIZE CHR 0x00" "[''x'']"] by (simp add: chunks_ok_def BUFFER_SIZE_def)
  then show "br_ok (pa_in (newParser (newBufferRead (replicate BUFFER_SIZE CHR 0x00) [''x''])))"
    "pending (pa_in (newParser (newBufferRead (replicate BUFFER_SIZE CHR 0x00) [''x'']))) = [] @ CHR ''x'' # []"
    by (simp_all add: newParser_def)
  show "stuckChar CHR ''x''" by (simp add: stuckChar_def isSpace_def isDigit_def)
qed simp

end
