(* ===== verification/ParserQbf.thy ===== *)
theory ParserQbf
  imports ParserCorrect
begin

text \<open>
  \<^verbatim>\<open>src/src/problem/qbf\<close>: the QDIMACS parser and the quantified problem, and
  \<^verbatim>\<open>src/src/problem/cnf/ParserErosionDimacs.cpp\<close> with the soft and hard clauses of
  \<^verbatim>\<open>ProblemManagerErosionCnf\<close>. A quantified problem that is displayed is read back unchanged.
\<close>

section \<open>Quantified problems\<close>

record Block =
  isUniversal :: bool
  bl_variables :: "int list"

record qbfProblem =
  qp_nbVar :: int
  qp_isUnsat :: bool
  qp_qblocks :: "Block list"
  qp_clauses :: "clause list"

definition qbf_getUnsatProblem :: "qbfProblem \<Rightarrow> qbfProblem" where
  "qbf_getUnsatProblem q = q\<lparr>qp_isUnsat := True, qp_clauses := [[makeLit 1 False], [neg (makeLit 1 False)]]\<rparr>"

definition qbf_getConditionedFormula :: "lit list \<Rightarrow> qbfProblem \<Rightarrow> qbfProblem" where
  "qbf_getConditionedFormula units q =
     (let val = setValues units (replicate (nat (qp_nbVar q) + 1) 0);
          cls = map (\<lambda>cl. conditionClause val cl []) (qp_clauses q)
      in q\<lparr>qp_isUnsat := False,
           qp_clauses := map (\<lambda>l. [l]) units @ map fst (filter (\<lambda>(scl, isSAT). \<not> isSAT) cls)\<rparr>)"

definition displayBlock :: "Block \<Rightarrow> string" where
  "displayBlock b = (if isUniversal b then ''a '' else ''e '')
     @ concat (map (\<lambda>v. showInt v @ '' '') (bl_variables b)) @ ''0'' @ newline"

definition displayQbf :: "qbfProblem \<Rightarrow> string" where
  "displayQbf q = ''p cnf '' @ showInt (qp_nbVar q) @ '' '' @ showNat (length (qp_clauses q)) @ newline
     @ concat (map displayBlock (qp_qblocks q)) @ concat (map showClause (qp_clauses q))"

section \<open>QDIMACS\<close>

record qparser =
  qa_in :: bufferRead
  qa_nbVars :: int
  qa_nbClauses :: int
  qa_previousChar :: char
  qa_qblocks :: "Block list"
  qa_clauses :: "clause list"

definition qdimacsHeader :: "qparser \<Rightarrow> parseError + qparser" where
  "qdimacsHeader st =
     (case expectChars ''cnf'' (skipSpace (consumeChar (qa_in st))) of
        None \<Rightarrow> Inl (Exit 3)
      | Some b \<Rightarrow>
          let (nbVars, b1) = nextInt b; (nbClauses, b2) = nextInt b1
          in if nbClauses < 0 then Inl (Exit 2)
             else Inr (st\<lparr>qa_in := b2, qa_nbVars := nbVars, qa_nbClauses := nbClauses\<rparr>))"

text \<open>The branches of \<^verbatim>\<open>'e'\<close> and \<^verbatim>\<open>'a'\<close>.\<close>

definition qdimacsBlock :: "char \<Rightarrow> bool \<Rightarrow> qparser \<Rightarrow> qparser" where
  "qdimacsBlock c universal st =
     (let (vars, b) = readListIntTerminatedByZero (consumeChar (qa_in st)) []
      in if qa_previousChar st = c
         then st\<lparr>qa_in := b, qa_qblocks := butlast (qa_qblocks st)
                   @ [(last (qa_qblocks st))\<lparr>bl_variables := bl_variables (last (qa_qblocks st)) @ vars\<rparr>]\<rparr>
         else st\<lparr>qa_in := b, qa_previousChar := c,
                 qa_qblocks := qa_qblocks st @ [\<lparr>isUniversal = universal, bl_variables = vars\<rparr>]\<rparr>)"

definition qdimacsClause :: "qparser \<Rightarrow> parseError + qparser" where
  "qdimacsClause st =
     (case readLits (qa_nbVars st) (qa_in st) [] of
        Inl e \<Rightarrow> Inl e
      | Inr (lits, b) \<Rightarrow> Inr (st\<lparr>qa_in := b, qa_clauses := addClause lits (qa_clauses st)\<rparr>))"

definition qdimacsLine :: "qparser \<Rightarrow> parseError + (qparser \<times> bool)" where
  "qdimacsLine st0 =
     (let st = st0\<lparr>qa_in := skipSpace (qa_in st0)\<rparr>;
          b = qa_in st; c = currentChar b
      in if eof b then Inr (st, False)
         else if c = CHR ''p'' then map_sum id (\<lambda>s. (s, True)) (qdimacsHeader st)
         else if c = CHR ''e'' then Inr (qdimacsBlock (CHR ''e'') False st, True)
         else if c = CHR ''a'' then Inr (qdimacsBlock (CHR ''a'') True st, True)
         else if c = CHR ''c'' then Inr (st\<lparr>qa_in := skipLine (consumeChar b)\<rparr>, True)
         else map_sum id (\<lambda>s. (s, True)) (qdimacsClause st))"

partial_function (option) parse_QDIMACS_main :: "qparser \<Rightarrow> (parseError + qparser) option" where
  "parse_QDIMACS_main st =
     (case qdimacsLine st of
        Inl e \<Rightarrow> Some (Inl e)
      | Inr (st', cont) \<Rightarrow> if cont then parse_QDIMACS_main st' else Some (Inr st'))"

definition newQParser :: "bufferRead \<Rightarrow> qparser" where
  "newQParser b = \<lparr>qa_in = b, qa_nbVars = 0, qa_nbClauses = 0, qa_previousChar = CHR 0x00,
     qa_qblocks = [], qa_clauses = []\<rparr>"

text \<open>The constructor of \<^verbatim>\<open>ProblemManagerQbf\<close> that reads a file, without the weights, which are all 1.\<close>

definition newProblemManagerQbf :: "string \<Rightarrow> string list \<Rightarrow> (parseError + qbfProblem) option" where
  "newProblemManagerQbf junk fd =
     map_option (map_sum id (\<lambda>st. \<lparr>qp_nbVar = qa_nbVars st, qp_isUnsat = False, qp_qblocks = qa_qblocks st,
         qp_clauses = qa_clauses st\<rparr>))
       (parse_QDIMACS_main (newQParser (newBufferRead junk fd)))"

section \<open>Soft and hard clauses\<close>

record 'a erosionProblem = "'a problem" +
  er_softClauses :: "clause list"
  er_hardClauses :: "clause list"

record 'a eparser =
  ea_in :: bufferRead
  ea_nbVars :: int
  ea_nbClauses :: int
  ea_theoryClause :: bool
  ea_weightLit :: "'a list"
  ea_softClauses :: "clause list"
  ea_hardClauses :: "clause list"

definition erosionHeader :: "'a::comm_ring_1 eparser \<Rightarrow> parseError + 'a eparser" where
  "erosionHeader st =
     (case expectChars ''cnf'' (skipSpace (consumeChar (ea_in st))) of
        None \<Rightarrow> Inl (Exit 3)
      | Some b \<Rightarrow>
          let (nbVars, b1) = nextInt b; (nbClauses, b2) = nextInt b1
          in if nbVars < - 1 then Inl LengthError
             else Inr (st\<lparr>ea_in := b2, ea_nbVars := nbVars, ea_nbClauses := nbClauses,
                          ea_weightLit := resize_with (nat (push_bit 1 (nbVars + 1))) 1 (ea_weightLit st)\<rparr>))"

definition erosionClause :: "'a eparser \<Rightarrow> parseError + 'a eparser" where
  "erosionClause st =
     (case readLits (ea_nbVars st) (ea_in st) [] of
        Inl e \<Rightarrow> Inl e
      | Inr (lits, b) \<Rightarrow>
          let st' = (if ea_theoryClause st then st\<lparr>ea_hardClauses := addClause lits (ea_hardClauses st)\<rparr>
                     else st\<lparr>ea_softClauses := addClause lits (ea_softClauses st)\<rparr>)
          in Inr (st'\<lparr>ea_in := b, ea_theoryClause := False\<rparr>))"

definition erosionLine :: "'a::comm_ring_1 eparser \<Rightarrow> parseError + ('a eparser \<times> bool)" where
  "erosionLine st0 =
     (let st = st0\<lparr>ea_in := skipSpace (ea_in st0)\<rparr>;
          b = ea_in st; c = currentChar b
      in if eof b then Inr (st, False)
         else if c = CHR ''p'' then map_sum id (\<lambda>s. (s, True)) (erosionHeader st)
         else if c = CHR ''c'' then Inr (st\<lparr>ea_in := skipLine b\<rparr>, True)
         else if c = CHR ''t'' then Inr (st\<lparr>ea_in := consumeChar b, ea_theoryClause := True\<rparr>, True)
         else map_sum id (\<lambda>s. (s, True)) (erosionClause st))"

partial_function (option) parse_erosion_DIMACS_main ::
  "'a::comm_ring_1 eparser \<Rightarrow> (parseError + 'a eparser) option" where
  "parse_erosion_DIMACS_main st =
     (case erosionLine st of
        Inl e \<Rightarrow> Some (Inl e)
      | Inr (st', cont) \<Rightarrow> if cont then parse_erosion_DIMACS_main st' else Some (Inr st'))"

text \<open>The constructor copies the soft and the hard clauses; the unit clauses go to the soft ones.\<close>

definition erosion_copy :: "'a erosionProblem \<Rightarrow> 'a erosionProblem" where
  "erosion_copy p = p\<lparr>m_isUnsat := False\<rparr>"

definition erosion_getUnsatProblem :: "'a erosionProblem \<Rightarrow> 'a erosionProblem" where
  "erosion_getUnsatProblem p =
     (let r = (erosion_copy p)\<lparr>m_isUnsat := True\<rparr>
      in r\<lparr>er_hardClauses := er_hardClauses r @ [[makeLit 1 False], [neg (makeLit 1 False)]]\<rparr>)"

definition conditionClauses :: "nat list \<Rightarrow> clause list \<Rightarrow> clause list" where
  "conditionClauses val cls =
     map fst (filter (\<lambda>(scl, isSAT). \<not> isSAT) (map (\<lambda>cl. conditionClause val cl []) cls))"

definition erosion_getConditionedFormula :: "lit list \<Rightarrow> 'a erosionProblem \<Rightarrow> 'a erosionProblem" where
  "erosion_getConditionedFormula units p =
     (let r = erosion_copy p;
          val = setValues units (replicate (m_nbVar p + 1) 0)
      in r\<lparr>er_softClauses := er_softClauses r @ map (\<lambda>l. [l]) units @ conditionClauses val (er_softClauses p),
           er_hardClauses := er_hardClauses r @ conditionClauses val (er_hardClauses p)\<rparr>)"

section \<open>A displayed problem is read back\<close>

lemma readList_shown:
  assumes "br_ok b" "pending b = ws @ concat (map (\<lambda>v. showInt v @ '' '') vs) @ ''0'' @ rest" "spaces ws" "no_digit rest"
    and "\<forall>v\<in>set vs. v \<noteq> 0 \<and> \<bar>v\<bar> < 2 ^ 31"
  shows "\<exists>b'. readListIntTerminatedByZero b acc = (acc @ vs, b') \<and> br_ok b' \<and> pending b' = rest"
  using assms(1-3,5)
proof (induction vs arbitrary: acc b ws)
  case Nil
  obtain b' where b': "nextInt b = (0, b')" "br_ok b'" "pending b' = rest"
    by (rule nextInt_reads [OF Nil.prems(1) _ Nil.prems(3) assms(4), of 0])
      (use Nil.prems(2) in \<open>simp_all add: showInt_0\<close>)
  then show ?case by (subst readListIntTerminatedByZero.simps) simp
next
  case (Cons v vs)
  let ?rest = "'' '' @ concat (map (\<lambda>v. showInt v @ '' '') vs) @ ''0'' @ rest"
  obtain b1 where b1: "nextInt b = (v, b1)" "br_ok b1" "pending b1 = ?rest"
    by (rule nextInt_reads [OF Cons.prems(1) _ Cons.prems(3), of v ?rest])
      (use Cons.prems(2,4) in simp_all)
  have "readListIntTerminatedByZero b acc = readListIntTerminatedByZero b1 (acc @ [v])"
    using Cons.prems(4) by (subst readListIntTerminatedByZero.simps) (simp add: b1(1))
  then show ?case using Cons.IH [OF b1(2,3) _, of "acc @ [v]"] Cons.prems(4) by simp
qed

definition block_ok :: "Block \<Rightarrow> bool" where
  "block_ok b \<longleftrightarrow> (\<forall>v\<in>set (bl_variables b). v \<noteq> 0 \<and> \<bar>v\<bar> < 2 ^ 31)"

definition quantChar :: "bool \<Rightarrow> char" where "quantChar u = (if u then CHR ''a'' else CHR ''e'')"

lemma qdimacs_block:
  assumes "br_ok (qa_in st)" "pending (qa_in st) = ws @ displayBlock B @ rest" "spaces ws" "block_ok B"
    and "qa_previousChar st \<noteq> quantChar (isUniversal B)"
  shows "\<exists>b. qdimacsLine st = Inr (st\<lparr>qa_in := b, qa_previousChar := quantChar (isUniversal B),
      qa_qblocks := qa_qblocks st @ [B]\<rparr>, True) \<and> br_ok b \<and> pending b = newline @ rest"
proof -
  let ?q = "quantChar (isUniversal B)" and ?b = "skipSpace (qa_in st)"
  let ?vs = "concat (map (\<lambda>v. showInt v @ '' '') (bl_variables B)) @ ''0'' @ newline @ rest"
  have d: "displayBlock B @ rest = ?q # '' '' @ ?vs" by (simp add: displayBlock_def quantChar_def)
  have q: "\<not> isSpace ?q" "?q \<noteq> CHR ''p''" by (simp_all add: quantChar_def isSpace_def)
  have b: "br_ok ?b" "pending ?b = ?q # '' '' @ ?vs" using skipSpace_ok [OF assms(1-3)] q by (simp_all add: d)
  have s: "currentChar ?b = ?q" "\<not> eof ?b" using b by (simp_all add: reader_simps)
  obtain b' where b': "readListIntTerminatedByZero (consumeChar ?b) [] = (bl_variables B, b')" "br_ok b'" "pending b' = newline @ rest"
    using readList_shown [of "consumeChar ?b" "'' ''" "bl_variables B" "newline @ rest" "[]"] consumeChar_ok [OF b(1)] b(2) assms(4)
    by (auto simp: block_ok_def)
  have "qdimacsLine st = Inr (st\<lparr>qa_in := b', qa_previousChar := ?q, qa_qblocks := qa_qblocks st @ [B]\<rparr>, True)"
    using assms(5) by (cases "isUniversal B"; cases B)
      (simp_all add: qdimacsLine_def Let_def s qdimacsBlock_def b'(1) quantChar_def)
  with b'(2,3) show ?thesis by blast
qed

lemma qdimacs_clause:
  assumes "br_ok (qa_in st)" "pending (qa_in st) = ws @ showClause c @ rest" "spaces ws"
    and "c \<noteq> []" "clean c" "lits_in n c" "n < 2 ^ 31" "qa_nbVars st = int n"
  shows "\<exists>b. qdimacsLine st = Inr (st\<lparr>qa_in := b, qa_clauses := qa_clauses st @ [c]\<rparr>, True)
    \<and> br_ok b \<and> pending b = newline @ rest"
proof -
  obtain h r where h: "showClause c @ rest = h # r" "isDigit h \<or> h = CHR ''-''"
    using showLits_head [OF assms(4), of "''0'' @ newline @ rest"] by (auto simp: showClause_def)
  note k = digit_no_keyword [OF h(2)]
  let ?b = "skipSpace (qa_in st)"
  have b: "br_ok ?b" "pending ?b = showClause c @ rest" using skipSpace_ok [OF assms(1-3)] h(1) k by simp_all
  have s: "currentChar ?b = h" "\<not> eof ?b" using b h(1) by (simp_all add: reader_simps)
  obtain b' where b': "readLits (int n) ?b [] = Inr (c, b')" "br_ok b'" "pending b' = newline @ rest"
    using readLits_shown [OF b(1), of "[]" c "newline @ rest" n "[]"] b(2) assms(6,7) by (auto simp: showClause_def)
  have "qdimacsLine st = Inr (st\<lparr>qa_in := b', qa_clauses := qa_clauses st @ [c]\<rparr>, True)"
    unfolding qdimacsLine_def Let_def qdimacsClause_def using k addClause_id [OF assms(5,4)]
    by (simp add: s b'(1) assms(8))
  with b'(2,3) show ?thesis by blast
qed

lemma qdimacs_header:
  assumes "br_ok (qa_in st)" "pending (qa_in st) = ''p cnf '' @ showInt n @ '' '' @ showNat m @ newline @ rest"
    and "\<bar>n\<bar> < 2 ^ 31" "m < 2 ^ 31"
  shows "\<exists>b. qdimacsLine st = Inr (st\<lparr>qa_in := b, qa_nbVars := n, qa_nbClauses := int m\<rparr>, True)
    \<and> br_ok b \<and> pending b = newline @ rest"
proof -
  let ?b = "skipSpace (qa_in st)" and ?t = "'' '' @ showInt n @ '' '' @ showNat m @ newline @ rest"
  have b: "br_ok ?b" "pending ?b = ''p cnf'' @ ?t"
    using skipSpace_ok [OF assms(1), of "[]"] assms(2) by (simp_all add: isSpace_def)
  have s: "currentChar ?b = CHR ''p''" "\<not> eof ?b" using b by (simp_all add: reader_simps)
  define b1 where "b1 = skipSpace (consumeChar ?b)"
  have b1: "br_ok b1" "pending b1 = ''cnf'' @ ?t"
    using skipSpace_ok [of "consumeChar ?b" "'' ''" "''cnf'' @ ?t"] consumeChar_ok [OF b(1)] b(2)
    by (simp_all add: b1_def isSpace_def)
  obtain b2 where b2: "expectChars ''cnf'' b1 = Some b2" "br_ok b2" "pending b2 = ?t"
    using expectChars_ok [OF b1] by blast
  obtain b3 where b3: "nextInt b2 = (n, b3)" "br_ok b3" "pending b3 = '' '' @ showNat m @ newline @ rest"
    by (rule nextInt_reads [OF b2(2), of "'' ''" n "'' '' @ showNat m @ newline @ rest"])
      (use b2(3) assms(3) in simp_all)
  obtain b4 where b4: "nextInt b3 = (int m, b4)" "br_ok b4" "pending b4 = newline @ rest"
    by (rule nextInt_reads [OF b3(2), of "'' ''" "int m" "newline @ rest"])
      (use b3(3) assms(4) in \<open>simp_all add: showInt_nat\<close>)
  have "qdimacsHeader (st\<lparr>qa_in := ?b\<rparr>) = Inr (st\<lparr>qa_in := b4, qa_nbVars := n, qa_nbClauses := int m\<rparr>)"
    by (simp add: qdimacsHeader_def Let_def b1_def [symmetric] b2(1) b3(1) b4(1) del: expectChars.simps)
  then have "qdimacsLine st = Inr (st\<lparr>qa_in := b4, qa_nbVars := n, qa_nbClauses := int m\<rparr>, True)"
    by (simp add: qdimacsLine_def Let_def s)
  with b4(2,3) show ?thesis by blast
qed

lemma qparse_clauses:
  assumes "br_ok (qa_in st)" "pending (qa_in st) = ws @ concat (map showClause F)" "spaces ws"
    and "\<forall>c\<in>set F. c \<noteq> [] \<and> clean c \<and> lits_in n c" "n < 2 ^ 31" "qa_nbVars st = int n"
  shows "\<exists>b. parse_QDIMACS_main st = Some (Inr (st\<lparr>qa_in := b, qa_clauses := qa_clauses st @ F\<rparr>))"
  using assms
proof (induction F arbitrary: st ws)
  case Nil
  then have "qdimacsLine st = Inr (st\<lparr>qa_in := skipSpace (qa_in st)\<rparr>, False)"
    using skipSpace_ok [of "qa_in st" ws "[]"] by (auto simp: qdimacsLine_def Let_def eof_pending)
  then show ?case by (subst parse_QDIMACS_main.simps) (simp, blast)
next
  case (Cons c F)
  obtain b where b: "qdimacsLine st = Inr (st\<lparr>qa_in := b, qa_clauses := qa_clauses st @ [c]\<rparr>, True)"
    "br_ok b" "pending b = newline @ concat (map showClause F)"
    using qdimacs_clause [OF Cons.prems(1) _ Cons.prems(3), of c _ n] Cons.prems(2,4-6) by auto
  let ?st = "st\<lparr>qa_in := b, qa_clauses := qa_clauses st @ [c]\<rparr>"
  have "parse_QDIMACS_main st = parse_QDIMACS_main ?st" by (subst parse_QDIMACS_main.simps) (simp add: b(1))
  then show ?case using Cons.IH [of ?st newline] b(2,3) Cons.prems(4-6) by simp
qed

text \<open>Neighbouring blocks have different quantifiers: two equal ones are merged when they are read.\<close>

fun alternating :: "char \<Rightarrow> Block list \<Rightarrow> bool" where
  "alternating c [] = True"
| "alternating c (B # Bs) = (c \<noteq> quantChar (isUniversal B) \<and> alternating (quantChar (isUniversal B)) Bs)"

lemma qparse_blocks:
  assumes "br_ok (qa_in st)" "pending (qa_in st) = ws @ concat (map displayBlock Bs) @ concat (map showClause F)" "spaces ws"
    and "\<forall>c\<in>set F. c \<noteq> [] \<and> clean c \<and> lits_in n c" "n < 2 ^ 31" "qa_nbVars st = int n"
    and "\<forall>B\<in>set Bs. block_ok B" "alternating (qa_previousChar st) Bs"
  shows "\<exists>b c. parse_QDIMACS_main st =
    Some (Inr (st\<lparr>qa_in := b, qa_previousChar := c, qa_qblocks := qa_qblocks st @ Bs, qa_clauses := qa_clauses st @ F\<rparr>))"
  using assms
proof (induction Bs arbitrary: st ws)
  case Nil
  then obtain b where "parse_QDIMACS_main st = Some (Inr (st\<lparr>qa_in := b, qa_clauses := qa_clauses st @ F\<rparr>))"
    using qparse_clauses [of st ws F n] by auto
  then show ?case by (intro exI [of _ b] exI [of _ "qa_previousChar st"]) simp
next
  case (Cons B Bs)
  let ?c = "quantChar (isUniversal B)"
  obtain b where b: "qdimacsLine st = Inr (st\<lparr>qa_in := b, qa_previousChar := ?c, qa_qblocks := qa_qblocks st @ [B]\<rparr>, True)"
    "br_ok b" "pending b = newline @ concat (map displayBlock Bs) @ concat (map showClause F)"
    using qdimacs_block [OF Cons.prems(1) _ Cons.prems(3), of B] Cons.prems(2,7,8) by auto
  let ?st = "st\<lparr>qa_in := b, qa_previousChar := ?c, qa_qblocks := qa_qblocks st @ [B]\<rparr>"
  have "parse_QDIMACS_main st = parse_QDIMACS_main ?st" by (subst parse_QDIMACS_main.simps) (simp add: b(1))
  then show ?case using Cons.IH [of ?st newline] b(2,3) Cons.prems(4-8) by simp
qed

definition qbf_ok :: "qbfProblem \<Rightarrow> bool" where
  "qbf_ok q \<longleftrightarrow> 0 \<le> qp_nbVar q \<and> qp_nbVar q < 2 ^ 31 \<and> length (qp_clauses q) < 2 ^ 31
     \<and> (\<forall>c\<in>set (qp_clauses q). c \<noteq> [] \<and> clean c \<and> lits_in (nat (qp_nbVar q)) c)
     \<and> (\<forall>B\<in>set (qp_qblocks q). block_ok B) \<and> alternating (CHR 0x00) (qp_qblocks q) \<and> \<not> qp_isUnsat q"

lemma qbf_read_back:
  assumes "qbf_ok q" "length junk = BUFFER_SIZE" "chunks_ok fd" "concat fd = displayQbf q"
  shows "newProblemManagerQbf junk fd = Some (Inr q)"
proof -
  let ?st = "newQParser (newBufferRead junk fd)" and ?n = "nat (qp_nbVar q)"
  let ?rest = "concat (map displayBlock (qp_qblocks q)) @ concat (map showClause (qp_clauses q))"
  have q: "int ?n = qp_nbVar q" "?n < 2 ^ 31" "\<bar>qp_nbVar q\<bar> < 2 ^ 31" using assms(1) by (auto simp: qbf_ok_def)
  have "br_ok (qa_in ?st)" "pending (qa_in ?st) = displayQbf q"
    using newBufferRead_ok [OF assms(2,3)] assms(4) by (simp_all add: newQParser_def)
  then obtain b where b: "qdimacsLine ?st = Inr (?st\<lparr>qa_in := b, qa_nbVars := qp_nbVar q,
      qa_nbClauses := int (length (qp_clauses q))\<rparr>, True)" "br_ok b" "pending b = newline @ ?rest"
    using qdimacs_header [of ?st "qp_nbVar q" "length (qp_clauses q)" ?rest] q(3) assms(1)
    by (auto simp: displayQbf_def qbf_ok_def)
  let ?st1 = "?st\<lparr>qa_in := b, qa_nbVars := qp_nbVar q, qa_nbClauses := int (length (qp_clauses q))\<rparr>"
  have "parse_QDIMACS_main ?st = parse_QDIMACS_main ?st1" by (subst parse_QDIMACS_main.simps) (simp only: b(1) sum.case prod.case if_True)
  moreover obtain b' c where "parse_QDIMACS_main ?st1 =
      Some (Inr (?st1\<lparr>qa_in := b', qa_previousChar := c, qa_qblocks := qp_qblocks q, qa_clauses := qp_clauses q\<rparr>))"
    using qparse_blocks [of ?st1 newline "qp_qblocks q" "qp_clauses q" ?n] b(2,3) q(1,2) assms(1)
    by (auto simp: qbf_ok_def newQParser_def)
  ultimately show ?thesis using assms(1) by (cases q) (simp add: newProblemManagerQbf_def qbf_ok_def)
qed

section \<open>Properties\<close>


definition ex_qbf :: qbfProblem where
  "ex_qbf = \<lparr>qp_nbVar = 2, qp_isUnsat = False,
     qp_qblocks = [\<lparr>isUniversal = True, bl_variables = [1]\<rparr>, \<lparr>isUniversal = False, bl_variables = [2]\<rparr>],
     qp_clauses = [[makeLit 1 False, makeLit 2 True]]\<rparr>"


end
