(* ===== verification/ParserErrors.thy ===== *)
theory ParserErrors
  imports ParserCorrect
begin

text \<open>
  The results of the DIMACS parser: the exit on a literal out of range, and the shape of the clauses of
  every input that it accepts.
\<close>

section \<open>A literal out of range\<close>

definition lits_int :: "lit list \<Rightarrow> bool" where
  "lits_int c \<longleftrightarrow> (\<forall>l\<in>set c. 1 \<le> var l \<and> var l < 2 ^ 31)"

lemma readLits_out_of_range:
  assumes "br_ok b" "pending b = ws @ showLits c @ ''0'' @ rest" "spaces ws" "lits_int c" "\<exists>l\<in>set c. n < var l"
  shows "readLits (int n) b acc = Inl (Exit 3)"
  using assms
proof (induction c arbitrary: acc b ws)
  case (Cons l c)
  have v: "1 \<le> var l" "var l < 2 ^ 31" "lits_int c" using Cons.prems(4) by (simp_all add: lits_int_def)
  obtain b1 where b1: "nextInt b = (human l, b1)" "br_ok b1" "pending b1 = '' '' @ showLits c @ ''0'' @ rest"
    by (rule nextInt_reads [OF Cons.prems(1) _ Cons.prems(3), of "human l" "'' '' @ showLits c @ ''0'' @ rest"])
      (use Cons.prems(2) v in \<open>auto simp: showLits_def human_lit\<close>)
  show ?case
  proof (cases "n < var l")
    case True
    then have "(human l > 0 \<and> int n < human l) \<or> (- human l > 0 \<and> int n < - human l)" using v(1) by (auto simp: human_lit)
    then show ?thesis by (subst readLits.simps) (simp add: b1(1))
  next
    case False
    have l: "\<not> (human l > 0 \<and> int n < human l)" "\<not> (- human l > 0 \<and> int n < - human l)" "human l \<noteq> 0"
      using v False by (auto simp: human_lit)
    have "readLits (int n) b acc = readLits (int n) b1 (acc @ [if human l > 0 then makeLit (nat (human l)) False
        else makeLit (nat (- human l)) True])"
      by (subst readLits.simps) (simp only: b1(1) Let_def prod.case l simp_thms if_True if_False)
    then show ?thesis using Cons.IH [OF b1(2,3) _ v(3)] Cons.prems(5) False by simp
  qed
qed simp

lemma parse_out_of_range:
  assumes "br_ok (pa_in st)" "pending (pa_in st) = ws @ concat (map showClause F)" "spaces ws"
    and "\<forall>c\<in>set F. c \<noteq> [] \<and> lits_int c" "n < 2 ^ 31" "pa_nbVars st = int n" "\<exists>c\<in>set F. \<exists>l\<in>set c. n < var l"
  shows "parse_DIMACS_main N st = Some (Inl (Exit 3))"
  using assms
proof (induction F arbitrary: st ws)
  case (Cons c F)
  show ?case
  proof (cases "\<exists>l\<in>set c. n < var l")
    case True
    have c: "c \<noteq> []" "lits_int c" using Cons.prems(4) by simp_all
    obtain h r where h: "showClause c @ concat (map showClause F) = h # r" "isDigit h \<or> h = CHR ''-''"
      using showLits_head [OF c(1), of "''0'' @ newline @ concat (map showClause F)"] by (auto simp: showClause_def)
    note k = digit_no_keyword [OF h(2)]
    let ?b = "skipSpace (pa_in st)"
    have b: "br_ok ?b" "pending ?b = showClause c @ concat (map showClause F)"
      using skipSpace_ok [OF Cons.prems(1) _ Cons.prems(3), of "showClause c @ concat (map showClause F)"] Cons.prems(2) h(1) k by simp_all
    have s: "currentChar ?b = h" "\<not> eof ?b" using b h(1) by (simp_all add: reader_simps)
    have "readLits (int n) ?b [] = Inl (Exit 3)"
      using readLits_out_of_range [OF b(1) _ _ c(2) True, of "[]"] b(2) by (simp add: showClause_def)
    then have "dimacsLine N st = Inl (Exit 3)"
      unfolding dimacsLine_def Let_def dimacsClause_def using k by (simp add: s Cons.prems(6))
    then show ?thesis by (subst parse_DIMACS_main.simps) simp
  next
    case False
    then have c: "c \<noteq> []" "lits_in n c" using Cons.prems(4) by (auto simp: lits_int_def lits_in_def)
    obtain b where b: "dimacsLine N st = Inr (st\<lparr>pa_in := b, pa_clauses := addClause c (pa_clauses st)\<rparr>, True)"
      "br_ok b" "pending b = newline @ concat (map showClause F)"
      using dimacs_clause [OF Cons.prems(1) _ Cons.prems(3), of c _ n N] Cons.prems(2,5,6) c by auto
    let ?st = "st\<lparr>pa_in := b, pa_clauses := addClause c (pa_clauses st)\<rparr>"
    have "parse_DIMACS_main N st = parse_DIMACS_main N ?st" by (subst parse_DIMACS_main.simps) (simp add: b(1))
    then show ?thesis using Cons.IH [of ?st newline] b(2,3) Cons.prems(4-7) False by simp
  qed
qed simp

section \<open>The clauses of an accepted input\<close>

definition clauses_clean :: "'a parser \<Rightarrow> bool" where
  "clauses_clean st \<longleftrightarrow> (\<forall>c\<in>set (pa_clauses st). c \<noteq> [] \<and> clean c)"

lemma removeRedundant_kept: "removeRedundant kept ls = (r, s) \<Longrightarrow> kept \<noteq> [] \<Longrightarrow> r \<noteq> []"
  by (induction kept ls rule: removeRedundant.induct) (auto split: if_splits)

lemma addClause_clauses:
  assumes "\<forall>c\<in>set F. c \<noteq> [] \<and> clean c"
  shows "\<forall>c\<in>set (addClause lits F). c \<noteq> [] \<and> clean c"
proof -
  obtain cl isSat where c: "cleanClause lits = (cl, isSat)" by fastforce
  have "cl \<noteq> [] \<and> (\<not> isSat \<longrightarrow> clean cl)"
  proof (cases "lits = []")
    case True
    then show ?thesis using c by (auto simp: cleanClause_def clean_def)
  next
    case False
    then show ?thesis using cleanClause_ok [OF False c] c removeRedundant_kept
      by (auto simp: cleanClause_def split: list.splits)
  qed
  then show ?thesis using assms c by (auto simp: addClause_def)
qed

lemma dimacsLine_clean:
  assumes "dimacsLine N st = Inr (st', cont)" "clauses_clean st"
  shows "clauses_clean st'"
proof -
  have same: "pa_clauses st' = pa_clauses st \<or> (\<exists>lits. pa_clauses st' = addClause lits (pa_clauses st))"
    using assms(1)
    by (auto simp: dimacsLine_def Let_def dimacsHeader_def dimacsExist_def dimacsRandom_def dimacsSelected_def
        dimacsWeight_def dimacsComment_def dimacsClause_def nextBlock_def split: if_splits sum.splits prod.splits option.splits)
  then show ?thesis using assms(2) addClause_clauses unfolding clauses_clean_def by metis
qed

lemma parse_clean:
  assumes "parse_DIMACS_main N st = Some (Inr st')" "clauses_clean st"
  shows "clauses_clean st'"
proof -
  let ?P = "\<lambda>N st r. \<forall>st'. r = Inr st' \<longrightarrow> clauses_clean st \<longrightarrow> clauses_clean st'"
  have "?P N st r" if e: "parse_DIMACS_main N st = Some r" for r
  proof (rule parse_DIMACS_main.raw_induct [of ?P, OF _ e], intro allI impI)
    fix main N st r st'
    assume ih: "\<And>N st r. main N st = Some r \<Longrightarrow> ?P N st r"
      and s: "(case dimacsLine N st of Inl e \<Rightarrow> Some (Inl e)
        | Inr (st', cont) \<Rightarrow> if cont then main N st' else Some (Inr st')) = Some r"
      and st: "r = Inr st'" "clauses_clean st"
    obtain st1 cont where l: "dimacsLine N st = Inr (st1, cont)" using s st(1) by (auto split: sum.splits)
    have "clauses_clean st1" by (rule dimacsLine_clean [OF l st(2)])
    then show "clauses_clean st'" using s st(1) ih [of N st1 r] l by (auto split: if_splits)
  qed
  then show ?thesis using assms by simp
qed

section \<open>Properties\<close>



text \<open>
  C26. Whatever the input is, the clauses of an accepted file are not empty, sorted, and have no variable twice.
\<close>

theorem parsed_clauses_clean:
  assumes "parse_DIMACS N junk fd = Some (Inr st)"
  shows "\<forall>c\<in>set (pa_clauses st). c \<noteq> [] \<and> sorted_wrt (<) c \<and> distinct (map var c)"
  using parse_clean [OF assms [unfolded parse_DIMACS_def]]
  by (simp add: clauses_clean_def clean_def newParser_def)

theorem parsed_clauses_clean_witness:
  "\<exists>st. parse_DIMACS (\<lparr>ne_stod = \<lambda>_. None :: rat option, ne_mpf = \<lambda>_. None :: int option, ne_ofDouble = \<lambda>_. 0\<rparr>)
      (replicate BUFFER_SIZE CHR 0x00) (map (\<lambda>c. [c]) (displayFormula 2 [[makeLit 2 True, makeLit 1 False, makeLit 2 True]])) = Some (Inr st)
    \<and> (\<forall>c\<in>set (pa_clauses st). c \<noteq> [] \<and> sorted_wrt (<) c \<and> distinct (map var c))"
proof -
  let ?N = "\<lparr>ne_stod = \<lambda>_. None :: rat option, ne_mpf = \<lambda>_. None :: int option, ne_ofDouble = \<lambda>_. 0\<rparr>"
  let ?F = "[[makeLit 2 True, makeLit 1 False, makeLit 2 True]]"
  have "\<exists>st. parse_DIMACS ?N (replicate BUFFER_SIZE CHR 0x00) (map (\<lambda>c. [c]) (displayFormula 2 ?F)) = Some (Inr st)"
    using parse_displayFormula [of "replicate BUFFER_SIZE CHR 0x00" "map (\<lambda>c. [c]) (displayFormula 2 ?F)" 2 ?F ?N]
    by (auto simp: chunks_ok_def BUFFER_SIZE_def lits_in_def)
  then show ?thesis using parsed_clauses_clean by blast
qed

end
