(* ===== verification/CacheLive.thy ===== *)
theory CacheLive
  imports CacheManager
begin

text \<open>
  A stored value is found again: after a miss, when the value of the component has been added to the list
  table, a later lookup of the same component hits, whatever happened to the table in between.
\<close>

lemma sameEntry_bytes:
  assumes "bdata a' = bdata a" "info1 a' = info1 a"
  shows "sameEntry a' = sameEntry a"
  by (rule ext) (simp add: sameEntry_def assms)

lemma sameEntry_stored: "sameEntry a (a\<lparr>fc := v\<rparr>)"
  by (simp add: sameEntry_def bucket_szData_def)

lemma computeHash_bytes:
  assumes "bdata a' = bdata a" "info1 a' = info1 a"
  shows "computeHash hb a' = computeHash hb a"
  by (simp add: computeHash_def bucket_szData_def assms)

lemma find_append: "List.find P (xs @ ys) = (case List.find P xs of Some x \<Rightarrow> Some x | None \<Rightarrow> List.find P ys)"
  by (induction xs) simp_all

text \<open>A search when no memory was consumed since the last one.\<close>

lemma search_no_reduce:
  assumes "\<not> consumedMemory c" "index_storeFormula (ch_bucketManager c) f C = (b, bm, f')"
    and "exist b (computeHash hb b) (c\<lparr>ch_bucketManager := bm\<rparr>) = (Some b', c2)"
  shows "\<exists>c3. searchInCache exceeds hb removeEntry exist c f C =
    (\<lparr>tmp_e = b', tmp_hashValue = computeHash hb b, tmp_defined = True\<rparr>, c3, f')"
  using assms by (simp add: searchInCache_def Let_def)

lemma cl_lookup_pushed:
  assumes e0: "cl_wf e0" and more: "cacheManager.more e1 = cacheManager.more (cl_pushInHashTable b h u e0)"
    and b: "bdata b' = bdata b" "info1 b' = info1 b"
  obtains r e2 where "cl_bucketAlreadyExist b' h e1 = (Some r, e2)" "fc r = Some u \<or> r \<in> cl_entries e0 \<and> sameEntry b r"
proof -
  let ?i = "unat h mod cl_SIZE_HASH e0"
  let ?x = "b\<lparr>fc := Some u\<rparr>"
  let ?t = "(cl_hashTable e0)[?i := cl_hashTable e0 ! ?i @ [?x]]"
  have p: "cl_SIZE_HASH (cl_pushInHashTable b h u e0) = cl_SIZE_HASH e0" "cl_hashTable (cl_pushInHashTable b h u e0) = ?t"
    using cl_same_table [OF more_countCreation [of b "e0\<lparr>cl_hashTable := ?t\<rparr>"]] by (simp_all add: cl_pushInHashTable_def Let_def)
  note t = cl_same_table [OF more, unfolded p]
  have i: "?i < length (cl_hashTable e0)" using e0 by (simp add: cl_wf_def)
  then have row: "cl_hashTable e1 ! (unat h mod cl_SIZE_HASH e1) = cl_hashTable e0 ! ?i @ [?x]" by (simp add: t)
  have "List.find (sameEntry b') (cl_hashTable e0 ! ?i @ [?x]) =
      Some (case List.find (sameEntry b) (cl_hashTable e0 ! ?i) of Some r \<Rightarrow> r | None \<Rightarrow> ?x)" (is "_ = Some ?r")
    using sameEntry_stored [of b "Some u"] by (simp add: sameEntry_bytes [OF b] find_append split: option.splits)
  moreover have "fc ?r = Some u \<or> ?r \<in> cl_entries e0 \<and> sameEntry b ?r"
  proof (cases "List.find (sameEntry b) (cl_hashTable e0 ! ?i)")
    case (Some r)
    then have "r \<in> set (cl_hashTable e0 ! ?i)" "sameEntry b r" by (auto simp: find_Some_iff)
    then show ?thesis using Some nth_mem [OF i] by (auto simp: cl_entries_def)
  qed simp
  ultimately show ?thesis using that by (simp add: cl_bucketAlreadyExist_def row)
qed

lemma stored_found:
  assumes c: "cache_inv cl_wf cl_entries n (length F) G c" and f: "dyn_inv n F f stk" "comp_ctx n F (concat stk) C"
    and miss: "searchInCache exceeds hb cl_removeEntry cl_bucketAlreadyExist c f C = (cb, c', f')" "\<not> tmp_defined cb"
    and e0: "cache_inv cl_wf cl_entries n (length F) G' e0" "\<not> consumedMemory e0"
    and g: "dyn_inv n F g stk'" "comp_ctx n F (concat stk') C" "cacheKey g C = cacheKey f C"
  shows "\<exists>cb' e1. searchInCache exceeds hb cl_removeEntry cl_bucketAlreadyExist
        (cl_pushInHashTable (tmp_e cb) (tmp_hashValue cb) u e0) g C = (cb', e1, g)
    \<and> tmp_defined cb' \<and> (fc (tmp_e cb') = Some u \<or> tmp_e cb' \<in> cl_entries e0 \<and> sameEntry (tmp_e cb) (tmp_e cb'))"
proof -
  let ?e0 = "cl_pushInHashTable (tmp_e cb) (tmp_hashValue cb) u e0"
  have e: "(bdata (tmp_e cb), info1 (tmp_e cb)) = index_encode (fst (cacheKey f C)) (snd (cacheKey f C))"
    using cl.search_ok(4) [OF c f miss] by (simp add: entry_for_def)
  have h: "tmp_hashValue cb = computeHash hb (tmp_e cb)"
    using miss by (auto simp: searchInCache_def Let_def split: prod.splits option.splits)
  obtain b :: "'a CachedBucket" and bm g1 where s: "index_storeFormula (ch_bucketManager e0) g C = (b, bm, g1)" by (metis prod_cases3)
  have "modeStore_of e0 = CACHE_ALL" using e0(1) by (simp add: cache_inv_def)
  note st = index_storeFormula_ok [OF g(1,2) this s]
  have b: "bdata b = bdata (tmp_e cb)" "info1 b = info1 (tmp_e cb)" using st(2) e g(3) by (metis prod.inject)+
  have bd: "ch_bucketManager ?e0 = ch_bucketManager e0" by (simp add: cl_pushInHashTable_def Let_def)
  obtain r e2 where r: "cl_bucketAlreadyExist b (tmp_hashValue cb) (?e0\<lparr>ch_bucketManager := bm\<rparr>) = (Some r, e2)"
    "fc r = Some u \<or> r \<in> cl_entries e0 \<and> sameEntry (tmp_e cb) r"
    by (rule cl_lookup_pushed [of e0 "?e0\<lparr>ch_bucketManager := bm\<rparr>" "tmp_e cb" "tmp_hashValue cb" u b])
      (use e0(1) b in \<open>simp_all add: cache_inv_def\<close>)
  have "\<exists>e3. searchInCache exceeds hb cl_removeEntry cl_bucketAlreadyExist ?e0 g C =
      (\<lparr>tmp_e = r, tmp_hashValue = computeHash hb b, tmp_defined = True\<rparr>, e3, g1)"
  proof (rule search_no_reduce)
    show "\<not> consumedMemory ?e0" using e0(2) by (simp add: consumedMemory_def bd)
    show "index_storeFormula (ch_bucketManager ?e0) g C = (b, bm, g1)" using s by (simp add: bd)
    show "cl_bucketAlreadyExist b (computeHash hb b) (?e0\<lparr>ch_bucketManager := bm\<rparr>) = (Some r, e2)"
      using r(1) by (simp add: h computeHash_bytes [OF b])
  qed
  then show ?thesis using r(2) st(1) by force
qed

text \<open>An empty table misses.\<close>

lemma empty_misses:
  assumes "\<not> consumedMemory c" "cl_wf c" "\<forall>row\<in>set (cl_hashTable c). row = []"
    and e: "searchInCache exceeds hb cl_removeEntry cl_bucketAlreadyExist c f C = (cb, c', f')"
  shows "\<not> tmp_defined cb"
proof -
  have "cl_hashTable c ! (unat h mod cl_SIZE_HASH c) = []" for h :: "32 word"
    using assms(2,3) by (simp add: cl_wf_def)
  then show ?thesis using e assms(1)
    by (auto simp: searchInCache_def Let_def cl_bucketAlreadyExist_def split: prod.splits)
qed

end
