(* ===== verification/BucketCl.thy ===== *)
theory BucketCl
  imports CacheBucket
begin

unbundle bit_operations_syntax

text \<open>
  \<^verbatim>\<open>src/src/caching/bucket/cnf/BucketManagerCnfCl.hpp\<close>: the representation of a component by its
  variables and its residual clauses, the default one of the program. The clauses that contain a
  literal are kept as positions in \<^verbatim>\<open>distrib\<close>; buckets of clauses that are equal so far are split
  literal by literal, and of equal clauses only the first is kept. The result is written bit by bit
  into the block that the allocator gives.

  \<^verbatim>\<open>distrib\<close> is the list of the \<^verbatim>\<open>sizeDistrib\<close> values in use; the other arrays have their size. The
  memory of a block is the list of the bytes from its start to the end of its page, so a write behind
  the block is seen.
\<close>

section \<open>State\<close>

record BucketSortInfo =
  bs_start :: nat
  bs_end :: nat
  bs_counter :: nat
  bs_redirected :: nat

definition newSortInfo :: "nat \<Rightarrow> BucketSortInfo" where
  "newSortInfo i = \<lparr>bs_start = i, bs_end = i, bs_counter = 0, bs_redirected = 0\<rparr>"

definition resetSortInfo :: "nat \<Rightarrow> nat \<Rightarrow> BucketSortInfo" where
  "resetSortInfo s e = \<lparr>bs_start = s, bs_end = e, bs_counter = 0, bs_redirected = 0\<rparr>"

record BucketInConstruction =
  distrib :: "nat list"
  shiftedIndexClause :: "nat list"
  shiftedSizeClause :: "nat list"
  sizeClauses :: "nat list"
  distribDiffSize :: "nat list"
  markedAsRedundant :: "bool list"
  nbClauseInDistrib :: nat
  capacityDistrib :: nat
  maxSizeClause :: nat

text \<open>The arrays are not initialised in the code; here they start with zeros.\<close>

definition newBucketInConstruction :: "'z cnfManager_scheme \<Rightarrow> BucketInConstruction" where
  "newBucketInConstruction f =
     (let nb = length (cm_clauses f); mx = cm_maxSizeClause f
      in \<lparr>distrib = [], shiftedIndexClause = replicate nb 0, shiftedSizeClause = replicate nb 0,
          sizeClauses = replicate nb 0, distribDiffSize = replicate (mx + 1) 0,
          markedAsRedundant = replicate nb False, nbClauseInDistrib = 0,
          capacityDistrib = 3 * getSumSizeClauses f + cm_nbVar f, maxSizeClause = mx\<rparr>)"

definition bic_reinit :: "BucketInConstruction \<Rightarrow> BucketInConstruction" where
  "bic_reinit ic = ic\<lparr>nbClauseInDistrib := 0, distrib := [], distribDiffSize := replicate (maxSizeClause ic + 1) 0\<rparr>"

record bucketManagerCl = bucketManagerCnf +
  cb_vec :: "BucketSortInfo list"
  cb_unusedBucket :: "nat option"
  cb_mapVar :: "nat list"
  cb_mustUnMark :: "nat list"
  cb_markIdx :: "nat option list"
  cb_inConstruction :: BucketInConstruction

definition newBucketManagerCl :: "ModeStore \<Rightarrow> nat \<Rightarrow> nat \<Rightarrow> 'z cnfManager_scheme \<Rightarrow> bucketManagerCl" where
  "newBucketManagerCl mode s1 s2 f =
     bucketManagerCnf.extend (newBucketManagerCnf mode s1 s2)
       \<lparr>cb_vec = [], cb_unusedBucket = None, cb_mapVar = replicate (cm_nbVar f + 1) 0, cb_mustUnMark = [],
        cb_markIdx = replicate (length (cm_clauses f)) None, cb_inConstruction = newBucketInConstruction f\<rparr>"

definition updIC :: "(BucketInConstruction \<Rightarrow> BucketInConstruction) \<Rightarrow> bucketManagerCl \<Rightarrow> bucketManagerCl" where
  "updIC g bm = bm\<lparr>cb_inConstruction := g (cb_inConstruction bm)\<rparr>"

section \<open>The distribution of the clauses\<close>

definition getIdxBucketSortInfo :: "bucketManagerCl \<Rightarrow> nat \<times> bucketManagerCl" where
  "getIdxBucketSortInfo bm =
     (case cb_unusedBucket bm of
        None \<Rightarrow> (length (cb_vec bm),
                 bm\<lparr>cb_vec := cb_vec bm @ [newSortInfo (nbClauseInDistrib (cb_inConstruction bm))]\<rparr>)
      | Some i \<Rightarrow> (i, bm\<lparr>cb_unusedBucket := None\<rparr>))"

fun siftDown :: "nat \<Rightarrow> nat list \<Rightarrow> nat list" where
  "siftDown 0 tab = tab"
| "siftDown (Suc i) tab =
     (if tab ! Suc i < tab ! i then siftDown i (tab[Suc i := tab ! i, i := tab ! Suc i]) else tab)"

definition pushSorted :: "nat list \<Rightarrow> nat \<Rightarrow> nat list" where
  "pushSorted tab val = siftDown (length tab) (tab @ [val])"

text \<open>\<^verbatim>\<open>getVecIdxClause(l, mode)\<close>: the clauses of the mode that contain the literal.\<close>

definition getVecIdxClauseMode :: "'z cnfManager_scheme \<Rightarrow> lit \<Rightarrow> ModeStore \<Rightarrow> nat list" where
  "getVecIdxClauseMode f l mode =
     (if mode = CACHE_NT then getVecIdxClauseNotBin f l
      else if mode = CACHE_ALL then getVecIdxClause f l
      else getVecIdxClauseBin f l)"

text \<open>One clause of the literal: the state, the positions, the new clauses, the split buckets and the next index.\<close>

definition distribClause ::
  "'z cnfManager_scheme \<Rightarrow> nat \<Rightarrow> bucketManagerCl \<times> nat list \<times> nat \<times> nat list \<times> nat \<Rightarrow> nat
     \<Rightarrow> bucketManagerCl \<times> nat list \<times> nat \<times> nat list \<times> nat" where
  "distribClause f ownBucket st idx =
     (let (bm, tab, counter, idIn, nextBucket) = st; ic = cb_inConstruction bm
      in if \<not> isKeptClause (bm_modeStore bm) f idx then st
         else case cb_markIdx bm ! idx of
           None \<Rightarrow>
             (updIC (\<lambda>ic. ic\<lparr>sizeClauses := (sizeClauses ic)[idx := 1]\<rparr>)
                (bm\<lparr>cb_mustUnMark := cb_mustUnMark bm @ [idx], cb_markIdx := (cb_markIdx bm)[idx := Some ownBucket]\<rparr>),
              pushSorted tab (nbClauseInDistrib ic + counter), counter + 1, idIn, nextBucket)
         | Some k \<Rightarrow>
             (let b = cb_vec bm ! k;
                  redirected = (if bs_counter b = 0 then nextBucket else bs_redirected b)
              in (updIC (\<lambda>ic. ic\<lparr>sizeClauses := (sizeClauses ic)[idx := sizeClauses ic ! idx + 1]\<rparr>)
                    (bm\<lparr>cb_vec := (cb_vec bm)[k := b\<lparr>bs_redirected := redirected, bs_counter := bs_counter b + 1\<rparr>],
                        cb_markIdx := (cb_markIdx bm)[idx := Some redirected]\<rparr>),
                  pushSorted tab (bs_start b + bs_counter b), counter,
                  (if bs_counter b = 0 then idIn @ [k] else idIn),
                  (if bs_counter b = 0 then nextBucket + 1 else nextBucket))))"

definition splitBucket :: "BucketSortInfo list \<Rightarrow> nat \<Rightarrow> BucketSortInfo list" where
  "splitBucket vec bid =
     (let b = vec ! bid
      in vec[bs_redirected b := resetSortInfo (bs_start b) (bs_start b + bs_counter b),
             bid := b\<lparr>bs_start := bs_start b + bs_counter b, bs_counter := 0\<rparr>])"

definition createDistribWrTLit :: "'z cnfManager_scheme \<Rightarrow> lit \<Rightarrow> bucketManagerCl \<Rightarrow> bucketManagerCl" where
  "createDistribWrTLit f l bm0 =
     (let (ownBucket, bm1) = getIdxBucketSortInfo bm0;
          (bm2, tab, counter, idIn, nextBucket) =
            foldl (distribClause f ownBucket) (bm1, [], 0, [], length (cb_vec bm1))
              (getVecIdxClauseMode f l (bm_modeStore bm0));
          vec = foldl splitBucket (cb_vec bm2 @ replicate (length idIn) (newSortInfo 0)) idIn;
          bm3 = bm2\<lparr>cb_vec := vec\<rparr>;
          nb = nbClauseInDistrib (cb_inConstruction bm3);
          bm4 = (if counter = 0 then bm3\<lparr>cb_unusedBucket := Some ownBucket\<rparr>
                 else updIC (\<lambda>ic. ic\<lparr>nbClauseInDistrib := nb + counter\<rparr>)
                        (bm3\<lparr>cb_vec := vec[ownBucket := resetSortInfo nb (nb + counter)]\<rparr>))
      in if tab = [] then bm4
         else updIC (\<lambda>ic. ic\<lparr>distrib := distrib ic @ [intern l, length tab] @ tab\<rparr>) bm4)"

definition unmarkClause :: "bucketManagerCl \<Rightarrow> nat \<Rightarrow> bucketManagerCl" where
  "unmarkClause bm idx =
     (let k = the (cb_markIdx bm ! idx); b = cb_vec bm ! k
      in updIC (\<lambda>ic. ic\<lparr>shiftedSizeClause := (shiftedSizeClause ic)[bs_start b := sizeClauses ic ! idx],
                        markedAsRedundant := foldl (\<lambda>r j. r[j := True]) (markedAsRedundant ic)
                          (if bs_end b \<noteq> bs_start b + 1 then [bs_start b + 1 ..< bs_end b] else [])\<rparr>)
           (bm\<lparr>cb_markIdx := (cb_markIdx bm)[idx := None],
               cb_vec := (cb_vec bm)[k := b\<lparr>bs_end := (if bs_end b \<noteq> bs_start b + 1 then bs_start b + 1 else bs_end b)\<rparr>]\<rparr>))"

definition shiftClause :: "nat \<times> BucketInConstruction \<Rightarrow> nat \<Rightarrow> nat \<times> BucketInConstruction" where
  "shiftClause st i =
     (let (index, ic) = st
      in if \<not> markedAsRedundant ic ! i
         then (let s = shiftedSizeClause ic ! i
               in (index + 1,
                   ic\<lparr>distribDiffSize := (distribDiffSize ic)[s := distribDiffSize ic ! s + 1],
                      shiftedSizeClause := (shiftedSizeClause ic)[index := s],
                      shiftedIndexClause := (shiftedIndexClause ic)[i := index],
                      markedAsRedundant := (markedAsRedundant ic)[i := False]\<rparr>))
         else (index, ic\<lparr>shiftedIndexClause := (shiftedIndexClause ic)[i := length (distrib ic)],
                         markedAsRedundant := (markedAsRedundant ic)[i := False]\<rparr>))"

definition distribVar :: "'z cnfManager_scheme \<Rightarrow> bucketManagerCl \<Rightarrow> var \<Rightarrow> bucketManagerCl" where
  "distribVar f bm v =
     (if varIsAssigned f v then bm
      else createDistribWrTLit f (makeLitTrue v) (createDistribWrTLit f (makeLitFalse v) bm))"

text \<open>\<^verbatim>\<open>collectDistrib\<close>; the size that it returns is not used and left out.\<close>

definition collectDistrib :: "'z cnfManager_scheme \<Rightarrow> var list \<Rightarrow> bucketManagerCl \<Rightarrow> bucketManagerCl" where
  "collectDistrib f component bm0 =
     (let bm1 = foldl (distribVar f) bm0 component;
          bm2 = (foldl unmarkClause bm1 (cb_mustUnMark bm1))\<lparr>cb_mustUnMark := []\<rparr>;
          ic = cb_inConstruction bm2;
          (index, ic') = foldl shiftClause (0, ic) [0 ..< nbClauseInDistrib ic]
      in bm2\<lparr>cb_inConstruction := ic'\<lparr>nbClauseInDistrib := index\<rparr>\<rparr>)"

definition initSortBucket :: "bucketManagerCl \<Rightarrow> bucketManagerCl" where
  "initSortBucket bm = (updIC bic_reinit bm)\<lparr>cb_unusedBucket := None, cb_vec := []\<rparr>"

section \<open>Sizes\<close>

record AllocSizeInfo =
  nbBitEltVar :: nat
  nbByteStoreVar :: nat
  nbByteStoreFormula :: nat
  nbBitStoreLit :: nat
  totalByte :: nat

definition nbBitStep :: "nat \<times> nat \<Rightarrow> nat \<times> nat \<Rightarrow> nat \<times> nat" where
  "nbBitStep st bs = (let (v, r) = st; (b, s) = bs in if v AND b \<noteq> 0 then (drop_bit s v, r OR s) else (v, r))"

definition nbBitUnsigned :: "nat \<Rightarrow> nat" where
  "nbBitUnsigned v =
     snd (foldl nbBitStep (v, 0) [(0xFFFF0000, 16), (0xFF00, 8), (0xF0, 4), (0xC, 2), (0x2, 1)]) + 1"

definition computeNeededBytes :: "var list \<Rightarrow> BucketInConstruction \<Rightarrow> AllocSizeInfo" where
  "computeNeededBytes component ic =
     (let bitElt = nbBitUnsigned (last component);
          byteVar = 1 + drop_bit 3 (bitElt * length component - 1);
          byteModeArray = 1 + drop_bit 3 (last component - 1);
          modeArray = byteModeArray < byteVar;
          bitLit = nbBitUnsigned (2 + push_bit 1 (length component));
          sizes = filter (\<lambda>i. distribDiffSize ic ! i \<noteq> 0) [0 ..< maxSizeClause ic + 1];
          cptDistrib = length sizes;
          cptLitFormula = foldl (\<lambda>c i. c + i * distribDiffSize ic ! i) 0 sizes;
          nbVarBytes = (if modeArray then byteModeArray else byteVar);
          nbFormulaBytes = (if cptDistrib = 0 then 0
            else 1 + drop_bit 3 (bitLit * (push_bit 1 cptDistrib + cptLitFormula)))
      in \<lparr>nbBitEltVar = (if modeArray then 0 else bitElt), nbByteStoreVar = nbVarBytes,
          nbByteStoreFormula = nbFormulaBytes, nbBitStoreLit = bitLit, totalByte = nbVarBytes + nbFormulaBytes\<rparr>)"

section \<open>Writing bits\<close>

definition orByte :: "8 word list \<Rightarrow> nat \<Rightarrow> nat \<Rightarrow> 8 word list" where
  "orByte data p x = data[p := (data ! p) OR of_nat x]"

text \<open>The loop that fills whole bytes: the data, the position, the value and the bits that are left.\<close>

function fillBytes ::
  "8 word list \<Rightarrow> nat \<Rightarrow> nat \<Rightarrow> nat \<Rightarrow> nat \<Rightarrow> 8 word list \<times> nat \<times> nat \<times> nat \<times> nat" where
  "fillBytes data p val nbBit remainingBit =
     (if remainingBit \<noteq> 0 \<and> nbBit \<ge> remainingBit
      then fillBytes (orByte data p (val AND (push_bit remainingBit 1 - 1))) (p + 1) (drop_bit remainingBit val)
             (nbBit - remainingBit) 8
      else (data, p, val, nbBit, remainingBit))"
  by pat_completeness auto

termination fillBytes
  by (relation "measure (\<lambda>(data, p, val, nbBit, r). nbBit)") auto

declare fillBytes.simps [simp del]

definition addElementInData ::
  "8 word list \<Rightarrow> nat \<Rightarrow> nat \<Rightarrow> nat \<Rightarrow> nat \<Rightarrow> 8 word list \<times> nat \<times> nat" where
  "addElementInData data0 p0 val0 nbBit0 remainingBit0 =
     (let (p1, r1) = (if remainingBit0 = 0 then (p0 + 1, 8) else (p0, remainingBit0));
          (data, p, val, nbBit, remainingBit) = fillBytes data0 p1 val0 nbBit0 r1
      in if nbBit \<noteq> 0 then (orByte data p (push_bit (remainingBit - nbBit) val), p, remainingBit - nbBit)
         else (data, p, remainingBit))"

definition clearBytes :: "nat \<Rightarrow> nat \<Rightarrow> 8 word list \<Rightarrow> 8 word list" where
  "clearBytes p k data = foldl (\<lambda>d i. d[i := 0]) data [p ..< p + k]"

text \<open>\<^verbatim>\<open>storeVariables\<close>: a bit per variable, or the variables with the same number of bits each.\<close>

definition storeVariables :: "AllocSizeInfo \<Rightarrow> 8 word list \<Rightarrow> var list \<Rightarrow> 8 word list" where
  "storeVariables info data0 component =
     (let data = clearBytes 0 (nbByteStoreVar info) data0
      in if nbBitEltVar info = 0
         then foldl (\<lambda>d v. orByte d (drop_bit 3 v) (push_bit (v AND 7) 1)) data component
         else fst (foldl (\<lambda>(d, p, r) v. addElementInData d p v (nbBitEltVar info) r) (data, 0, 8) component))"

text \<open>\<^verbatim>\<open>storeClauses\<close>, with the start of the clauses as an offset \<open>base\<close> into the block.\<close>

definition posWrtClauseSize :: "AllocSizeInfo \<Rightarrow> BucketInConstruction \<Rightarrow> nat \<Rightarrow> nat list \<Rightarrow> nat list" where
  "posWrtClauseSize info ic offset sizes =
     fst (foldl (\<lambda>(pos, off) i.
         (pos[i := off], off + nbBitStoreLit info + distribDiffSize ic ! i * i * nbBitStoreLit info))
       (replicate (maxSizeClause ic + 1) 0, offset) sizes)"

definition offsetClauses :: "AllocSizeInfo \<Rightarrow> BucketInConstruction \<Rightarrow> nat list \<Rightarrow> nat list \<times> nat list \<times> nat list" where
  "offsetClauses info ic pos0 =
     foldl (\<lambda>(pos, offs, szs) i.
         let sz = szs ! i
         in if sz = 0 then (pos, offs, szs)
            else (pos[sz := pos ! sz + sz * nbBitStoreLit info], offs[i := pos ! sz], szs[i := 0]))
       (pos0, replicate (length (shiftedSizeClause ic) + 1) 0, shiftedSizeClause ic) [0 ..< nbClauseInDistrib ic]"

fun storePositions ::
  "AllocSizeInfo \<Rightarrow> BucketInConstruction \<Rightarrow> nat \<Rightarrow> nat \<Rightarrow> nat list \<Rightarrow> 8 word list \<times> nat list \<Rightarrow> 8 word list \<times> nat list" where
  "storePositions info ic p l [] st = st"
| "storePositions info ic p l (q # qs) (data, offs) =
     (let idx = shiftedIndexClause ic ! q
      in if idx \<ge> nbClauseInDistrib ic then storePositions info ic p l qs (data, offs)
         else let off = offs ! idx;
                  (data', _, _) = addElementInData data (p + drop_bit 3 off) l (nbBitStoreLit info) (8 - (off AND 7))
              in storePositions info ic p l qs (data', offs[idx := off + nbBitStoreLit info]))"

function storeDistrib ::
  "AllocSizeInfo \<Rightarrow> BucketInConstruction \<Rightarrow> nat list \<Rightarrow> nat \<Rightarrow> nat list \<Rightarrow> 8 word list \<times> nat list \<Rightarrow> 8 word list" where
  "storeDistrib info ic mapVar p (lit # sz # rest) st =
     (let l = (push_bit 1 (mapVar ! drop_bit 1 lit)) OR (lit AND 1)
      in storeDistrib info ic mapVar p (drop sz rest) (storePositions info ic p l (take sz rest) st))"
| "storeDistrib info ic mapVar p [] st = fst st"
| "storeDistrib info ic mapVar p [x] st = fst st"
  by pat_completeness auto

termination storeDistrib
  by (relation "measure (\<lambda>(info, ic, m, p, xs, st). length xs)") auto

definition storeClauses ::
  "AllocSizeInfo \<Rightarrow> 8 word list \<Rightarrow> nat \<Rightarrow> var list \<Rightarrow> bucketManagerCl \<Rightarrow> 8 word list \<times> bucketManagerCl" where
  "storeClauses info data0 base component bm =
     (let ic = cb_inConstruction bm;
          data1 = clearBytes base (nbByteStoreFormula info) data0;
          mapVar = foldl (\<lambda>m i. m[component ! i := i + 1]) (cb_mapVar bm) [0 ..< length component];
          sizes = filter (\<lambda>i. distribDiffSize ic ! i \<noteq> 0) [0 ..< maxSizeClause ic + 1];
          (data2, p, remaining) =
            foldl (\<lambda>(d, p, r) i. addElementInData d p i (nbBitStoreLit info) r) (data1, base, 8) sizes;
          pos = posWrtClauseSize info ic ((8 - remaining) + nbBitStoreLit info) sizes;
          (_, offs, szs) = offsetClauses info ic pos
      in (storeDistrib info ic mapVar p (distrib ic) (data2, offs),
          updIC (\<lambda>ic. ic\<lparr>shiftedSizeClause := szs\<rparr>) (bm\<lparr>cb_mapVar := mapVar\<rparr>)))"

text \<open>\<^verbatim>\<open>storeFormula\<close>: \<open>page\<close> holds the bytes of the page from the block that \<^verbatim>\<open>getArray\<close> returns.\<close>

definition cl_storeFormula ::
  "bucketManagerCl \<Rightarrow> 'z cnfManager_scheme \<Rightarrow> var list \<Rightarrow> (addr \<Rightarrow> 8 word list)
     \<Rightarrow> 'u CachedBucket \<times> bucketManagerCl \<times> 8 word list" where
  "cl_storeFormula bm0 f component page =
     (let bm1 = collectDistrib f component (initSortBucket bm0);
          info = computeNeededBytes component (cb_inConstruction bm1);
          (ptr, a) = getArray (totalByte info) (bm_bucketAllocator bm1);
          bm2 = bm1\<lparr>bm_bucketAllocator := a\<rparr>;
          data1 = storeVariables info (page ptr) component;
          (data2, bm3) = (if nbClauseInDistrib (cb_inConstruction bm2) \<noteq> 0
             then storeClauses info data1 (nbByteStoreVar info) component bm2 else (data1, bm2))
      in (\<lparr>bptr = ptr, bdata = take (totalByte info) data2,
           info1 = DataInfo (of_nat (totalByte info)) (of_nat (length component)) (of_nat (nbBitEltVar info))
                     (of_nat (nbBitStoreLit info)), fc = None\<rparr>, bm3, data2))"

end
