(* ===== verification/BucketClCorrect.thy ===== *)
theory BucketClCorrect
  imports BucketCl CnfLaws
begin

unbundle bit_operations_syntax

text \<open>
  What the clause representation guarantees and where it does not: the insertion of a position, the
  number of bits of a value, reading back the bits that were written, the byte that is written behind
  the block, and the mode that forgets the clauses.
\<close>

section \<open>Insertion\<close>

lemma siftDown_insort:
  "sorted xs \<Longrightarrow> siftDown (length xs) (xs @ v # ys) = insort v xs @ ys"
proof (induction xs arbitrary: ys rule: rev_induct)
  case (snoc z zs)
  have s: "sorted zs" "\<forall>x\<in>set zs. x \<le> z" using snoc.prems by (auto simp: sorted_append)
  show ?case
  proof (cases "v < z")
    case True
    have "insort v (zs @ [z]) = insort v zs @ [z]" using s(2) True
      by (induction zs) auto
    moreover have "siftDown (length (zs @ [z])) ((zs @ [z]) @ v # ys) = siftDown (length zs) (zs @ v # z # ys)"
      using True by (simp add: nth_append list_update_append)
    ultimately show ?thesis using snoc.IH [OF s(1), of "z # ys"] by simp
  next
    case False
    have "sorted (zs @ [z, v])" using s False by (auto simp: sorted_append)
    moreover have "mset (zs @ [z, v]) = mset (insort v (zs @ [z]))" by simp
    moreover have "sorted (insort v (zs @ [z]))" using snoc.prems by (rule sorted_insort [THEN iffD2])
    ultimately have "insort v (zs @ [z]) = zs @ [z, v]" by (metis properties_for_sort sorted_sort_id)
    then show ?thesis using False by (simp add: nth_append)
  qed
qed simp

lemma pushSorted_insort: "sorted tab \<Longrightarrow> pushSorted tab v = insort v tab"
  using siftDown_insort [of tab v "[]"] by (simp add: pushSorted_def)

section \<open>The number of bits\<close>

lemma and_upper:
  assumes "v < 2 ^ (2 * s)"
  shows "(v AND push_bit s (mask s) \<noteq> 0) = (2 ^ s \<le> (v :: nat))"
proof -
  have "v AND push_bit s (mask s) = push_bit s (drop_bit s v)"
  proof (rule bit_eqI)
    fix i
    have "bit v i \<Longrightarrow> i < 2 * s"
      using assms by (metis bit_take_bit_iff take_bit_nat_eq_self)
    then show "bit (v AND push_bit s (mask s)) i = bit (push_bit s (drop_bit s v)) i"
      by (auto simp: bit_simps)
  qed
  then show ?thesis by (simp add: push_bit_eq_mult drop_bit_eq_div div_eq_0_iff not_less)
qed

definition nbits_inv :: "nat \<Rightarrow> nat \<Rightarrow> nat \<times> nat \<Rightarrow> bool" where
  "nbits_inv V s st \<longleftrightarrow> fst st = drop_bit (snd st) V \<and> fst st < 2 ^ s \<and> s dvd snd st \<and> (V > 0 \<longrightarrow> fst st > 0)"

lemma or_power:
  assumes "2 ^ (j + 1) dvd r"
  shows "r OR 2 ^ j = r + (2 ^ j :: nat)"
proof -
  obtain q where "r = push_bit (j + 1) q" using assms by (auto simp: push_bit_eq_mult mult.commute elim!: dvdE)
  then have "\<not> bit r i \<or> \<not> bit (push_bit j 1 :: nat) i" for i by (auto simp: bit_simps bit_0)
  then show ?thesis using disjunctive_add [of r "push_bit j 1"] by (simp add: push_bit_eq_mult)
qed

lemma nbits_step:
  assumes "nbits_inv V (2 ^ Suc j) st"
  shows "nbits_inv V (2 ^ j) (nbBitStep st (push_bit (2 ^ j) (mask (2 ^ j)), 2 ^ j))"
proof -
  obtain v r where st: "st = (v, r)" by fastforce
  have i: "v = drop_bit r V" "v < 2 ^ (2 * 2 ^ j)" "2 ^ (j + 1) dvd r" "V > 0 \<Longrightarrow> v > 0"
    using assms by (auto simp: nbits_inv_def st)
  note o = or_power [OF i(3)] and a = and_upper [OF i(2)]
  have "2 ^ j dvd r" using i(3) by (meson dvd_trans le_imp_power_dvd le_add1)
  moreover have "2 ^ 2 ^ j \<le> v \<Longrightarrow> drop_bit (2 ^ j) v > 0 \<and> drop_bit (2 ^ j) v < 2 ^ 2 ^ j"
    using i(2) by (simp add: drop_bit_eq_div div_greater_zero_iff less_mult_imp_div_less power_add mult_2)
  moreover have "drop_bit (2 ^ j) v = drop_bit (r + 2 ^ j) V" unfolding i(1) by (simp add: add.commute)
  ultimately show ?thesis using i(1,4) a o by (auto simp: nbits_inv_def st not_le nbBitStep_def)
qed

lemma nbBitUnsigned_bounds:
  assumes "V < 2 ^ 32"
  shows "V < 2 ^ nbBitUnsigned V" "V > 0 \<Longrightarrow> 2 ^ (nbBitUnsigned V - 1) \<le> V" "nbBitUnsigned V \<ge> 1"
proof -
  have c: "(0xFFFF0000 :: nat, 16 :: nat) = (push_bit (2 ^ 4) (mask (2 ^ 4)), 2 ^ 4)"
    "(0xFF00 :: nat, 8 :: nat) = (push_bit (2 ^ 3) (mask (2 ^ 3)), 2 ^ 3)"
    "(0xF0 :: nat, 4 :: nat) = (push_bit (2 ^ 2) (mask (2 ^ 2)), 2 ^ 2)"
    "(0xC :: nat, 2 :: nat) = (push_bit (2 ^ 1) (mask (2 ^ 1)), 2 ^ 1)"
    "(0x2 :: nat, 1 :: nat) = (push_bit (2 ^ 0) (mask (2 ^ 0)), 2 ^ 0)"
    by (simp_all add: push_bit_eq_mult mask_eq_exp_minus_1)
  define st where "st = foldl nbBitStep (V, 0) [(0xFFFF0000, 16), (0xFF00, 8), (0xF0, 4), (0xC, 2), (0x2, 1)]"
  have "nbits_inv V (2 ^ Suc 4) (V, 0)" using assms by (simp add: nbits_inv_def)
  note nbits_step [OF this]
  note nbits_step [of V 3, simplified Suc_numeral semiring_norm, OF this]
  note nbits_step [of V 2, simplified Suc_numeral semiring_norm, OF this]
  note nbits_step [of V 1, simplified Suc_1, OF this]
  note nbits_step [of V 0, unfolded One_nat_def [symmetric], OF this]
  then have "nbits_inv V (2 ^ 0) st" unfolding st_def c foldl.simps .
  then have i: "fst st = drop_bit (snd st) V" "fst st < 2" "V > 0 \<Longrightarrow> fst st > 0" by (auto simp: nbits_inv_def)
  have nb: "nbBitUnsigned V = snd st + 1" by (simp add: nbBitUnsigned_def st_def)
  show "V < 2 ^ nbBitUnsigned V" using i(1,2) by (simp add: nb drop_bit_eq_div div_less_iff_less_mult mult.commute)
  show "V > 0 \<Longrightarrow> 2 ^ (nbBitUnsigned V - 1) \<le> V" using i(1,3) by (simp add: nb drop_bit_eq_div div_greater_zero_iff)
  show "nbBitUnsigned V \<ge> 1" by (simp add: nb)
qed

section \<open>Reading back the bits\<close>

text \<open>The inverse of \<open>addElementInData\<close>: the low bits come first, the last ones are the high bits that are left of a byte.\<close>

function readElement :: "8 word list \<Rightarrow> nat \<Rightarrow> nat \<Rightarrow> nat \<Rightarrow> nat" where
  "readElement m p nb r =
     (if nb = 0 \<or> r = 0 then 0
      else if nb \<ge> r then unat (m ! p) mod 2 ^ r + 2 ^ r * readElement m (p + 1) (nb - r) 8
      else unat (m ! p) mod 2 ^ r div 2 ^ (r - nb))"
  by pat_completeness auto

termination readElement
  by (relation "measure (\<lambda>(m, p, nb, r). nb)") auto

declare readElement.simps [simp del]

definition freeBits :: "8 word list \<Rightarrow> nat \<Rightarrow> nat \<Rightarrow> bool" where
  "freeBits m p r \<longleftrightarrow> (p < length m \<longrightarrow> unat (m ! p) mod 2 ^ r = 0) \<and> (\<forall>q. p < q \<and> q < length m \<longrightarrow> m ! q = 0)"

definition agree :: "8 word list \<Rightarrow> 8 word list \<Rightarrow> nat \<Rightarrow> nat \<Rightarrow> bool" where
  "agree m m' p r \<longleftrightarrow> length m' = length m \<and> (\<forall>q<p. m' ! q = m ! q)
     \<and> (p < length m \<longrightarrow> unat (m' ! p) div 2 ^ r = unat (m ! p) div 2 ^ r)"

lemma or_low:
  assumes "a mod 2 ^ r = 0" "x < (2 :: nat) ^ r"
  shows "a OR x = a + x"
proof -
  obtain q where a: "a = push_bit r q" using assms(1) by (auto simp: push_bit_eq_mult mult.commute mod_eq_0_iff_dvd elim!: dvdE)
  have "bit x i \<Longrightarrow> i < r" for i using assms(2) by (metis bit_take_bit_iff take_bit_nat_eq_self)
  then have "\<not> bit a i \<or> \<not> bit x i" for i unfolding a by (cases "bit x i") (simp_all add: bit_simps not_le)
  then show ?thesis using disjunctive_add [of a x] by simp
qed

lemma orByte_value:
  assumes "p < length m" "unat (m ! p) mod 2 ^ r = 0" "x < 2 ^ r" "r \<le> 8"
  shows "unat (orByte m p x ! p) = unat (m ! p) + x" "length (orByte m p x) = length m"
    "q \<noteq> p \<Longrightarrow> orByte m p x ! q = m ! q"
proof -
  have "x < 2 ^ 8" using assms(3,4) by (meson less_le_trans one_le_numeral power_increasing)
  then have "unat (of_nat x :: 8 word) = x" by (simp add: unat_of_nat)
  then show "unat (orByte m p x ! p) = unat (m ! p) + x"
    using assms(1) or_low [OF assms(2,3)] by (simp add: orByte_def unsigned_or_eq)
qed (simp_all add: orByte_def)

definition written :: "8 word list \<Rightarrow> nat \<Rightarrow> nat \<Rightarrow> nat \<Rightarrow> nat \<Rightarrow> 8 word list \<times> nat \<times> nat \<Rightarrow> bool" where
  "written m p val nb r st \<longleftrightarrow> (case st of (m', p', r') \<Rightarrow>
     1 \<le> r' \<and> r' \<le> 8 \<and> 8 * p' + (8 - r') = 8 * p + (8 - r) + nb \<and> agree m m' p r \<and> freeBits m' p' r'
     \<and> readElement m' p nb r = val)"

lemma fillBytes_ok:
  assumes "1 \<le> r" "r \<le> 8" "freeBits m p r" "8 * p + (8 - r) + nb \<le> 8 * length m" "val < 2 ^ nb"
  shows "written m p val nb r (let (m', p', val', nb', r') = fillBytes m p val nb r
      in if nb' \<noteq> 0 then (orByte m' p' (push_bit (r' - nb') val'), p', r' - nb') else (m', p', r'))"
  using assms
proof (induction m p val nb r rule: fillBytes.induct)
  case (1 m p val nb r)
  note prems = "1.prems"
  show ?case
  proof (cases "nb \<ge> r")
    case True
    have p: "p < length m" using prems(1,2,4) True by linarith
    have low: "val AND (push_bit r 1 - 1) = val mod 2 ^ r"
      using take_bit_eq_mask [of r val] by (simp add: push_bit_eq_mult mask_eq_exp_minus_1 take_bit_eq_mod)
    have c: "r \<noteq> 0 \<and> r \<le> nb" using True prems(1) by simp
    define m1 where "m1 = orByte m p (val mod 2 ^ r)"
    have z: "unat (m ! p) mod 2 ^ r = 0" using prems(3) p by (simp add: freeBits_def)
    note o = orByte_value [OF p z _ prems(2), of "val mod 2 ^ r", folded m1_def, simplified]
    have fr: "freeBits m1 (p + 1) 8" using prems(3) o(2,3) by (auto simp: freeBits_def)
    have rm: "8 * (p + 1) + (8 - 8) + (nb - r) \<le> 8 * length m1" using prems(2,4) True o(2) by simp
    have v: "drop_bit r val < 2 ^ (nb - r)"
      using prems(5) True by (simp add: drop_bit_eq_div less_mult_imp_div_less flip: power_add)
    have e: "fillBytes m p val nb r = fillBytes m1 (p + 1) (drop_bit r val) (nb - r) 8"
      by (subst fillBytes.simps, subst if_P [OF c]) (simp only: low m1_def)
    define res where "res = (let (m', p', val', nb', r') = fillBytes m p val nb r
      in if nb' \<noteq> 0 then (orByte m' p' (push_bit (r' - nb') val'), p', r' - nb') else (m', p', r'))"
    have w: "written m1 (p + 1) (drop_bit r val) (nb - r) 8 res"
      unfolding res_def e using "1.IH" [OF c, unfolded low, folded m1_def, OF _ _ fr rm v] by simp
    obtain m' p' r' where res: "res = (m', p', r')" by (metis prod_cases3)
    have w': "1 \<le> r'" "r' \<le> 8" "8 * p' + (8 - r') = 8 * (p + 1) + (nb - r)" "agree m1 m' (p + 1) 8" "freeBits m' p' r'"
      "readElement m' (p + 1) (nb - r) 8 = drop_bit r val" using w by (auto simp: written_def res)
    have dp: "m' ! p = m1 ! p" "length m' = length m" "\<forall>q<p. m' ! q = m ! q" using w'(4) o(2,3) by (auto simp: agree_def)
    have a: "unat (m' ! p) = unat (m ! p) + val mod 2 ^ r" using dp(1) o(1) by simp
    have "agree m m' p r" using dp a z by (auto simp: agree_def div_add1_eq)
    moreover have "readElement m' p nb r = val"
    proof -
      have "unat (m' ! p) mod 2 ^ r = val mod 2 ^ r" using a z by (simp add: mod_add_eq [of "unat (m ! p)", symmetric])
      then have "readElement m' p nb r = val mod 2 ^ r + 2 ^ r * (val div 2 ^ r)"
        using True prems(1) w'(6) by (subst readElement.simps) (simp add: drop_bit_eq_div)
      then show ?thesis by simp
    qed
    moreover have "8 * p' + (8 - r') = 8 * p + (8 - r) + nb" using w'(3) prems(2) True by simp
    ultimately show ?thesis using w' unfolding res_def [symmetric] by (simp add: written_def res)
  next
    case False
    then have f: "fillBytes m p val nb r = (m, p, val, nb, r)" by (subst fillBytes.simps) simp
    show ?thesis
    proof (cases "nb = 0")
      case True
      then show ?thesis using prems f by (simp add: written_def agree_def readElement.simps)
    next
      case nz: False
      have p: "p < length m" using prems(1,2,4) nz by linarith
      have z: "unat (m ! p) mod 2 ^ r = 0" using prems(3) p by (simp add: freeBits_def)
      define x where "x = push_bit (r - nb) val"
      have "val * 2 ^ (r - nb) < 2 ^ nb * 2 ^ (r - nb)" using prems(5) by simp
      then have x: "x < 2 ^ r" "x = val * 2 ^ (r - nb)" using False by (simp_all add: x_def push_bit_eq_mult flip: power_add)
      note o = orByte_value [OF p z x(1) prems(2)]
      obtain k where k: "unat (m ! p) = 2 ^ r * k" using z by (auto simp: mod_eq_0_iff_dvd elim: dvdE)
      have r: "(2::nat) ^ r = 2 ^ nb * 2 ^ (r - nb)" using False by (simp flip: power_add)
      have m: "unat (orByte m p x ! p) mod 2 ^ r = x" "unat (orByte m p x ! p) div 2 ^ r = unat (m ! p) div 2 ^ r"
        "unat (orByte m p x ! p) mod 2 ^ (r - nb) = 0"
        using o(1) x k by (simp_all add: r)
      have "readElement (orByte m p x) p nb r = val"
        using False nz m(1) x(2) by (subst readElement.simps) simp
      moreover have "agree m (orByte m p x) p r" "freeBits (orByte m p x) p (r - nb)"
        using o(2,3) m prems(3) by (auto simp: agree_def freeBits_def)
      moreover have "1 \<le> r - nb" "r - nb \<le> 8" "8 * p + (8 - (r - nb)) = 8 * p + (8 - r) + nb"
        using False prems(2) by linarith+
      ultimately show ?thesis using nz by (simp only: f Let_def prod.case written_def x_def) simp
    qed
  qed
qed

lemma addElementInData_ok:
  assumes "1 \<le> r" "r \<le> 8" "freeBits m p r" "8 * p + (8 - r) + nb \<le> 8 * length m" "val < 2 ^ nb"
  shows "written m p val nb r (addElementInData m p val nb r)"
  using fillBytes_ok [OF assms] assms(1)
  by (simp add: addElementInData_def split: prod.splits)

text \<open>Later writes do not change an element.\<close>

lemma readElement_agree:
  assumes "agree m m' p' r'" "1 \<le> r'" "r' \<le> 8" "1 \<le> r" "r \<le> 8" "8 * p + (8 - r) + nb \<le> 8 * p' + (8 - r')"
    and "8 * p + (8 - r) + nb \<le> 8 * length m"
  shows "readElement m' p nb r = readElement m p nb r"
  using assms
proof (induction m p nb r rule: readElement.induct)
  case (1 m p nb r)
  show ?case
  proof (cases "nb \<ge> r \<and> nb \<noteq> 0")
    case True
    then have p: "p < p'" using "1.prems"(2,5,6) by linarith
    have "8 * p + (8 - r) + nb = 8 * (p + 1) + (8 - 8) + (nb - r)" using "1.prems"(5) True by simp
    then have "readElement m' (p + 1) (nb - r) 8 = readElement m (p + 1) (nb - r) 8"
      using True "1.prems" by (intro "1.IH") simp_all
    then show ?thesis using p True "1.prems"(1) by (subst (1 2) readElement.simps) (simp add: agree_def)
  next
    case False
    show ?thesis
    proof (cases "nb = 0 \<or> p < p'")
      case True
      then show ?thesis using False "1.prems"(1) by (subst (1 2) readElement.simps) (auto simp: agree_def)
    next
      case nz: False
      then have p: "p = p'" "r' \<le> r - nb" using "1.prems"(2,3,5,6) False by linarith+
      have div: "x mod 2 ^ r div 2 ^ (r - nb) = x div 2 ^ r' div 2 ^ (r - nb - r') mod (2 :: nat) ^ nb" for x
      proof -
        have nb: "r - (r - nb) = nb" using False by auto
        have "x mod 2 ^ r div 2 ^ (r - nb) = x div 2 ^ (r - nb) mod 2 ^ nb"
          using nb by (simp flip: take_bit_eq_mod drop_bit_eq_div add: drop_bit_take_bit)
        also have "x div 2 ^ (r - nb) = x div (2 ^ r' * 2 ^ (r - nb - r'))" 
          using power_add [of "2 :: nat" r' "r - nb - r'"] le_add_diff_inverse [OF p(2)] by metis
        finally show ?thesis by (simp add: div_mult2_eq)
      qed
      have "p < length m" using "1.prems"(5,7) nz by linarith
      then have "unat (m' ! p) div 2 ^ r' = unat (m ! p) div 2 ^ r'" using "1.prems"(1) p(1) by (simp add: agree_def)
      then show ?thesis using False nz by (subst (1 2) readElement.simps) (simp add: div)
    qed
  qed
qed

text \<open>The element that starts at bit \<open>t\<close>.\<close>

definition elementAt :: "8 word list \<Rightarrow> nat \<Rightarrow> nat \<Rightarrow> nat" where
  "elementAt m nb t = readElement m (t div 8) nb (8 - t mod 8)"

lemma bit_position:
  assumes "1 \<le> (r :: nat)" "r \<le> 8"
  shows "(8 * p + (8 - r)) div 8 = p \<and> 8 - (8 * p + (8 - r)) mod 8 = r"
proof -
  have "8 - r < 8" using assms by linarith
  then have "(8 * p + (8 - r)) div 8 = p" "(8 * p + (8 - r)) mod 8 = 8 - r" by (simp_all only: div_mult_self4 mod_mult_self4 div_less mod_less add_0_right)
  then show ?thesis using assms by simp
qed

lemma writeElements_ok:
  assumes "1 \<le> r" "r \<le> 8" "freeBits m p r" "8 * p + (8 - r) + nb * length vs \<le> 8 * length m" "\<forall>v\<in>set vs. v < 2 ^ nb"
  shows "\<exists>m' p' r'. foldl (\<lambda>(m, p, r) v. addElementInData m p v nb r) (m, p, r) vs = (m', p', r')
    \<and> 1 \<le> r' \<and> r' \<le> 8 \<and> 8 * p' + (8 - r') = 8 * p + (8 - r) + nb * length vs \<and> length m' = length m
    \<and> freeBits m' p' r' \<and> agree m m' p r
    \<and> (\<forall>i<length vs. elementAt m' nb (8 * p + (8 - r) + nb * i) = vs ! i)"
  using assms(4,5)
proof (induction vs rule: rev_induct)
  case Nil
  then show ?case using assms(1-3) by (simp add: agree_def)
next
  case (snoc v vs)
  obtain m1 p1 r1 where f: "foldl (\<lambda>(m, p, r) v. addElementInData m p v nb r) (m, p, r) vs = (m1, p1, r1)"
    "1 \<le> r1" "r1 \<le> 8" "8 * p1 + (8 - r1) = 8 * p + (8 - r) + nb * length vs" "length m1 = length m"
    "freeBits m1 p1 r1" "agree m m1 p r" "\<forall>i<length vs. elementAt m1 nb (8 * p + (8 - r) + nb * i) = vs ! i"
    using snoc by auto
  have room: "8 * p1 + (8 - r1) + nb \<le> 8 * length m1" using snoc.prems(1) f(4,5) by simp
  obtain m2 p2 r2 where a: "addElementInData m1 p1 v nb r1 = (m2, p2, r2)" by (metis prod_cases3)
  have w: "1 \<le> r2" "r2 \<le> 8" "8 * p2 + (8 - r2) = 8 * p1 + (8 - r1) + nb" "agree m1 m2 p1 r1" "freeBits m2 p2 r2"
    "readElement m2 p1 nb r1 = v"
    using addElementInData_ok [OF f(2,3,6) room, of v] snoc.prems(2) by (auto simp: written_def a)
  have len: "length m2 = length m" using w(4) f(5) by (simp add: agree_def)
  have old: "elementAt m2 nb (8 * p + (8 - r) + nb * i) = vs ! i" if i: "i < length vs" for i
  proof -
    let ?t = "8 * p + (8 - r) + nb * i"
    have t: "8 * (?t div 8) + (8 - (8 - ?t mod 8)) = ?t" by simp
    have "nb * i + nb \<le> nb * length vs" using i by (metis Suc_leI mult_Suc_right mult_le_mono2 add.commute)
    then have "?t + nb \<le> 8 * p1 + (8 - r1)" using f(4) by simp
    then have "readElement m2 (?t div 8) nb (8 - ?t mod 8) = readElement m1 (?t div 8) nb (8 - ?t mod 8)"
      using room by (intro readElement_agree [OF w(4) f(2,3)]) (unfold t, simp_all)
    then show ?thesis using f(8) i by (simp add: elementAt_def)
  qed
  have new: "elementAt m2 nb (8 * p1 + (8 - r1)) = v"
    using bit_position [OF f(2,3), of p1] w(6) by (simp only: elementAt_def)
  have ag: "agree m m2 p r"
  proof -
    have le: "8 * p + (8 - r) \<le> 8 * p1 + (8 - r1)" using f(4) by simp
    show ?thesis unfolding agree_def
    proof (intro conjI allI impI)
      show "length m2 = length m" by (rule len)
      have pp: "p \<le> p1" using le assms(1) f(2) by linarith
      fix q assume "q < p"
      then show "m2 ! q = m ! q" using pp w(4) f(7) by (simp add: agree_def)
    next
      assume p: "p < length m"
      show "unat (m2 ! p) div 2 ^ r = unat (m ! p) div 2 ^ r"
      proof (cases "p < p1")
        case True
        then show ?thesis using w(4) f(7) p by (simp add: agree_def)
      next
        case False
        then have e: "p = p1" "r1 \<le> r" using le assms(2) f(3) assms(1) f(2) by linarith+
        have s: "x div 2 ^ r = x div 2 ^ r1 div (2 :: nat) ^ (r - r1)" for x
          using e(2) by (simp flip: div_mult2_eq power_add)
        have "unat (m2 ! p) div 2 ^ r1 = unat (m1 ! p) div 2 ^ r1" using w(4) e(1) p f(5) by (simp add: agree_def)
        then have "unat (m2 ! p) div 2 ^ r = unat (m1 ! p) div 2 ^ r" using s by simp
        then show ?thesis using f(7) p by (simp add: agree_def)
      qed
    qed
  qed
  have "elementAt m2 nb (8 * p + (8 - r) + nb * i) = (vs @ [v]) ! i" if "i < length (vs @ [v])" for i
    using that old new f(4) by (cases "i = length vs") (simp_all add: nth_append)
  moreover have "8 * p2 + (8 - r2) = 8 * p + (8 - r) + nb * length (vs @ [v])" using w(3) f(4) by simp
  ultimately show ?case using f(1) a w(1,2,5) len ag by simp
qed

section \<open>The variables of a component\<close>

lemma clearBytes_nth:
  "length (clearBytes p k m) = length m"
  "i < length m \<Longrightarrow> clearBytes p k m ! i = (if p \<le> i \<and> i < p + k then 0 else m ! i)"
proof -
  have "length (foldl (\<lambda>d i. d[i := 0]) m is) = length m
    \<and> (\<forall>i<length m. foldl (\<lambda>d i. d[i := 0]) m is ! i = (if i \<in> set is then 0 else m ! i))" for "is"
    by (induction "is" rule: rev_induct) (auto simp: nth_update_any)
  from this [of "[p ..< p + k]"] show "length (clearBytes p k m) = length m"
    "i < length m \<Longrightarrow> clearBytes p k m ! i = (if p \<le> i \<and> i < p + k then 0 else m ! i)"
    by (auto simp: clearBytes_def)
qed

lemma orBytes_bit:
  "length (foldl (\<lambda>d v. orByte d (drop_bit 3 v) (push_bit (v AND 7) 1)) m vs) = length m"
  "q < length m \<Longrightarrow> j < 8 \<Longrightarrow> bit (foldl (\<lambda>d v. orByte d (drop_bit 3 v) (push_bit (v AND 7) 1)) m vs ! q) j
     \<longleftrightarrow> bit (m ! q) j \<or> (\<exists>v\<in>set vs. v div 8 = q \<and> v mod 8 = j)"
proof -
  have p: "drop_bit 3 v = v div 8" "v AND 7 = v mod 8" for v :: nat
    using take_bit_eq_mask [of 3 v] by (simp_all add: drop_bit_eq_div take_bit_eq_mod mask_eq_exp_minus_1)
  have b: "bit (of_nat (push_bit k 1) :: 8 word) j \<longleftrightarrow> j = k" if "j < 8" for k j
    using that by (auto simp: bit_simps)
  show l: "length (foldl (\<lambda>d v. orByte d (drop_bit 3 v) (push_bit (v AND 7) 1)) m vs) = length m" for vs
    by (induction vs rule: rev_induct) (simp_all add: orByte_def)
  show "q < length m \<Longrightarrow> j < 8 \<Longrightarrow> bit (foldl (\<lambda>d v. orByte d (drop_bit 3 v) (push_bit (v AND 7) 1)) m vs ! q) j
     \<longleftrightarrow> bit (m ! q) j \<or> (\<exists>v\<in>set vs. v div 8 = q \<and> v mod 8 = j)"
  proof (induction vs rule: rev_induct)
    case (snoc v vs)
    then show ?case using l [of vs] b [of j "v mod 8"]
      by (auto simp: orByte_def p nth_update_any bit_or_iff)
  qed simp
qed

section \<open>Writing stays inside its bits\<close>

lemma fillBytes_append:
  assumes "1 \<le> r" "r \<le> 8" "8 * p + (8 - r) + nb \<le> 8 * length m" "fillBytes m p val nb r = (m', p', v', nb', r')"
  shows "fillBytes (m @ t) p val nb r = (m' @ t, p', v', nb', r') \<and> length m' = length m
    \<and> 1 \<le> r' \<and> r' \<le> 8 \<and> 8 * p' + (8 - r') + nb' = 8 * p + (8 - r) + nb"
  using assms
proof (induction m p val nb r arbitrary: m' p' v' nb' r' rule: fillBytes.induct)
  case (1 m p val nb r)
  show ?case
  proof (cases "r \<noteq> 0 \<and> nb \<ge> r")
    case True
    then have p: "p < length m" using "1.prems"(1,3) by linarith
    have o: "orByte (m @ t) p x = orByte m p x @ t" "length (orByte m p x) = length m" for x
      using p by (simp_all add: orByte_def list_update_append nth_append)
    let ?m = "orByte m p (val AND (push_bit r 1 - 1))"
    have e: "8 * (p + 1) + (8 - 8) + (nb - r) = 8 * p + (8 - r) + nb" using True "1.prems"(2) by auto
    have f: "fillBytes ?m (p + 1) (drop_bit r val) (nb - r) 8 = (m', p', v', nb', r')"
      using "1.prems"(4) True by (subst (asm) fillBytes.simps) simp
    have A: "fillBytes (?m @ t) (p + 1) (drop_bit r val) (nb - r) 8 = (m' @ t, p', v', nb', r') \<and> length m' = length ?m
      \<and> 1 \<le> r' \<and> r' \<le> 8 \<and> 8 * p' + (8 - r') + nb' = 8 * (p + 1) + (8 - 8) + (nb - r)"
      using "1.prems"(3) o(2) True by (intro "1.IH" [OF _ _ _ _ f]) (simp_all only: e, simp_all)
    have B: "fillBytes (m @ t) p val nb r = fillBytes (?m @ t) (p + 1) (drop_bit r val) (nb - r) 8"
      using True o(1) by (subst fillBytes.simps) simp
    show ?thesis using A by (simp only: B e o(2) simp_thms)
  next
    case False
    then show ?thesis using "1.prems" by (subst fillBytes.simps) (auto simp: fillBytes.simps [of m p val nb r])
  qed
qed

lemma addElementInData_append:
  assumes "1 \<le> r" "r \<le> 8" "8 * p + (8 - r) + nb \<le> 8 * length m" "addElementInData m p val nb r = (m', p', r')"
  shows "addElementInData (m @ t) p val nb r = (m' @ t, p', r')"
proof -
  obtain d q v n k where f: "fillBytes m p val nb r = (d, q, v, n, k)" by (metis prod_cases5)
  note a = fillBytes_append [OF assms(1-3) f, of t]
  have "n \<noteq> 0 \<Longrightarrow> q < length d" using a assms(3) by linarith
  then show ?thesis using assms(1,4) f a
    by (auto simp: addElementInData_def orByte_def list_update_append nth_append split: if_splits)
qed

lemma foldl_addElement_append:
  assumes "1 \<le> r" "r \<le> 8" "freeBits m p r" "8 * p + (8 - r) + nb * length vs \<le> 8 * length m" "\<forall>v\<in>set vs. v < 2 ^ nb"
    and "foldl (\<lambda>(m, p, r) v. addElementInData m p v nb r) (m, p, r) vs = (m', p', r')"
  shows "foldl (\<lambda>(m, p, r) v. addElementInData m p v nb r) (m @ t, p, r) vs = (m' @ t, p', r')"
  using assms(4-6)
proof (induction vs arbitrary: m' p' r' rule: rev_induct)
  case (snoc v vs)
  obtain m1 p1 r1 where f: "foldl (\<lambda>(m, p, r) v. addElementInData m p v nb r) (m, p, r) vs = (m1, p1, r1)"
    by (metis prod_cases3)
  have room: "8 * p + (8 - r) + nb * length vs \<le> 8 * length m" using snoc.prems(1) by simp
  have w: "1 \<le> r1" "r1 \<le> 8" "8 * p1 + (8 - r1) = 8 * p + (8 - r) + nb * length vs" "length m1 = length m"
    using writeElements_ok [OF assms(1-3) room] snoc.prems(2) f by auto
  have "8 * p1 + (8 - r1) + nb \<le> 8 * length m1" using w(3,4) snoc.prems(1) by simp
  then show ?case
    using snoc.IH [OF room _ f] snoc.prems f addElementInData_append [OF w(1,2)] by simp
qed simp

section \<open>The mode without binary clauses\<close>

lemma nb_getVecIdx:
  assumes "core_ok n F T f" "intern l < 2 * (n + 1)" "idx \<in> set (getVecIdxClauseMode f l CACHE_NB)"
  shows "length (cm_clauses f ! idx) = 2"
proof -
  have "occ_level F T (intern l) (occ_of f l)" using assms(1,2) by (simp add: core_ok_def occ_of_def)
  from mset_eq_setD [OF level_clauses(3) [OF this]] assms(3) have "idx \<in> set (occB F T (intern l))"
    by (simp add: getVecIdxClauseMode_def getVecIdxClauseBin_def)
  then have "idx < length F" "length (F ! idx) = 2" by (auto simp: occB_def set_occurrenceIdx)
  moreover have "mset (cm_clauses f ! idx) = mset (F ! idx)"
    using assms(1) \<open>idx < length F\<close> by (simp add: core_ok_def clauses_ok_def)
  ultimately show ?thesis by (metis mset_eq_length)
qed

lemma foldl_skip: "(\<forall>i\<in>set is. g st i = st) \<Longrightarrow> foldl g st is = st"
  by (induction "is") auto

definition sameBucket :: "bucketManagerCl \<Rightarrow> bucketManagerCl \<Rightarrow> bool" where
  "sameBucket bm bm' \<longleftrightarrow> cb_inConstruction bm' = cb_inConstruction bm \<and> cb_mustUnMark bm' = cb_mustUnMark bm
     \<and> bm_modeStore bm' = bm_modeStore bm \<and> bm_bucketAllocator bm' = bm_bucketAllocator bm"

lemma nb_createDistrib:
  assumes "core_ok n F T f" "intern l < 2 * (n + 1)" "bm_modeStore bm = CACHE_NB"
  shows "sameBucket bm (createDistribWrTLit f l bm)"
proof -
  obtain own bm1 where g: "getIdxBucketSortInfo bm = (own, bm1)" by fastforce
  have b1: "sameBucket bm bm1"
    using g by (auto simp: getIdxBucketSortInfo_def sameBucket_def split: option.splits)
  have "foldl (distribClause f own) (bm1, [], 0, [], length (cb_vec bm1)) (getVecIdxClauseMode f l (bm_modeStore bm))
     = (bm1, [], 0, [], length (cb_vec bm1))"
    using nb_getVecIdx [OF assms(1,2)] b1
    by (intro foldl_skip) (auto simp: distribClause_def isKeptClause_def sameBucket_def assms(3))
  then show ?thesis using b1 by (simp add: createDistribWrTLit_def g Let_def sameBucket_def)
qed

lemma nb_distribVars:
  assumes "core_ok n F T f" "\<forall>v\<in>set C. v \<le> n" "bm_modeStore bm = CACHE_NB"
  shows "sameBucket bm (foldl (distribVar f) bm C)"
  using assms(2)
proof (induction C rule: rev_induct)
  case (snoc v C)
  let ?bm = "foldl (distribVar f) bm C"
  have l: "intern (makeLitTrue v) < 2 * (n + 1)" "intern (makeLitFalse v) < 2 * (n + 1)"
    using snoc.prems by (simp_all add: makeLitTrue_def makeLitFalse_def intern_def push_bit_eq_mult)
  have 1: "sameBucket bm ?bm" using snoc by simp
  then have 2: "sameBucket ?bm (createDistribWrTLit f (makeLitFalse v) ?bm)"
    using assms(3) by (intro nb_createDistrib [OF assms(1) l(2)]) (simp add: sameBucket_def)
  then have "sameBucket (createDistribWrTLit f (makeLitFalse v) ?bm) (distribVar f ?bm v) \<or> distribVar f ?bm v = ?bm"
    using 1 assms(3) nb_createDistrib [OF assms(1) l(1)] by (simp add: sameBucket_def distribVar_def)
  then show ?case using 1 2 by (auto simp: sameBucket_def)
qed (simp add: sameBucket_def)

lemma nb_collectDistrib:
  assumes "core_ok n F T f" "\<forall>v\<in>set C. v \<le> n" "bm_modeStore bm = CACHE_NB" "cb_mustUnMark bm = []"
  shows "cb_inConstruction (collectDistrib f C (initSortBucket bm)) = bic_reinit (cb_inConstruction bm)
    \<and> bm_bucketAllocator (collectDistrib f C (initSortBucket bm)) = bm_bucketAllocator bm"
proof -
  have "sameBucket (initSortBucket bm) (foldl (distribVar f) (initSortBucket bm) C)"
    using assms(3) by (intro nb_distribVars [OF assms(1,2)]) (simp add: initSortBucket_def updIC_def)
  then show ?thesis
    using assms(4) by (simp add: collectDistrib_def Let_def sameBucket_def initSortBucket_def updIC_def bic_reinit_def)
qed

lemma nb_same_key:
  assumes "core_ok n F T f" "core_ok n G U g" "\<forall>v\<in>set C. v \<le> n" "bm_modeStore bm = CACHE_NB" "cb_mustUnMark bm = []"
  shows "fst (cl_storeFormula bm f C page) = fst (cl_storeFormula bm g C page)"
  using nb_collectDistrib [OF assms(1,3-5)] nb_collectDistrib [OF assms(2-5)]
  by (simp add: cl_storeFormula_def Let_def bic_reinit_def split: prod.splits)

section \<open>Properties\<close>

text \<open>C37. Sorted insertion: pushing positions one after the other from an empty table gives them sorted,
  with all their copies.\<close>
theorem pushSorted_all: "sorted (foldl pushSorted [] vs) \<and> mset (foldl pushSorted [] vs) = mset vs"
proof (induction vs rule: rev_induct)
  case (snoc v vs)
  then show ?case by (simp add: pushSorted_insort sorted_insort)
qed simp

text \<open>C1. Number of bits: on the width of the code, \<open>nbBitUnsigned\<close> is the smallest positive number of
  bits in which the value fits.\<close>
theorem nbBitUnsigned_least:
  assumes "v < 2 ^ 32"
  shows "nbBitUnsigned v = (LEAST b. 1 \<le> b \<and> v < 2 ^ b)"
proof (rule Least_equality [symmetric])
  show "1 \<le> nbBitUnsigned v \<and> v < 2 ^ nbBitUnsigned v" using nbBitUnsigned_bounds [OF assms] by simp
  fix b assume b: "1 \<le> b \<and> v < 2 ^ b"
  show "nbBitUnsigned v \<le> b"
  proof (cases "v = 0")
    case True
    then show ?thesis using b by (simp add: nbBitUnsigned_def nbBitStep_def)
  next
    case False
    then have "(2 :: nat) ^ (nbBitUnsigned v - 1) < 2 ^ b" using nbBitUnsigned_bounds(2) [OF assms] b by linarith
    then show ?thesis by (simp add: power_strict_increasing_iff)
  qed
qed

theorem nbBitUnsigned_least_witness: "nbBitUnsigned 300 = (LEAST b. 1 \<le> b \<and> (300 :: nat) < 2 ^ b) \<and> nbBitUnsigned 300 = 9"
  using nbBitUnsigned_least [of 300] by (simp add: nbBitUnsigned_def nbBitStep_def)

lemma nbBitUnsigned_pos [simp]: "nbBitUnsigned v \<noteq> 0"
  by (simp only: nbBitUnsigned_def)

lemma computeNeededBytes_var:
  "nbBitEltVar (computeNeededBytes C ic) = (if 1 + (last C - 1) div 8 < 1 + (nbBitUnsigned (last C) * length C - 1) div 8
     then 0 else nbBitUnsigned (last C))"
  "nbByteStoreVar (computeNeededBytes C ic) = (if nbBitEltVar (computeNeededBytes C ic) = 0
     then 1 + (last C - 1) div 8 else 1 + (nbBitUnsigned (last C) * length C - 1) div 8)"
  unfolding computeNeededBytes_def Let_def drop_bit_eq_div by simp_all

text \<open>C1. Packed variables: when the sizes choose the packed form, the variables are written into the area
  reserved for them, the bytes behind it are kept, and reading \<open>nbBitEltVar\<close> bits at each multiple gives
  the component back.\<close>
theorem storeVariables_packed:
  assumes "C \<noteq> []" "\<forall>v\<in>set C. v \<le> last C" "last C < 2 ^ 32"
    and "info = computeNeededBytes C ic" "nbBitEltVar info \<noteq> 0" "nbByteStoreVar info \<le> length data"
  shows "drop (nbByteStoreVar info) (storeVariables info data C) = drop (nbByteStoreVar info) data
    \<and> map (\<lambda>i. elementAt (take (nbByteStoreVar info) (storeVariables info data C)) (nbBitEltVar info) (nbBitEltVar info * i))
        [0 ..< length C] = C"
proof -
  define nb k where "nb = nbBitUnsigned (last C)" and "k = nbByteStoreVar info"
  have nb: "nbBitEltVar info = nb" "k = 1 + (nb * length C - 1) div 8"
    using assms(5) by (simp_all add: assms(4) computeNeededBytes_var nb_def k_def split: if_splits)
  have b: "last C < 2 ^ nb" "nb \<ge> 1" using nbBitUnsigned_bounds [OF assms(3)] by (simp_all add: nb_def)
  define z where "z = replicate k (0 :: 8 word)"
  have split: "clearBytes 0 k data = z @ drop k data"
    using assms(6) by (intro nth_equalityI) (simp_all add: clearBytes_nth z_def k_def nth_append)
  have "nb * length C > 0" using b(2) assms(1) by simp
  then have room: "8 * 0 + (8 - 8) + nb * length C \<le> 8 * length z" using nb(2) by (simp add: z_def)
  have v: "\<forall>v\<in>set C. v < 2 ^ nb" using assms(2) b(1) by auto
  have fr: "freeBits z 0 8" by (simp add: freeBits_def z_def)
  obtain m p r where m: "foldl (\<lambda>(m, p, r) v. addElementInData m p v nb r) (z, 0, 8) C = (m, p, r)" "length m = length z"
    "\<forall>i<length C. elementAt m nb (nb * i) = C ! i"
    using writeElements_ok [OF _ _ fr room v] by auto
  have "foldl (\<lambda>(m, p, r) v. addElementInData m p v nb r) (z @ drop k data, 0, 8) C = (m @ drop k data, p, r)"
    using foldl_addElement_append [OF _ _ fr room v m(1), of "drop k data"] by simp
  then have s: "storeVariables info data C = m @ drop k data"
    using nb(1) b(2) by (simp add: storeVariables_def k_def [symmetric] split)
  have "map (\<lambda>i. elementAt m nb (nb * i)) [0 ..< length C] = C"
    using m(3) by (intro nth_equalityI) simp_all
  then show ?thesis using m(2) by (simp add: s nb(1) k_def [symmetric] z_def)
qed

definition noClauses :: BucketInConstruction where
  "noClauses = \<lparr>distrib = [], shiftedIndexClause = [], shiftedSizeClause = [], sizeClauses = [], distribDiffSize = [0],
     markedAsRedundant = [], nbClauseInDistrib = 0, capacityDistrib = 0, maxSizeClause = 0\<rparr>"

lemmas sizes_eval = computeNeededBytes_def noClauses_def nbBitUnsigned_def nbBitStep_def drop_bit_eq_div upt_rec Let_def

theorem storeVariables_packed_witness:
  "let info = computeNeededBytes [3, 70] noClauses; data = storeVariables info [9, 9, 9] [3, 70]
   in nbBitEltVar info = 7 \<and> drop 2 data = [9] \<and> map (\<lambda>i. elementAt (take 2 data) 7 (7 * i)) [0 ..< 2] = [3, 70]"
proof -
  let ?info = "computeNeededBytes [3, 70] noClauses"
  have i: "nbBitEltVar ?info = 7" "nbByteStoreVar ?info = 2" by (simp_all add: sizes_eval)
  show ?thesis
    using storeVariables_packed [of "[3, 70]" ?info noClauses "[9, 9, 9]"] i by (simp add: Let_def upt_rec)
qed

lemma storeVariables_bit:
  assumes "nbBitEltVar info = 0" "q < length data" "j < 8"
  shows "bit (storeVariables info data C ! q) j
    \<longleftrightarrow> nbByteStoreVar info \<le> q \<and> bit (data ! q) j \<or> (\<exists>v\<in>set C. v div 8 = q \<and> v mod 8 = j)"
  using assms(2,3) unfolding storeVariables_def Let_def assms(1) if_P [OF refl]
  by (subst orBytes_bit) (simp_all add: clearBytes_nth)



text \<open>C18. Write behind the area: when the last variable is a multiple of eight, the bit array form sets a bit of
  the byte behind the area that the sizes reserve.\<close>
theorem storeVariables_overflow:
  assumes "C \<noteq> []" "last C mod 8 = 0" "last C > 0"
    and "info = computeNeededBytes C ic" "nbBitEltVar info = 0" "nbByteStoreVar info < length data"
  shows "bit (storeVariables info data C ! nbByteStoreVar info) 0"
proof -
  have k: "nbByteStoreVar info = 1 + (last C - 1) div 8"
    using assms(5) by (simp add: assms(4) computeNeededBytes_var(2))
  obtain j where "last C = 8 * Suc j"
    using assms(2,3) by (metis gr0_implies_Suc mod_0_imp_dvd dvdE mult_is_0 neq0_conv)
  then have "last C div 8 = nbByteStoreVar info" unfolding k by simp
  moreover have "last C \<in> set C" using assms(1) by simp
  ultimately show ?thesis using assms(2,5,6) by (auto simp: storeVariables_bit)
qed

theorem storeVariables_overflow_witness:
  "let info = computeNeededBytes [1 ..< 9] noClauses
   in totalByte info = 1 \<and> bit (storeVariables info [0, 0] [1 ..< 9] ! 1) 0"
proof -
  have e: "[1 ..< 9] = [1 :: nat, 2, 3, 4, 5, 6, 7, 8]" by (simp add: upt_rec)
  let ?info = "computeNeededBytes [1 ..< 9] noClauses"
  have i: "nbBitEltVar ?info = 0 \<and> nbByteStoreVar ?info = 1 \<and> totalByte ?info = 1" unfolding e by (simp add: sizes_eval)
  show ?thesis
    using storeVariables_overflow [of "[1 ..< 9]" ?info noClauses "[0, 0]"] i by (simp add: Let_def e)
qed

end
