(* ===== verification/BucketClRefine.thy ===== *)
theory BucketClRefine
  imports BucketClCorrect
begin

text \<open>
  The distribution of the clauses is a partition refinement: after the literals that were visited, two
  clauses are in one bucket exactly when they contain the same of these literals, a bucket owns an
  interval of positions, and the positions listed for a literal are the intervals of the buckets whose
  clauses contain it.
\<close>

section \<open>One literal\<close>

text \<open>The kept clauses of a literal.\<close>

definition keptOf :: "'z cnfManager_scheme \<Rightarrow> ModeStore \<Rightarrow> lit \<Rightarrow> nat list" where
  "keptOf f mode l = filter (isKeptClause mode f) (getVecIdxClauseMode f l mode)"

text \<open>The part of the kept clauses \<open>ys\<close> that was in bucket \<open>k\<close>, or in none.\<close>

definition movedOf :: "nat option list \<Rightarrow> nat list \<Rightarrow> nat option \<Rightarrow> nat list" where
  "movedOf mk ys k = filter (\<lambda>i. mk ! i = k) ys"

lemma movedOf_snoc: "movedOf mk (ys @ [i]) k = movedOf mk ys k @ (if mk ! i = k then [i] else [])"
  by (simp add: movedOf_def)

definition loopPos :: "BucketSortInfo list \<Rightarrow> nat option list \<Rightarrow> nat \<Rightarrow> nat list \<Rightarrow> nat list \<Rightarrow> nat multiset" where
  "loopPos vec mk nb ys idIn =
     mset [nb ..< nb + length (movedOf mk ys None)]
     + sum_list (map (\<lambda>k. mset [bs_start (vec ! k) ..< bs_start (vec ! k) + length (movedOf mk ys (Some k))]) idIn)"

definition sizesAfter :: "nat option list \<Rightarrow> nat list \<Rightarrow> nat list \<Rightarrow> nat list" where
  "sizesAfter mk ys szs =
     map (\<lambda>i. if i \<in> set ys then if mk ! i = None then 1 else szs ! i + 1 else szs ! i) [0 ..< length szs]"

lemma sizesAfter_snoc:
  assumes "i \<notin> set ys" "i < length szs"
  shows "(sizesAfter mk ys szs)[i := if mk ! i = None then 1 else sizesAfter mk ys szs ! i + 1] = sizesAfter mk (ys @ [i]) szs"
  using assms by (intro nth_equalityI) (auto simp: sizesAfter_def nth_list_update)

text \<open>The state after a part \<open>ys\<close> of the clauses of a literal, started in \<open>bm\<close> with bucket \<open>own\<close>.\<close>

definition loop_inv :: "bucketManagerCl \<Rightarrow> nat \<Rightarrow> nat list \<Rightarrow> bucketManagerCl \<times> nat list \<times> nat \<times> nat list \<times> nat \<Rightarrow> bool" where
  "loop_inv bm own ys st \<longleftrightarrow> (case st of (bm', tab, counter, idIn, nextBucket) \<Rightarrow>
     let mk = cb_markIdx bm; vec = cb_vec bm; ic = cb_inConstruction bm
     in counter = length (movedOf mk ys None)
      \<and> distinct idIn \<and> set idIn = {k. movedOf mk ys (Some k) \<noteq> []} \<and> nextBucket = length vec + length idIn
      \<and> length (cb_vec bm') = length vec
      \<and> (\<forall>k<length vec. k \<notin> set idIn \<longrightarrow> cb_vec bm' ! k = vec ! k)
      \<and> (\<forall>j<length idIn. cb_vec bm' ! (idIn ! j) = (vec ! (idIn ! j))\<lparr>bs_redirected := length vec + j,
           bs_counter := length (movedOf mk ys (Some (idIn ! j)))\<rparr>)
      \<and> length (cb_markIdx bm') = length mk
      \<and> (\<forall>i. i \<notin> set ys \<longrightarrow> cb_markIdx bm' ! i = mk ! i)
      \<and> (\<forall>i\<in>set ys. mk ! i = None \<longrightarrow> cb_markIdx bm' ! i = Some own)
      \<and> (\<forall>j<length idIn. \<forall>i\<in>set ys. mk ! i = Some (idIn ! j) \<longrightarrow> cb_markIdx bm' ! i = Some (length vec + j))
      \<and> cb_mustUnMark bm' = cb_mustUnMark bm @ movedOf mk ys None
      \<and> sorted tab \<and> mset tab = loopPos vec mk (nbClauseInDistrib ic) ys idIn
      \<and> cb_inConstruction bm' = ic\<lparr>sizeClauses := sizesAfter mk ys (sizeClauses ic)\<rparr>
      \<and> cb_unusedBucket bm' = cb_unusedBucket bm \<and> bm_modeStore bm' = bm_modeStore bm
      \<and> bm_bucketAllocator bm' = bm_bucketAllocator bm \<and> cb_mapVar bm' = cb_mapVar bm)"

lemma mset_pushSorted: "sorted tab \<Longrightarrow> mset (pushSorted tab v) = add_mset v (mset tab) \<and> sorted (pushSorted tab v)"
  by (simp add: pushSorted_insort sorted_insort)

lemma mset_upt_snoc: "mset [a ..< a + Suc k] = add_mset (a + k) (mset [a ..< a + k])"
  by simp

lemma loop_new:
  assumes inv: "loop_inv bm own ys st" and i: "i \<notin> set ys" "i < length (cb_markIdx bm)" "cb_markIdx bm ! i = None"
    and kept: "isKeptClause (bm_modeStore bm) f i" and szl: "length (sizeClauses (cb_inConstruction bm)) = length (cb_markIdx bm)"
  shows "loop_inv bm own (ys @ [i]) (distribClause f own st i)"
proof -
  obtain bm' tab c idIn nx where st: "st = (bm', tab, c, idIn, nx)" by (metis prod_cases5)
  define mk vec ic where "mk = cb_markIdx bm" and "vec = cb_vec bm" and "ic = cb_inConstruction bm"
  note I = inv [unfolded loop_inv_def st prod.case Let_def, folded mk_def vec_def ic_def]
  have mv: "movedOf mk (ys @ [i]) None = movedOf mk ys None @ [i]" "movedOf mk (ys @ [i]) (Some k) = movedOf mk ys (Some k)" for k
    using i(3) by (simp_all add: movedOf_snoc mk_def)
  have e: "distribClause f own st i = (updIC (\<lambda>ic. ic\<lparr>sizeClauses := (sizeClauses ic)[i := 1]\<rparr>)
      (bm'\<lparr>cb_mustUnMark := cb_mustUnMark bm' @ [i], cb_markIdx := (cb_markIdx bm')[i := Some own]\<rparr>),
      pushSorted tab (nbClauseInDistrib ic + c), c + 1, idIn, nx)"
    using I kept i(1,3) by (simp add: distribClause_def st mk_def)
  have "sorted (pushSorted tab (nbClauseInDistrib ic + c))"
    "mset (pushSorted tab (nbClauseInDistrib ic + c)) = loopPos vec mk (nbClauseInDistrib ic) (ys @ [i]) idIn"
    using I mset_pushSorted [of tab "nbClauseInDistrib ic + c"] by (simp_all add: loopPos_def mv)
  moreover have "(sizesAfter mk ys (sizeClauses ic))[i := 1] = sizesAfter mk (ys @ [i]) (sizeClauses ic)"
    using sizesAfter_snoc [of i ys "sizeClauses ic" mk] i szl by (simp add: mk_def ic_def)
  ultimately show ?thesis using I i
    unfolding e loop_inv_def prod.case Let_def mk_def [symmetric] vec_def [symmetric] ic_def [symmetric] mv
    by (auto simp: updIC_def nth_list_update)
qed

lemma loop_old:
  assumes inv: "loop_inv bm own ys st" and i: "i \<notin> set ys" "i < length (cb_markIdx bm)" "cb_markIdx bm ! i = Some k"
    and k: "k < length (cb_vec bm)" "bs_counter (cb_vec bm ! k) = 0"
    and kept: "isKeptClause (bm_modeStore bm) f i" and szl: "length (sizeClauses (cb_inConstruction bm)) = length (cb_markIdx bm)"
  shows "loop_inv bm own (ys @ [i]) (distribClause f own st i)"
proof -
  obtain bm' tab c idIn nx where st: "st = (bm', tab, c, idIn, nx)" by (metis prod_cases5)
  define mk vec ic where "mk = cb_markIdx bm" and "vec = cb_vec bm" and "ic = cb_inConstruction bm"
  note I = inv [unfolded loop_inv_def st prod.case Let_def, folded mk_def vec_def ic_def]
  define q where "q = length (movedOf mk ys (Some k))"
  have mv: "movedOf mk (ys @ [i]) None = movedOf mk ys None"
    "movedOf mk (ys @ [i]) (Some k') = movedOf mk ys (Some k') @ (if k' = k then [i] else [])" for k'
    using i(3) by (simp_all add: movedOf_snoc mk_def)
  have sz: "(sizesAfter mk ys (sizeClauses ic))[i := sizesAfter mk ys (sizeClauses ic) ! i + 1]
      = sizesAfter mk (ys @ [i]) (sizeClauses ic)"
    using sizesAfter_snoc [of i ys "sizeClauses ic" mk] i szl by (simp add: mk_def ic_def)
  have push: "sorted (pushSorted tab (bs_start (vec ! k) + q))"
    "mset (pushSorted tab (bs_start (vec ! k) + q)) = add_mset (bs_start (vec ! k) + q) (mset tab)"
    using I mset_pushSorted [of tab] by simp_all
  have same: "map (\<lambda>k'. mset [bs_start (vec ! k') ..< bs_start (vec ! k') + length (movedOf mk (ys @ [i]) (Some k'))]) zs
      = map (\<lambda>k'. mset [bs_start (vec ! k') ..< bs_start (vec ! k') + length (movedOf mk ys (Some k'))]) zs"
    if "k \<notin> set zs" for zs
    using that by (intro map_cong) (auto simp: mv)
  show ?thesis
  proof (cases "k \<in> set idIn")
    case True
    then obtain j where j: "j < length idIn" "idIn ! j = k" by (auto simp: in_set_conv_nth)
    have q0: "q \<noteq> 0" using I True by (auto simp: q_def)
    have b: "cb_vec bm' ! k = (vec ! k)\<lparr>bs_redirected := length vec + j, bs_counter := q\<rparr>"
      using I j by (auto simp: q_def)
    have e: "distribClause f own st i = (updIC (\<lambda>ic. ic\<lparr>sizeClauses := (sizeClauses ic)[i := sizeClauses ic ! i + 1]\<rparr>)
        (bm'\<lparr>cb_vec := (cb_vec bm')[k := (vec ! k)\<lparr>bs_redirected := length vec + j, bs_counter := q + 1\<rparr>],
             cb_markIdx := (cb_markIdx bm')[i := Some (length vec + j)]\<rparr>),
        pushSorted tab (bs_start (vec ! k) + q), c, idIn, nx)"
      using I kept i(1,3) b q0 by (simp add: distribClause_def st mk_def Let_def)
    obtain xs ys' where split: "idIn = xs @ k # ys'" using split_list [OF True] by blast
    have d: "k \<notin> set xs" "k \<notin> set ys'" using I split by auto
    have "loopPos vec mk (nbClauseInDistrib ic) (ys @ [i]) idIn
        = add_mset (bs_start (vec ! k) + q) (loopPos vec mk (nbClauseInDistrib ic) ys idIn)"
      unfolding loopPos_def split map_append list.map same [OF d(1)] same [OF d(2)] mv(1)
      by (simp add: mv(2) q_def)
    with push I have m: "mset (pushSorted tab (bs_start (vec ! k) + q)) = loopPos vec mk (nbClauseInDistrib ic) (ys @ [i]) idIn"
      by simp
    have uniq: "j' < length idIn \<Longrightarrow> idIn ! j' = k \<longleftrightarrow> j' = j" for j'
      using I j by (auto simp: nth_eq_iff_index_eq)
    have "set idIn = {k. movedOf mk (ys @ [i]) (Some k) \<noteq> []}" using I True by (auto simp: mv)
    then show ?thesis using I i push(1) m sz k(1) uniq j
      unfolding e loop_inv_def prod.case Let_def mk_def [symmetric] vec_def [symmetric] ic_def [symmetric] mv(1)
      by (auto simp: updIC_def nth_list_update mv(2) q_def)
  next
    case False
    then have q0: "q = 0" "movedOf mk ys (Some k) = []" using I by (auto simp: q_def)
    have b: "cb_vec bm' ! k = vec ! k" using I False k(1) by (auto simp: vec_def)
    have e: "distribClause f own st i = (updIC (\<lambda>ic. ic\<lparr>sizeClauses := (sizeClauses ic)[i := sizeClauses ic ! i + 1]\<rparr>)
        (bm'\<lparr>cb_vec := (cb_vec bm')[k := (vec ! k)\<lparr>bs_redirected := nx, bs_counter := 1\<rparr>],
             cb_markIdx := (cb_markIdx bm')[i := Some nx]\<rparr>),
        pushSorted tab (bs_start (vec ! k) + q), c, idIn @ [k], nx + 1)"
      using I kept i(1,3) b q0 k(2) by (simp add: distribClause_def st mk_def vec_def Let_def)
    have "loopPos vec mk (nbClauseInDistrib ic) (ys @ [i]) (idIn @ [k])
        = add_mset (bs_start (vec ! k) + q) (loopPos vec mk (nbClauseInDistrib ic) ys idIn)"
      unfolding loopPos_def map_append list.map same [OF False] mv(1) using q0 by (simp add: mv(2))
    with push I have m: "mset (pushSorted tab (bs_start (vec ! k) + q)) = loopPos vec mk (nbClauseInDistrib ic) (ys @ [i]) (idIn @ [k])"
      by simp
    have ne: "j' < length idIn \<Longrightarrow> idIn ! j' \<noteq> k" for j' using False by auto
    have "set (idIn @ [k]) = {k. movedOf mk (ys @ [i]) (Some k) \<noteq> []}" using I by (auto simp: mv)
    moreover have "\<forall>i\<in>set ys. mk ! i \<noteq> Some k" using q0(2) by (simp add: movedOf_def filter_empty_conv)
    ultimately show ?thesis using I i push(1) m sz k(1) ne False q0
      unfolding e loop_inv_def prod.case Let_def mk_def [symmetric] vec_def [symmetric] ic_def [symmetric] mv(1)
      by (auto simp: updIC_def nth_list_update nth_append mv(2) less_Suc_eq)
  qed
qed

text \<open>All the kept clauses of a literal.\<close>

definition marks_ok :: "nat \<Rightarrow> bucketManagerCl \<Rightarrow> bool" where
  "marks_ok m bm \<longleftrightarrow> length (cb_markIdx bm) = m \<and> length (sizeClauses (cb_inConstruction bm)) = m
     \<and> (\<forall>i<m. \<forall>k. cb_markIdx bm ! i = Some k \<longrightarrow> k < length (cb_vec bm))
     \<and> (\<forall>k<length (cb_vec bm). bs_counter (cb_vec bm ! k) = 0)"

lemma loop_all:
  assumes bm: "marks_ok m bm" and ys: "distinct ys" "\<forall>i\<in>set ys. i < m \<and> isKeptClause (bm_modeStore bm) f i"
  shows "loop_inv bm own ys (foldl (distribClause f own) (bm, [], 0, [], length (cb_vec bm)) ys)"
  using ys
proof (induction ys rule: rev_induct)
  case Nil
  then show ?case
    by (simp add: loop_inv_def movedOf_def loopPos_def sizesAfter_def map_nth)
next
  case (snoc i ys)
  let ?st = "foldl (distribClause f own) (bm, [], 0, [], length (cb_vec bm)) ys"
  have inv: "loop_inv bm own ys ?st" using snoc by simp
  have i: "i \<notin> set ys" "i < length (cb_markIdx bm)" and kept: "isKeptClause (bm_modeStore bm) f i"
    using snoc.prems bm by (auto simp: marks_ok_def)
  have szl: "length (sizeClauses (cb_inConstruction bm)) = length (cb_markIdx bm)" using bm by (simp add: marks_ok_def)
  show ?case
  proof (cases "cb_markIdx bm ! i")
    case None
    then show ?thesis using loop_new [OF inv i None kept szl] by simp
  next
    case (Some k)
    then have "k < length (cb_vec bm)" "bs_counter (cb_vec bm ! k) = 0"
      using bm i(2) by (auto simp: marks_ok_def)
    then show ?thesis using loop_old [OF inv i Some _ _ kept szl] by simp
  qed
qed

lemma distribClause_mode: "bm_modeStore (fst (distribClause f own st i)) = bm_modeStore (fst st)"
  by (auto simp: distribClause_def updIC_def Let_def split: prod.splits option.splits)

lemma foldl_kept:
  "foldl (distribClause f own) st ys = foldl (distribClause f own) st (filter (isKeptClause mode f) ys)"
  if "bm_modeStore (fst st) = mode"
  using that
proof (induction ys arbitrary: st)
  case (Cons i ys)
  have "\<not> isKeptClause mode f i \<Longrightarrow> distribClause f own st i = st"
    using Cons.prems by (auto simp: distribClause_def Let_def split: prod.splits)
  then show ?case using Cons.IH [of st] Cons.IH [of "distribClause f own st i"] Cons.prems distribClause_mode [of f own st i]
    by auto
qed simp

section \<open>Splitting the buckets\<close>

lemma splitBuckets:
  assumes "distinct ks" "\<forall>j<length ks. ks ! j < n \<and> bs_redirected (vec ! (ks ! j)) = n + j" "length vec = n"
  shows "length (foldl splitBucket (vec @ replicate (length ks) x) ks) = n + length ks
    \<and> (\<forall>k<n. foldl splitBucket (vec @ replicate (length ks) x) ks ! k =
        (if k \<in> set ks then (vec ! k)\<lparr>bs_start := bs_start (vec ! k) + bs_counter (vec ! k), bs_counter := 0\<rparr> else vec ! k))
    \<and> (\<forall>j<length ks. foldl splitBucket (vec @ replicate (length ks) x) ks ! (n + j) =
        resetSortInfo (bs_start (vec ! (ks ! j))) (bs_start (vec ! (ks ! j)) + bs_counter (vec ! (ks ! j))))"
proof -
  define v0 where "v0 = vec @ replicate (length ks) x"
  have "length (foldl splitBucket v0 (take q ks)) = n + length ks
    \<and> (\<forall>k<n. foldl splitBucket v0 (take q ks) ! k =
        (if k \<in> set (take q ks) then (vec ! k)\<lparr>bs_start := bs_start (vec ! k) + bs_counter (vec ! k), bs_counter := 0\<rparr> else vec ! k))
    \<and> (\<forall>j<q. foldl splitBucket v0 (take q ks) ! (n + j) =
        resetSortInfo (bs_start (vec ! (ks ! j))) (bs_start (vec ! (ks ! j)) + bs_counter (vec ! (ks ! j))))"
    if "q \<le> length ks" for q
    using that
  proof (induction q)
    case 0
    then show ?case using assms(3) by (auto simp: v0_def nth_append)
  next
    case (Suc q)
    let ?k = "ks ! q" and ?v = "foldl splitBucket v0 (take q ks)"
    have IH: "length ?v = n + length ks"
      "\<And>k. k < n \<Longrightarrow> ?v ! k = (if k \<in> set (take q ks) then (vec ! k)\<lparr>bs_start := bs_start (vec ! k) + bs_counter (vec ! k), bs_counter := 0\<rparr> else vec ! k)"
      "\<And>j. j < q \<Longrightarrow> ?v ! (n + j) = resetSortInfo (bs_start (vec ! (ks ! j))) (bs_start (vec ! (ks ! j)) + bs_counter (vec ! (ks ! j)))"
      using Suc by auto
    have t: "take (Suc q) ks = take q ks @ [?k]" using Suc.prems by (simp add: take_Suc_conv_app_nth)
    have k: "?k < n" "bs_redirected (vec ! ?k) = n + q" "?k \<notin> set (take q ks)"
      using assms(1,2) Suc.prems by (auto simp: in_set_conv_nth nth_eq_iff_index_eq)
    have vk: "?v ! ?k = vec ! ?k" using IH(2) [OF k(1)] k(3) by simp
    have e: "foldl splitBucket v0 (take (Suc q) ks) =
        ?v[n + q := resetSortInfo (bs_start (vec ! ?k)) (bs_start (vec ! ?k) + bs_counter (vec ! ?k)),
           ?k := (vec ! ?k)\<lparr>bs_start := bs_start (vec ! ?k) + bs_counter (vec ! ?k), bs_counter := 0\<rparr>]"
      by (simp add: t splitBucket_def vk k(2) Let_def)
    show ?case unfolding e using IH k Suc.prems
      by (auto simp: nth_list_update t less_Suc_eq)
  qed
  from this [of "length ks"] show ?thesis unfolding v0_def by simp
qed

section \<open>The refinement\<close>

definition used :: "bucketManagerCl \<Rightarrow> nat set" where
  "used bm = {k. Some k \<in> set (cb_markIdx bm)}"

definition interval :: "bucketManagerCl \<Rightarrow> nat \<Rightarrow> nat set" where
  "interval bm k = {bs_start (cb_vec bm ! k) ..< bs_end (cb_vec bm ! k)}"

text \<open>\<open>sig i\<close> is the set of the visited literals that clause \<open>i\<close> contains.\<close>

definition refine_ok :: "nat \<Rightarrow> (nat \<Rightarrow> lit set) \<Rightarrow> bucketManagerCl \<Rightarrow> bool" where
  "refine_ok m sig bm \<longleftrightarrow> marks_ok m bm
     \<and> (\<forall>i<m. cb_markIdx bm ! i = None \<longleftrightarrow> sig i = {})
     \<and> (\<forall>i<m. \<forall>j<m. sig i \<noteq> {} \<longrightarrow> sig j \<noteq> {} \<longrightarrow> (cb_markIdx bm ! i = cb_markIdx bm ! j \<longleftrightarrow> sig i = sig j))
     \<and> (\<forall>k\<in>used bm. bs_start (cb_vec bm ! k) + card {i. i < m \<and> cb_markIdx bm ! i = Some k} = bs_end (cb_vec bm ! k)
          \<and> bs_end (cb_vec bm ! k) \<le> nbClauseInDistrib (cb_inConstruction bm))
     \<and> (\<forall>k\<in>used bm. \<forall>k'\<in>used bm. k \<noteq> k' \<longrightarrow> interval bm k \<inter> interval bm k' = {})
     \<and> (\<forall>u. cb_unusedBucket bm = Some u \<longrightarrow> u < length (cb_vec bm) \<and> u \<notin> used bm)
     \<and> distinct (cb_mustUnMark bm) \<and> set (cb_mustUnMark bm) = {i. i < m \<and> sig i \<noteq> {}}
     \<and> nbClauseInDistrib (cb_inConstruction bm) = length (cb_mustUnMark bm)
     \<and> (\<forall>i<m. sig i \<noteq> {} \<longrightarrow> sizeClauses (cb_inConstruction bm) ! i = card (sig i))"

text \<open>The fields of the state after one literal.\<close>

definition distributed ::
  "nat list \<Rightarrow> nat \<Rightarrow> BucketSortInfo list \<Rightarrow> nat list \<Rightarrow> nat list \<Rightarrow> bucketManagerCl \<Rightarrow> lit \<Rightarrow> bucketManagerCl \<Rightarrow> bool" where
  "distributed ys own vec ks tab bm l bm' \<longleftrightarrow>
     (let mk = cb_markIdx bm; n = length vec; ic = cb_inConstruction bm; nb = nbClauseInDistrib ic; new = movedOf mk ys None
      in distinct ks \<and> set ks = {k. movedOf mk ys (Some k) \<noteq> []}
       \<and> length (cb_vec bm') = n + length ks
       \<and> (\<forall>k<n. k \<noteq> own \<longrightarrow> bs_start (cb_vec bm' ! k) = bs_start (vec ! k) + length (movedOf mk ys (Some k))
             \<and> bs_end (cb_vec bm' ! k) = bs_end (vec ! k) \<and> bs_counter (cb_vec bm' ! k) = 0)
       \<and> (\<forall>j<length ks. cb_vec bm' ! (n + j) =
            resetSortInfo (bs_start (vec ! (ks ! j))) (bs_start (vec ! (ks ! j)) + length (movedOf mk ys (Some (ks ! j)))))
       \<and> cb_vec bm' ! own = (if new = [] then vec ! own else resetSortInfo nb (nb + length new))
       \<and> length (cb_markIdx bm') = length mk
       \<and> (\<forall>i. i \<notin> set ys \<longrightarrow> cb_markIdx bm' ! i = mk ! i)
       \<and> (\<forall>i\<in>set ys. mk ! i = None \<longrightarrow> cb_markIdx bm' ! i = Some own)
       \<and> (\<forall>j<length ks. \<forall>i\<in>set ys. mk ! i = Some (ks ! j) \<longrightarrow> cb_markIdx bm' ! i = Some (n + j))
       \<and> cb_mustUnMark bm' = cb_mustUnMark bm @ new
       \<and> sorted tab \<and> mset tab = loopPos vec mk nb ys ks
       \<and> cb_inConstruction bm' = ic\<lparr>sizeClauses := sizesAfter mk ys (sizeClauses ic), nbClauseInDistrib := nb + length new,
            distrib := distrib ic @ (if tab = [] then [] else [intern l, length tab] @ tab)\<rparr>
       \<and> cb_unusedBucket bm' = (if new = [] then Some own else None)
       \<and> bm_modeStore bm' = bm_modeStore bm \<and> bm_bucketAllocator bm' = bm_bucketAllocator bm \<and> cb_mapVar bm' = cb_mapVar bm)"

lemma createDistrib_distributed:
  assumes bm: "marks_ok m bm" and unused: "\<forall>u. cb_unusedBucket bm = Some u \<longrightarrow> u < length (cb_vec bm) \<and> u \<notin> used bm"
    and g: "getIdxBucketSortInfo bm = (own, bm1)"
    and ys: "ys = keptOf f (bm_modeStore bm) l" "distinct ys" "\<forall>i\<in>set ys. i < m"
  shows "\<exists>ks tab. distributed ys own (cb_vec bm1) ks tab bm l (createDistribWrTLit f l bm)"
proof -
  have b1: "cb_markIdx bm1 = cb_markIdx bm" "cb_inConstruction bm1 = cb_inConstruction bm" "cb_mustUnMark bm1 = cb_mustUnMark bm"
    "cb_unusedBucket bm1 = None" "bm_modeStore bm1 = bm_modeStore bm" "bm_bucketAllocator bm1 = bm_bucketAllocator bm"
    "cb_mapVar bm1 = cb_mapVar bm" "own < length (cb_vec bm1)" "own \<notin> used bm"
    using g unused bm by (auto simp: getIdxBucketSortInfo_def used_def marks_ok_def in_set_conv_nth split: option.splits)
  have mk1: "marks_ok m bm1"
    using g bm by (auto simp: getIdxBucketSortInfo_def marks_ok_def newSortInfo_def nth_append less_SucI split: option.splits)
  define n where "n = length (cb_vec bm1)"
  obtain bm2 tab c ks nx where st: "foldl (distribClause f own) (bm1, [], 0, [], length (cb_vec bm1)) ys = (bm2, tab, c, ks, nx)"
    by (metis prod_cases5)
  have fold: "foldl (distribClause f own) (bm1, [], 0, [], length (cb_vec bm1)) (getVecIdxClauseMode f l (bm_modeStore bm))
      = (bm2, tab, c, ks, nx)"
    by (subst foldl_kept [where mode = "bm_modeStore bm"]) (use st b1(5) ys(1) in \<open>simp_all add: keptOf_def\<close>)
  have "\<forall>i\<in>set ys. i < m \<and> isKeptClause (bm_modeStore bm1) f i" using ys b1(5) by (auto simp: keptOf_def)
  from loop_all [OF mk1 ys(2) this, of own] have L: "loop_inv bm1 own ys (bm2, tab, c, ks, nx)" by (simp add: st)
  note I = L [unfolded loop_inv_def prod.case Let_def b1 n_def [symmetric]]
  define mk nb where "mk = cb_markIdx bm" and "nb = nbClauseInDistrib (cb_inConstruction bm)"
  have ksn: "\<forall>k\<in>set ks. k < n"
  proof
    fix k assume "k \<in> set ks"
    then obtain i where "i \<in> set ys" "mk ! i = Some k" using I by (auto simp: movedOf_def filter_empty_conv mk_def)
    then show "k < n" using mk1 ys(3) b1(1) by (auto simp: marks_ok_def n_def mk_def)
  qed
  have red: "\<forall>j<length ks. ks ! j < n \<and> bs_redirected (cb_vec bm2 ! (ks ! j)) = n + j"
  proof -
    have "\<forall>j<length ks. ks ! j < n" using ksn by simp
    then show ?thesis using I by simp
  qed
  define vec where "vec = foldl splitBucket (cb_vec bm2 @ replicate (length ks) (newSortInfo 0)) ks"
  have S: "length vec = n + length ks"
    "\<forall>k<n. vec ! k = (if k \<in> set ks then (cb_vec bm2 ! k)\<lparr>bs_start := bs_start (cb_vec bm2 ! k) + bs_counter (cb_vec bm2 ! k), bs_counter := 0\<rparr> else cb_vec bm2 ! k)"
    "\<forall>j<length ks. vec ! (n + j) = resetSortInfo (bs_start (cb_vec bm2 ! (ks ! j))) (bs_start (cb_vec bm2 ! (ks ! j)) + bs_counter (cb_vec bm2 ! (ks ! j)))"
    using splitBuckets [OF _ red, of "newSortInfo 0"] I unfolding vec_def by auto
  have own_ks: "own \<notin> set ks"
    using I b1(9) ys(3) bm by (auto simp: used_def movedOf_def filter_empty_conv in_set_conv_nth marks_ok_def)
  have V: "bs_start (vec ! k) = bs_start (cb_vec bm1 ! k) + length (movedOf mk ys (Some k))
      \<and> bs_end (vec ! k) = bs_end (cb_vec bm1 ! k) \<and> bs_counter (vec ! k) = 0" if k: "k < n" for k
  proof (cases "k \<in> set ks")
    case True
    then obtain j where "j < length ks" "ks ! j = k" by (auto simp: in_set_conv_nth)
    then show ?thesis using True S(2) I k by (auto simp: mk_def)
  next
    case False
    then have "movedOf mk ys (Some k) = []" using I by (auto simp: mk_def)
    moreover have "bs_counter (cb_vec bm1 ! k) = 0" using mk1 k by (simp add: marks_ok_def n_def)
    ultimately show ?thesis using False S(2) I k by auto
  qed
  have V0: "own \<notin> set ks \<Longrightarrow> vec ! own = cb_vec bm1 ! own" using S(2) I b1(8) by (auto simp: n_def)
  have W: "\<forall>j<length ks. vec ! (n + j) = resetSortInfo (bs_start (cb_vec bm1 ! (ks ! j))) (bs_start (cb_vec bm1 ! (ks ! j)) + length (movedOf mk ys (Some (ks ! j))))"
    using S(3) I by (simp add: mk_def)
  have e: "createDistribWrTLit f l bm = (let bm3 = bm2\<lparr>cb_vec := vec\<rparr>;
       bm4 = (if c = 0 then bm3\<lparr>cb_unusedBucket := Some own\<rparr>
               else updIC (\<lambda>ic. ic\<lparr>nbClauseInDistrib := nb + c\<rparr>) (bm3\<lparr>cb_vec := vec[own := resetSortInfo nb (nb + c)]\<rparr>))
       in if tab = [] then bm4 else updIC (\<lambda>ic. ic\<lparr>distrib := distrib ic @ [intern l, length tab] @ tab\<rparr>) bm4)"
    using I by (simp add: createDistribWrTLit_def g fold vec_def Let_def nb_def)
  have "distributed ys own (cb_vec bm1) ks tab bm l (createDistribWrTLit f l bm)"
    unfolding e distributed_def Let_def n_def [symmetric] mk_def [symmetric] nb_def [symmetric]
    using I V W S(1) own_ks b1(8) V0 [OF own_ks]
    by (auto simp: updIC_def nth_list_update n_def [symmetric] mk_def [symmetric] nb_def [symmetric])
  then show ?thesis by blast
qed

lemma distributedD:
  assumes "distributed ys own vec ks tab bm l bm'"
  defines "mk \<equiv> cb_markIdx bm" and "n \<equiv> length vec" and "nb \<equiv> nbClauseInDistrib (cb_inConstruction bm)"
  shows "distinct ks" "set ks = {k. movedOf mk ys (Some k) \<noteq> []}" "length (cb_vec bm') = n + length ks"
    "k < n \<Longrightarrow> k \<noteq> own \<Longrightarrow> bs_start (cb_vec bm' ! k) = bs_start (vec ! k) + length (movedOf mk ys (Some k))"
    "k < n \<Longrightarrow> k \<noteq> own \<Longrightarrow> bs_end (cb_vec bm' ! k) = bs_end (vec ! k)"
    "k < n \<Longrightarrow> k \<noteq> own \<Longrightarrow> bs_counter (cb_vec bm' ! k) = 0"
    "j < length ks \<Longrightarrow> cb_vec bm' ! (n + j) =
       resetSortInfo (bs_start (vec ! (ks ! j))) (bs_start (vec ! (ks ! j)) + length (movedOf mk ys (Some (ks ! j))))"
    "cb_vec bm' ! own = (if movedOf mk ys None = [] then vec ! own else resetSortInfo nb (nb + length (movedOf mk ys None)))"
    "length (cb_markIdx bm') = length mk" "i \<notin> set ys \<Longrightarrow> cb_markIdx bm' ! i = mk ! i"
    "i \<in> set ys \<Longrightarrow> mk ! i = None \<Longrightarrow> cb_markIdx bm' ! i = Some own"
    "j < length ks \<Longrightarrow> i \<in> set ys \<Longrightarrow> mk ! i = Some (ks ! j) \<Longrightarrow> cb_markIdx bm' ! i = Some (n + j)"
    "cb_mustUnMark bm' = cb_mustUnMark bm @ movedOf mk ys None"
    "sorted tab" "mset tab = loopPos vec mk nb ys ks"
    "cb_inConstruction bm' = cb_inConstruction bm\<lparr>sizeClauses := sizesAfter mk ys (sizeClauses (cb_inConstruction bm)),
       nbClauseInDistrib := nb + length (movedOf mk ys None),
       distrib := distrib (cb_inConstruction bm) @ (if tab = [] then [] else [intern l, length tab] @ tab)\<rparr>"
    "cb_unusedBucket bm' = (if movedOf mk ys None = [] then Some own else None)"
    "bm_modeStore bm' = bm_modeStore bm" "bm_bucketAllocator bm' = bm_bucketAllocator bm" "cb_mapVar bm' = cb_mapVar bm"
  using assms(1) unfolding distributed_def Let_def mk_def n_def nb_def by blast+

lemma card_moved: "distinct ys \<Longrightarrow> card {i \<in> set ys. mk ! i = k} = length (movedOf mk ys k)"
  using distinct_card [of "filter (\<lambda>i. mk ! i = k) ys"] by (simp add: movedOf_def)

text \<open>The new bucket of an old one, and the marks after the literal.\<close>

definition redirect :: "nat \<Rightarrow> nat list \<Rightarrow> nat \<Rightarrow> nat" where
  "redirect n ks k = n + (LEAST j. j < length ks \<and> ks ! j = k)"

lemma redirect_nth: "distinct ks \<Longrightarrow> j < length ks \<Longrightarrow> redirect n ks (ks ! j) = n + j"
  unfolding redirect_def by (rule arg_cong [where f = "(+) n"], rule Least_equality) (auto simp: nth_eq_iff_index_eq)

lemma redirect_cases:
  assumes "distinct ks" "k \<in> set ks"
  obtains j where "j < length ks" "ks ! j = k" "redirect n ks k = n + j"
  using assms redirect_nth by (metis in_set_conv_nth)

lemma redirect_inj:
  assumes "distinct ks" "k \<in> set ks" "k' \<in> set ks"
  shows "redirect n ks k = redirect n ks k' \<longleftrightarrow> k = k'"
proof -
  obtain j j' where "j < length ks" "ks ! j = k" "j' < length ks" "ks ! j' = k'" using assms(2,3) by (auto simp: in_set_conv_nth)
  then show ?thesis using redirect_nth [OF assms(1)] by auto
qed

lemma getIdx_facts:
  assumes "getIdxBucketSortInfo bm = (own, bm1)" "marks_ok m bm"
    and "\<forall>u. cb_unusedBucket bm = Some u \<longrightarrow> u < length (cb_vec bm) \<and> u \<notin> used bm"
  shows "own < length (cb_vec bm1)" "own \<notin> used bm" "k \<in> used bm \<Longrightarrow> k < length (cb_vec bm1) \<and> cb_vec bm1 ! k = cb_vec bm ! k"
    "\<forall>k<length (cb_vec bm1). bs_counter (cb_vec bm1 ! k) = 0"
  using assms by (auto simp: getIdxBucketSortInfo_def used_def marks_ok_def in_set_conv_nth nth_append newSortInfo_def less_Suc_eq
      split: option.splits)

lemma marks_used: "marks_ok m bm \<Longrightarrow> i < m \<Longrightarrow> cb_markIdx bm ! i = Some k \<Longrightarrow> k \<in> used bm"
  unfolding used_def marks_ok_def by (metis (mono_tags, lifting) mem_Collect_eq nth_mem)

lemma distributed_marks:
  assumes d: "distributed ys own vec ks tab bm l bm'" and i: "i < m"
  shows "cb_markIdx bm' ! i = (if i \<in> set ys then (case cb_markIdx bm ! i of None \<Rightarrow> Some own
       | Some k \<Rightarrow> Some (redirect (length vec) ks k)) else cb_markIdx bm ! i)"
    "i \<in> set ys \<Longrightarrow> cb_markIdx bm ! i = Some k \<Longrightarrow> k \<in> set ks"
proof -
  show ks: "i \<in> set ys \<Longrightarrow> cb_markIdx bm ! i = Some k \<Longrightarrow> k \<in> set ks" for k
    using distributedD(2) [OF d] by (auto simp: movedOf_def filter_empty_conv)
  show "cb_markIdx bm' ! i = (if i \<in> set ys then (case cb_markIdx bm ! i of None \<Rightarrow> Some own
       | Some k \<Rightarrow> Some (redirect (length vec) ks k)) else cb_markIdx bm ! i)"
  proof (cases "i \<in> set ys \<and> cb_markIdx bm ! i \<noteq> None")
    case True
    then obtain k where k: "cb_markIdx bm ! i = Some k" by blast
    have "k \<in> set ks" using ks k True by blast
    then obtain j where j: "j < length ks" "ks ! j = k" "redirect (length vec) ks k = length vec + j"
      by (rule redirect_cases [OF distributedD(1) [OF d]])
    then show ?thesis using distributedD(12) [OF d j(1)] True k by simp
  next
    case False
    then show ?thesis using distributedD(10,11) [OF d] by auto
  qed
qed

lemma distributed_marks_ok:
  assumes mk: "marks_ok m bm" and u: "\<forall>u. cb_unusedBucket bm = Some u \<longrightarrow> u < length (cb_vec bm) \<and> u \<notin> used bm"
    and g: "getIdxBucketSortInfo bm = (own, bm1)" and d: "distributed ys own (cb_vec bm1) ks tab bm l bm'"
  shows "marks_ok m bm'"
proof -
  let ?n = "length (cb_vec bm1)"
  note G = getIdx_facts [OF g mk u]
  have cnt: "bs_counter (cb_vec bm' ! k) = 0" if "k < length (cb_vec bm')" for k
  proof (cases "k < ?n")
    case True
    have "bs_counter (cb_vec bm' ! own) = 0"
      using distributedD(8) [OF d] G(1,4) by (simp add: resetSortInfo_def split: if_splits)
    then show ?thesis using distributedD(6) [OF d True] by (cases "k = own") simp_all
  next
    case False
    then obtain j where j: "k = ?n + j" using le_Suc_ex [of ?n k] by auto
    then have "j < length ks" using that distributedD(3) [OF d] by simp
    then show ?thesis using distributedD(7) [OF d] by (simp add: j resetSortInfo_def)
  qed
  have rng: "redirect ?n ks k < length (cb_vec bm')" if "k \<in> set ks" for k
    by (rule redirect_cases [OF distributedD(1) [OF d] that, of ?n]) (simp add: distributedD(3) [OF d])
  have "k < length (cb_vec bm')" if i: "i < m" "cb_markIdx bm' ! i = Some k" for i k
  proof (cases "i \<in> set ys")
    case True
    show ?thesis
    proof (cases "cb_markIdx bm ! i")
      case None
      then show ?thesis using distributed_marks(1) [OF d i(1)] i(2) True G(1) distributedD(3) [OF d] by simp
    next
      case (Some k0)
      then have "k = redirect ?n ks k0" using distributed_marks(1) [OF d i(1)] i(2) True by simp
      then show ?thesis using rng distributed_marks(2) [OF d i(1) True Some] by simp
    qed
  next
    case False
    then have "k \<in> used bm" using distributed_marks(1) [OF d i(1)] i marks_used [OF mk] by simp
    then have "k < ?n" using G(3) by blast
    then show ?thesis using distributedD(3) [OF d] by simp
  qed
  moreover have "length (cb_markIdx bm') = m \<and> length (sizeClauses (cb_inConstruction bm')) = m"
    using distributedD(9,16) [OF d] mk by (simp add: marks_ok_def sizesAfter_def)
  ultimately show ?thesis using cnt by (simp add: marks_ok_def)
qed

definition dstep ::
  "nat \<Rightarrow> (nat \<Rightarrow> lit set) \<Rightarrow> nat list \<Rightarrow> nat \<Rightarrow> nat \<Rightarrow> nat list \<Rightarrow> nat list \<Rightarrow> bucketManagerCl \<Rightarrow> lit \<Rightarrow> bucketManagerCl \<Rightarrow> bool" where
  "dstep m sig ys own n ks tab bm l bm' \<longleftrightarrow> refine_ok m sig bm
     \<and> (\<exists>bm1. getIdxBucketSortInfo bm = (own, bm1) \<and> n = length (cb_vec bm1) \<and> distributed ys own (cb_vec bm1) ks tab bm l bm')
     \<and> distinct ys \<and> (\<forall>i\<in>set ys. i < m) \<and> (\<forall>i<m. l \<notin> sig i \<and> finite (sig i))"

definition addLit :: "nat list \<Rightarrow> lit \<Rightarrow> (nat \<Rightarrow> lit set) \<Rightarrow> nat \<Rightarrow> lit set" where
  "addLit ys l sig i = (if i \<in> set ys then insert l (sig i) else sig i)"

lemma refine_okD:
  assumes "refine_ok m sig bm"
  shows "marks_ok m bm" "i < m \<Longrightarrow> cb_markIdx bm ! i = None \<longleftrightarrow> sig i = {}"
    "i < m \<Longrightarrow> j < m \<Longrightarrow> sig i \<noteq> {} \<Longrightarrow> sig j \<noteq> {} \<Longrightarrow> (cb_markIdx bm ! i = cb_markIdx bm ! j \<longleftrightarrow> sig i = sig j)"
    "k \<in> used bm \<Longrightarrow> bs_start (cb_vec bm ! k) + card {i. i < m \<and> cb_markIdx bm ! i = Some k} = bs_end (cb_vec bm ! k)"
    "k \<in> used bm \<Longrightarrow> bs_end (cb_vec bm ! k) \<le> nbClauseInDistrib (cb_inConstruction bm)"
    "k \<in> used bm \<Longrightarrow> k' \<in> used bm \<Longrightarrow> k \<noteq> k' \<Longrightarrow> interval bm k \<inter> interval bm k' = {}"
    "\<forall>u. cb_unusedBucket bm = Some u \<longrightarrow> u < length (cb_vec bm) \<and> u \<notin> used bm"
    "distinct (cb_mustUnMark bm)" "set (cb_mustUnMark bm) = {i. i < m \<and> sig i \<noteq> {}}"
    "nbClauseInDistrib (cb_inConstruction bm) = length (cb_mustUnMark bm)"
    "i < m \<Longrightarrow> sig i \<noteq> {} \<Longrightarrow> sizeClauses (cb_inConstruction bm) ! i = card (sig i)"
  using assms unfolding refine_ok_def by (elim conjE, simp)+

lemma dstepD:
  assumes "dstep m sig ys own n ks tab bm l bm'"
  shows "own < n" "own \<notin> used bm" "k \<in> used bm \<Longrightarrow> k < n" "set ks \<subseteq> used bm" "distinct ks" "marks_ok m bm'"
    "set ks = {k. movedOf (cb_markIdx bm) ys (Some k) \<noteq> []}"
    "i < m \<Longrightarrow> cb_markIdx bm' ! i = (if i \<in> set ys then (case cb_markIdx bm ! i of None \<Rightarrow> Some own
       | Some k \<Rightarrow> Some (redirect n ks k)) else cb_markIdx bm ! i)"
    "i < m \<Longrightarrow> i \<in> set ys \<Longrightarrow> cb_markIdx bm ! i = Some k \<Longrightarrow> k \<in> set ks"
    "k \<in> used bm \<Longrightarrow> bs_start (cb_vec bm' ! k) = bs_start (cb_vec bm ! k) + length (movedOf (cb_markIdx bm) ys (Some k))"
    "k \<in> used bm \<Longrightarrow> bs_end (cb_vec bm' ! k) = bs_end (cb_vec bm ! k)"
    "k \<in> set ks \<Longrightarrow> bs_start (cb_vec bm' ! redirect n ks k) = bs_start (cb_vec bm ! k)
       \<and> bs_end (cb_vec bm' ! redirect n ks k) = bs_start (cb_vec bm ! k) + length (movedOf (cb_markIdx bm) ys (Some k))"
    "movedOf (cb_markIdx bm) ys None \<noteq> [] \<Longrightarrow> bs_start (cb_vec bm' ! own) = nbClauseInDistrib (cb_inConstruction bm)
       \<and> bs_end (cb_vec bm' ! own) = nbClauseInDistrib (cb_inConstruction bm) + length (movedOf (cb_markIdx bm) ys None)"
    "n \<le> length (cb_vec bm')"
    "cb_unusedBucket bm' = (if movedOf (cb_markIdx bm) ys None = [] then Some own else None)"
    "mset tab = loopPos (cb_vec bm) (cb_markIdx bm) (nbClauseInDistrib (cb_inConstruction bm)) ys ks"
proof -
  obtain bm1 where g: "getIdxBucketSortInfo bm = (own, bm1)" and n: "n = length (cb_vec bm1)"
    and d: "distributed ys own (cb_vec bm1) ks tab bm l bm'" and r: "refine_ok m sig bm" and ys: "\<forall>i\<in>set ys. i < m"
    using assms unfolding dstep_def by blast
  note R = refine_okD [OF r]
  note G = getIdx_facts [OF g R(1) R(7)]
  show own: "own < n" "own \<notin> used bm" and un: "k \<in> used bm \<Longrightarrow> k < n" for k using G n by auto
  show M: "i < m \<Longrightarrow> cb_markIdx bm' ! i = (if i \<in> set ys then (case cb_markIdx bm ! i of None \<Rightarrow> Some own
       | Some k \<Rightarrow> Some (redirect n ks k)) else cb_markIdx bm ! i)" for i
    unfolding n by (rule distributed_marks(1) [OF d])
  show "i < m \<Longrightarrow> i \<in> set ys \<Longrightarrow> cb_markIdx bm ! i = Some k \<Longrightarrow> k \<in> set ks"
    by (rule distributed_marks(2) [OF d])
  show dk: "distinct ks" and ks: "set ks = {k. movedOf (cb_markIdx bm) ys (Some k) \<noteq> []}" by (rule distributedD [OF d])+
  show sub: "set ks \<subseteq> used bm"
    using ys marks_used [OF R(1)] unfolding ks by (auto simp: movedOf_def filter_empty_conv)
  show "marks_ok m bm'" by (rule distributed_marks_ok [OF R(1,7) g d])
  have ne: "k \<in> used bm \<Longrightarrow> k \<noteq> own" for k using own(2) by blast
  show "k \<in> used bm \<Longrightarrow> bs_start (cb_vec bm' ! k) = bs_start (cb_vec bm ! k) + length (movedOf (cb_markIdx bm) ys (Some k))"
    using distributedD(4) [OF d, of k] un [unfolded n, of k] ne [of k] G(3) [of k] by simp
  show "k \<in> used bm \<Longrightarrow> bs_end (cb_vec bm' ! k) = bs_end (cb_vec bm ! k)"
    using distributedD(5) [OF d, of k] un [unfolded n, of k] ne [of k] G(3) [of k] by simp
  show "k \<in> set ks \<Longrightarrow> bs_start (cb_vec bm' ! redirect n ks k) = bs_start (cb_vec bm ! k)
       \<and> bs_end (cb_vec bm' ! redirect n ks k) = bs_start (cb_vec bm ! k) + length (movedOf (cb_markIdx bm) ys (Some k))"
  proof -
    assume k: "k \<in> set ks"
    then have e: "cb_vec bm1 ! k = cb_vec bm ! k" using G(3) sub by blast
    obtain j where "j < length ks" "ks ! j = k" "redirect n ks k = n + j" by (rule redirect_cases [OF dk k])
    then show ?thesis using distributedD(7) [OF d, of j] by (simp add: n [symmetric] resetSortInfo_def e)
  qed
  show "movedOf (cb_markIdx bm) ys None \<noteq> [] \<Longrightarrow> bs_start (cb_vec bm' ! own) = nbClauseInDistrib (cb_inConstruction bm)
       \<and> bs_end (cb_vec bm' ! own) = nbClauseInDistrib (cb_inConstruction bm) + length (movedOf (cb_markIdx bm) ys None)"
    using distributedD(8) [OF d] by (simp add: resetSortInfo_def)
  show "n \<le> length (cb_vec bm')" using distributedD(3) [OF d] n by simp
  show "cb_unusedBucket bm' = (if movedOf (cb_markIdx bm) ys None = [] then Some own else None)"
    by (rule distributedD(17) [OF d])
  have "map (\<lambda>k. mset [bs_start (cb_vec bm1 ! k) ..< bs_start (cb_vec bm1 ! k) + length (movedOf (cb_markIdx bm) ys (Some k))]) ks
      = map (\<lambda>k. mset [bs_start (cb_vec bm ! k) ..< bs_start (cb_vec bm ! k) + length (movedOf (cb_markIdx bm) ys (Some k))]) ks"
  proof (rule map_cong [OF refl])
    fix k assume "k \<in> set ks"
    then have "cb_vec bm1 ! k = cb_vec bm ! k" using G(3) sub by blast
    then show "mset [bs_start (cb_vec bm1 ! k) ..< bs_start (cb_vec bm1 ! k) + length (movedOf (cb_markIdx bm) ys (Some k))]
      = mset [bs_start (cb_vec bm ! k) ..< bs_start (cb_vec bm ! k) + length (movedOf (cb_markIdx bm) ys (Some k))]" by simp
  qed
  then show "mset tab = loopPos (cb_vec bm) (cb_markIdx bm) (nbClauseInDistrib (cb_inConstruction bm)) ys ks"
    using distributedD(15) [OF d] by (simp only: loopPos_def)
qed

lemma dstep_premises:
  assumes "dstep m sig ys own n ks tab bm l bm'"
  shows "refine_ok m sig bm" "distinct ys" "i \<in> set ys \<Longrightarrow> i < m" "i < m \<Longrightarrow> l \<notin> sig i" "i < m \<Longrightarrow> finite (sig i)"
  using assms unfolding dstep_def by blast+

lemma redirect_ge: "n \<le> redirect n ks k"
  by (simp add: redirect_def)

text \<open>The clauses of the new, the redirected and the remaining buckets.\<close>

lemma dstep_members:
  assumes d: "dstep m sig ys own n ks tab bm l bm'"
  shows "{i. i < m \<and> cb_markIdx bm' ! i = Some own} = {i \<in> set ys. cb_markIdx bm ! i = None}"
    "k \<in> set ks \<Longrightarrow> {i. i < m \<and> cb_markIdx bm' ! i = Some (redirect n ks k)} = {i \<in> set ys. cb_markIdx bm ! i = Some k}"
    "k \<in> used bm \<Longrightarrow> {i. i < m \<and> cb_markIdx bm' ! i = Some k}
       = {i. i < m \<and> cb_markIdx bm ! i = Some k} - {i \<in> set ys. cb_markIdx bm ! i = Some k}"
    "i < m \<Longrightarrow> cb_markIdx bm' ! i = Some k \<Longrightarrow>
       k = own \<and> i \<in> set ys \<and> cb_markIdx bm ! i = None
       \<or> (\<exists>k0\<in>set ks. k = redirect n ks k0 \<and> i \<in> set ys \<and> cb_markIdx bm ! i = Some k0)
       \<or> k \<in> used bm \<and> i \<notin> set ys \<and> cb_markIdx bm ! i = Some k"
proof -
  note D = dstepD [OF d] and P = dstep_premises [OF d]
  note mk = refine_okD(1) [OF P(1)]
  show moved: "i < m \<Longrightarrow> cb_markIdx bm' ! i = Some k \<Longrightarrow>
       k = own \<and> i \<in> set ys \<and> cb_markIdx bm ! i = None
       \<or> (\<exists>k0\<in>set ks. k = redirect n ks k0 \<and> i \<in> set ys \<and> cb_markIdx bm ! i = Some k0)
       \<or> k \<in> used bm \<and> i \<notin> set ys \<and> cb_markIdx bm ! i = Some k" for i k
    using D(8) [of i] D(9) [of i] marks_used [OF mk, of i k] by (auto split: if_splits option.splits)
  have own: "own \<noteq> redirect n ks k" "k \<in> used bm \<Longrightarrow> own \<noteq> k" "k \<in> used bm \<Longrightarrow> k \<noteq> redirect n ks k'" for k k'
    using D(1,2) D(3) [of k] redirect_ge [of n ks k] redirect_ge [of n ks k'] by auto
  have toNew: "i \<in> set ys \<Longrightarrow> cb_markIdx bm' ! i = (case cb_markIdx bm ! i of None \<Rightarrow> Some own | Some k \<Rightarrow> Some (redirect n ks k))" for i
    using D(8) [of i] P(3) [of i] by simp
  show "{i. i < m \<and> cb_markIdx bm' ! i = Some own} = {i \<in> set ys. cb_markIdx bm ! i = None}"
    using moved [of _ own] own toNew P(3) D(2) by (auto simp del: not_None_eq)
  show "{i. i < m \<and> cb_markIdx bm' ! i = Some (redirect n ks k)} = {i \<in> set ys. cb_markIdx bm ! i = Some k}" if k: "k \<in> set ks"
  proof (intro equalityI subsetI; elim CollectE conjE)
    fix i assume i: "i < m" "cb_markIdx bm' ! i = Some (redirect n ks k)"
    from moved [OF i] own(1) own(3) have "\<exists>k0\<in>set ks. redirect n ks k = redirect n ks k0 \<and> i \<in> set ys \<and> cb_markIdx bm ! i = Some k0"
      by metis
    then show "i \<in> {i \<in> set ys. cb_markIdx bm ! i = Some k}" using redirect_inj [OF D(5) k] by auto
  next
    fix i assume "i \<in> set ys" "cb_markIdx bm ! i = Some k"
    then show "i \<in> {i. i < m \<and> cb_markIdx bm' ! i = Some (redirect n ks k)}" using toNew P(3) by simp
  qed
  show "{i. i < m \<and> cb_markIdx bm' ! i = Some k}
       = {i. i < m \<and> cb_markIdx bm ! i = Some k} - {i \<in> set ys. cb_markIdx bm ! i = Some k}" if k: "k \<in> used bm"
  proof (intro equalityI subsetI)
    fix i assume "i \<in> {i. i < m \<and> cb_markIdx bm' ! i = Some k}"
    then have i: "i < m" "cb_markIdx bm' ! i = Some k" by simp_all
    then show "i \<in> {i. i < m \<and> cb_markIdx bm ! i = Some k} - {i \<in> set ys. cb_markIdx bm ! i = Some k}"
      using moved [OF i] own(2) [OF k] own(3) [OF k] by auto
  next
    fix i assume "i \<in> {i. i < m \<and> cb_markIdx bm ! i = Some k} - {i \<in> set ys. cb_markIdx bm ! i = Some k}"
    then show "i \<in> {i. i < m \<and> cb_markIdx bm' ! i = Some k}" using D(8) [of i] by auto
  qed
qed

lemma card_used:
  assumes d: "dstep m sig ys own n ks tab bm l bm'"
  shows "card {i. i < m \<and> cb_markIdx bm' ! i = Some own} = length (movedOf (cb_markIdx bm) ys None)"
    "k \<in> set ks \<Longrightarrow> card {i. i < m \<and> cb_markIdx bm' ! i = Some (redirect n ks k)} = length (movedOf (cb_markIdx bm) ys (Some k))"
    "k \<in> used bm \<Longrightarrow> card {i. i < m \<and> cb_markIdx bm' ! i = Some k} + length (movedOf (cb_markIdx bm) ys (Some k))
       = card {i. i < m \<and> cb_markIdx bm ! i = Some k}"
proof -
  note P = dstep_premises [OF d] and M = dstep_members [OF d]
  show "card {i. i < m \<and> cb_markIdx bm' ! i = Some own} = length (movedOf (cb_markIdx bm) ys None)"
    "k \<in> set ks \<Longrightarrow> card {i. i < m \<and> cb_markIdx bm' ! i = Some (redirect n ks k)} = length (movedOf (cb_markIdx bm) ys (Some k))"
    using M(1,2) card_moved [OF P(2)] by simp_all
  have sub: "{i \<in> set ys. cb_markIdx bm ! i = Some k} \<subseteq> {i. i < m \<and> cb_markIdx bm ! i = Some k}" using P(3) by auto
  have "card {i \<in> set ys. cb_markIdx bm ! i = Some k} \<le> card {i. i < m \<and> cb_markIdx bm ! i = Some k}"
    by (rule card_mono [OF _ sub]) simp
  then show "k \<in> used bm \<Longrightarrow> card {i. i < m \<and> cb_markIdx bm' ! i = Some k} + length (movedOf (cb_markIdx bm) ys (Some k))
       = card {i. i < m \<and> cb_markIdx bm ! i = Some k}"
    using M(3) [of k] card_Diff_subset [OF _ sub] by (simp add: card_moved [OF P(2)])
qed

lemma used_iff: "marks_ok m bm \<Longrightarrow> k \<in> used bm \<longleftrightarrow> (\<exists>i<m. cb_markIdx bm ! i = Some k)"
  unfolding used_def marks_ok_def by (auto simp: in_set_conv_nth)

lemma dstep_used:
  assumes d: "dstep m sig ys own n ks tab bm l bm'" and k: "k \<in> used bm'"
  obtains "k = own" "movedOf (cb_markIdx bm) ys None \<noteq> []" | k0 where "k0 \<in> set ks" "k = redirect n ks k0" | "k \<in> used bm"
proof -
  obtain i where i: "i < m" "cb_markIdx bm' ! i = Some k" using k used_iff [OF dstepD(6) [OF d]] by blast
  from dstep_members(4) [OF d i] show thesis
    using that by (auto simp: movedOf_def filter_empty_conv)
qed

text \<open>The start, the end and the parent interval of the buckets after the literal.\<close>

lemma dstep_bounds:
  assumes d: "dstep m sig ys own n ks tab bm l bm'" and k: "k \<in> used bm'"
  shows "bs_start (cb_vec bm' ! k) + card {i. i < m \<and> cb_markIdx bm' ! i = Some k} = bs_end (cb_vec bm' ! k)
    \<and> bs_end (cb_vec bm' ! k) \<le> nbClauseInDistrib (cb_inConstruction bm) + length (movedOf (cb_markIdx bm) ys None)"
  using k
proof (rule dstep_used [OF d])
  assume "k = own" "movedOf (cb_markIdx bm) ys None \<noteq> []"
  then show ?thesis using dstepD(13) [OF d] card_used(1) [OF d] by simp
next
  fix k0 assume k0: "k0 \<in> set ks" "k = redirect n ks k0"
  then have u: "k0 \<in> used bm" using dstepD(4) [OF d] by blast
  have "length (movedOf (cb_markIdx bm) ys (Some k0)) \<le> card {i. i < m \<and> cb_markIdx bm ! i = Some k0}"
    using card_used(3) [OF d u] by linarith
  then show ?thesis
    using dstepD(12) [OF d k0(1)] card_used(2) [OF d k0(1)] refine_okD(4,5) [OF dstep_premises(1) [OF d] u] by (simp add: k0(2))
next
  assume u: "k \<in> used bm"
  then show ?thesis
    using dstepD(10,11) [OF d u] card_used(3) [OF d u] refine_okD(4,5) [OF dstep_premises(1) [OF d] u] by linarith
qed

lemma dstep_interval:
  assumes d: "dstep m sig ys own n ks tab bm l bm'"
  shows "movedOf (cb_markIdx bm) ys None \<noteq> [] \<Longrightarrow> interval bm' own =
      {nbClauseInDistrib (cb_inConstruction bm) ..< nbClauseInDistrib (cb_inConstruction bm) + length (movedOf (cb_markIdx bm) ys None)}"
    "k \<in> set ks \<Longrightarrow> interval bm' (redirect n ks k) =
      {bs_start (cb_vec bm ! k) ..< bs_start (cb_vec bm ! k) + length (movedOf (cb_markIdx bm) ys (Some k))}"
    "k \<in> used bm \<Longrightarrow> interval bm' k = {bs_start (cb_vec bm ! k) + length (movedOf (cb_markIdx bm) ys (Some k)) ..< bs_end (cb_vec bm ! k)}"
    "k \<in> set ks \<Longrightarrow> interval bm' (redirect n ks k) \<subseteq> interval bm k"
    "k \<in> used bm \<Longrightarrow> interval bm' k \<subseteq> interval bm k"
    "k \<in> used bm \<Longrightarrow> interval bm k \<subseteq> {..< nbClauseInDistrib (cb_inConstruction bm)}"
    "k \<in> set ks \<Longrightarrow> interval bm' (redirect n ks k) \<inter> interval bm' k = {}"
proof -
  show 1: "movedOf (cb_markIdx bm) ys None \<noteq> [] \<Longrightarrow> interval bm' own =
      {nbClauseInDistrib (cb_inConstruction bm) ..< nbClauseInDistrib (cb_inConstruction bm) + length (movedOf (cb_markIdx bm) ys None)}"
    using dstepD(13) [OF d] by (simp add: interval_def)
  show 2: "k \<in> set ks \<Longrightarrow> interval bm' (redirect n ks k) =
      {bs_start (cb_vec bm ! k) ..< bs_start (cb_vec bm ! k) + length (movedOf (cb_markIdx bm) ys (Some k))}" for k
    using dstepD(12) [OF d, of k] by (simp add: interval_def)
  show 3: "k \<in> used bm \<Longrightarrow> interval bm' k = {bs_start (cb_vec bm ! k) + length (movedOf (cb_markIdx bm) ys (Some k)) ..< bs_end (cb_vec bm ! k)}" for k
    using dstepD(10,11) [OF d, of k] by (simp add: interval_def)
  have le: "k \<in> used bm \<Longrightarrow> bs_start (cb_vec bm ! k) + length (movedOf (cb_markIdx bm) ys (Some k)) \<le> bs_end (cb_vec bm ! k)" for k
    using card_used(3) [OF d, of k] refine_okD(4) [OF dstep_premises(1) [OF d], of k] by linarith
  have ks: "k \<in> set ks \<Longrightarrow> k \<in> used bm" for k using dstepD(4) [OF d] by blast
  show "k \<in> set ks \<Longrightarrow> interval bm' (redirect n ks k) \<subseteq> interval bm k"
    using 2 [of k] le [OF ks, of k] by (auto simp: interval_def)
  show "k \<in> used bm \<Longrightarrow> interval bm' k \<subseteq> interval bm k" using 3 [of k] by (auto simp: interval_def)
  show "k \<in> used bm \<Longrightarrow> interval bm k \<subseteq> {..< nbClauseInDistrib (cb_inConstruction bm)}"
    using refine_okD(5) [OF dstep_premises(1) [OF d], of k] by (auto simp: interval_def)
  show "k \<in> set ks \<Longrightarrow> interval bm' (redirect n ks k) \<inter> interval bm' k = {}"
    using 2 [of k] 3 [OF ks, of k] by auto
qed

lemma dstep_parent:
  assumes d: "dstep m sig ys own n ks tab bm l bm'" and k: "k \<in> used bm'" "k \<noteq> own"
  obtains p where "p \<in> used bm" "interval bm' k \<subseteq> interval bm p" "k = p \<or> p \<in> set ks \<and> k = redirect n ks p"
  using k(1)
proof (rule dstep_used [OF d])
  fix k0 assume "k0 \<in> set ks" "k = redirect n ks k0"
  then show thesis using that dstepD(4) [OF d] dstep_interval(4) [OF d] by blast
qed (use k(2) that dstep_interval(5) [OF d] in blast)+

lemma dstep_disjoint:
  assumes d: "dstep m sig ys own n ks tab bm l bm'" and k: "k \<in> used bm'" "k' \<in> used bm'" "k \<noteq> k'"
  shows "interval bm' k \<inter> interval bm' k' = {}"
proof -
  have own: "interval bm' own \<inter> interval bm' k = {}" if o: "own \<in> used bm'" and k: "k \<in> used bm'" "k \<noteq> own" for k
  proof -
    obtain p where p: "p \<in> used bm" "interval bm' k \<subseteq> interval bm p" by (rule dstep_parent [OF d k])
    have "movedOf (cb_markIdx bm) ys None \<noteq> []"
      using card_used(1) [OF d] used_iff [OF dstepD(6) [OF d], of own] o by (auto simp: card_gt_0_iff)
    then show ?thesis using dstep_interval(1) [OF d] dstep_interval(6) [OF d p(1)] p(2) by auto
  qed
  show ?thesis
  proof (cases "k = own \<or> k' = own")
    case True
    then show ?thesis using own k by blast
  next
    case False
    obtain p where p: "p \<in> used bm" "interval bm' k \<subseteq> interval bm p" "k = p \<or> p \<in> set ks \<and> k = redirect n ks p"
      using dstep_parent [OF d k(1)] False by blast
    obtain q where q: "q \<in> used bm" "interval bm' k' \<subseteq> interval bm q" "k' = q \<or> q \<in> set ks \<and> k' = redirect n ks q"
      using dstep_parent [OF d k(2)] False by blast
    show ?thesis
    proof (cases "p = q")
      case True
      then have "p \<in> set ks \<and> (k = redirect n ks p \<and> k' = p \<or> k = p \<and> k' = redirect n ks p)" using p(3) q(3) k(3) by auto
      then show ?thesis using dstep_interval(7) [OF d, of p] by auto
    next
      case False
      then show ?thesis using refine_okD(6) [OF dstep_premises(1) [OF d] p(1) q(1)] p(2) q(2) by blast
    qed
  qed
qed

lemma dstep_sig:
  assumes d: "dstep m sig ys own n ks tab bm l bm'" and i: "i < m" "j < m"
  shows "cb_markIdx bm' ! i = None \<longleftrightarrow> addLit ys l sig i = {}"
    "addLit ys l sig i \<noteq> {} \<Longrightarrow> addLit ys l sig j \<noteq> {} \<Longrightarrow>
       (cb_markIdx bm' ! i = cb_markIdx bm' ! j \<longleftrightarrow> addLit ys l sig i = addLit ys l sig j)"
proof -
  note D = dstepD [OF d] and P = dstep_premises [OF d]
  note R = refine_okD [OF P(1)]
  let ?mk = "cb_markIdx bm"
  show "cb_markIdx bm' ! i = None \<longleftrightarrow> addLit ys l sig i = {}"
    using D(8) [OF i(1)] R(2) [OF i(1)] by (auto simp: addLit_def split: option.splits)
  have mixed: "cb_markIdx bm' ! a \<noteq> cb_markIdx bm' ! b \<and> addLit ys l sig a \<noteq> addLit ys l sig b"
    if ab: "a < m" "b < m" "a \<in> set ys" "b \<notin> set ys" "addLit ys l sig b \<noteq> {}" for a b
  proof
    obtain k where k: "?mk ! b = Some k" using R(2) [OF ab(2)] ab(4,5) by (auto simp: addLit_def)
    have u: "k \<in> used bm" by (rule marks_used [OF R(1) ab(2) k])
    have "k \<noteq> own" "k \<noteq> redirect n ks k0" for k0 using u D(2) D(3) [OF u] redirect_ge [of n ks k0] by auto
    then show "cb_markIdx bm' ! a \<noteq> cb_markIdx bm' ! b"
      using D(8) [OF ab(1)] D(8) [OF ab(2)] ab(3,4) k by (auto split: option.splits)
    show "addLit ys l sig a \<noteq> addLit ys l sig b" using P(4) [OF ab(2)] ab(3,4) by (auto simp: addLit_def)
  qed
  assume ne: "addLit ys l sig i \<noteq> {}" "addLit ys l sig j \<noteq> {}"
  show "cb_markIdx bm' ! i = cb_markIdx bm' ! j \<longleftrightarrow> addLit ys l sig i = addLit ys l sig j"
  proof (cases "i \<in> set ys \<longleftrightarrow> j \<in> set ys")
    case False
    then show ?thesis using mixed [of i j] mixed [of j i] i ne by metis
  next
    case same: True
    show ?thesis
    proof (cases "i \<in> set ys")
      case False
      then show ?thesis using same D(8) [OF i(1)] D(8) [OF i(2)] R(3) [OF i] ne by (simp add: addLit_def)
    next
      case True
      have ins: "insert l (sig i) = insert l (sig j) \<longleftrightarrow> sig i = sig j" using P(4) [OF i(1)] P(4) [OF i(2)] by (rule insert_ident)
      have own: "own \<noteq> redirect n ks k" for k using D(1) redirect_ge [of n ks k] by linarith
      show ?thesis
      proof (cases "?mk ! i")
        case None
        then have "sig i = {}" using R(2) [OF i(1)] by simp
        moreover have "cb_markIdx bm' ! i = Some own" using D(8) [OF i(1)] True None by simp
        moreover have "cb_markIdx bm' ! j = Some own \<longleftrightarrow> ?mk ! j = None"
          using D(8) [OF i(2)] True same own by (auto split: option.splits)
        ultimately show ?thesis using R(2) [OF i(2)] True same ins by (auto simp: addLit_def)
      next
        case (Some k)
        have si: "sig i \<noteq> {}" using R(2) [OF i(1)] Some by simp
        have mi: "cb_markIdx bm' ! i = Some (redirect n ks k)" using D(8) [OF i(1)] True Some by simp
        show ?thesis
        proof (cases "?mk ! j")
          case None
          then show ?thesis using mi own D(8) [OF i(2)] True same R(2) [OF i(2)] si ins by (auto simp: addLit_def)
        next
          case (Some k')
          have "k \<in> set ks" "k' \<in> set ks" using D(9) i True same \<open>?mk ! i = Some k\<close> Some by blast+
          then have "cb_markIdx bm' ! i = cb_markIdx bm' ! j \<longleftrightarrow> k = k'"
            using mi D(8) [OF i(2)] True same Some redirect_inj [OF D(5)] by simp
          moreover have "sig j \<noteq> {}" using R(2) [OF i(2)] Some by simp
          ultimately show ?thesis
            using R(3) [OF i si] \<open>?mk ! i = Some k\<close> Some ins True same by (simp add: addLit_def)
        qed
      qed
    qed
  qed
qed

lemma refine_step:
  assumes d: "dstep m sig ys own n ks tab bm l bm'"
  shows "refine_ok m (addLit ys l sig) bm'"
proof -
  note D = dstepD [OF d] and P = dstep_premises [OF d] and C = card_used [OF d] and M = dstep_members [OF d]
  note R = refine_okD [OF P(1)]
  obtain bm1 :: bucketManagerCl where dd: "distributed ys own (cb_vec bm1) ks tab bm l bm'"
    using d unfolding dstep_def by blast
  note E = distributedD [OF dd]
  have new: "set (movedOf (cb_markIdx bm) ys None) = {i \<in> set ys. sig i = {}}"
    using R(2) P(3) by (auto simp: movedOf_def)
  have must: "set (cb_mustUnMark bm') = {i. i < m \<and> addLit ys l sig i \<noteq> {}}"
    unfolding E(13) set_append new R(9) using P(3) by (auto simp: addLit_def)
  have dist: "distinct (cb_mustUnMark bm')"
    unfolding E(13) using R(8) P(2) R(9) new by (auto simp: movedOf_def)
  have sz: "sizeClauses (cb_inConstruction bm') ! i = card (addLit ys l sig i)"
    if i: "i < m" "addLit ys l sig i \<noteq> {}" for i
  proof -
    have len: "length (sizeClauses (cb_inConstruction bm)) = m" using R(1) by (simp add: marks_ok_def)
    show ?thesis
      using i R(2) [OF i(1)] R(11) [OF i(1)] P(4,5) [OF i(1)]
      by (auto simp: E(16) sizesAfter_def len addLit_def)
  qed
  have unused: "\<forall>u. cb_unusedBucket bm' = Some u \<longrightarrow> u < length (cb_vec bm') \<and> u \<notin> used bm'"
    using D(1,14,15) C(1) used_iff [OF D(6), of own] by (auto split: if_splits)
  have bnd: "\<forall>k\<in>used bm'. bs_start (cb_vec bm' ! k) + card {i. i < m \<and> cb_markIdx bm' ! i = Some k} = bs_end (cb_vec bm' ! k)
      \<and> bs_end (cb_vec bm' ! k) \<le> nbClauseInDistrib (cb_inConstruction bm')"
    using dstep_bounds [OF d] E(16) by simp
  have nb: "nbClauseInDistrib (cb_inConstruction bm') = length (cb_mustUnMark bm')"
    by (simp add: E(13,16) R(10))
  have none: "\<forall>i<m. (cb_markIdx bm' ! i = None) = (addLit ys l sig i = {})" using dstep_sig(1) [OF d] by blast
  have eq: "\<forall>i<m. \<forall>j<m. addLit ys l sig i \<noteq> {} \<longrightarrow> addLit ys l sig j \<noteq> {} \<longrightarrow>
      (cb_markIdx bm' ! i = cb_markIdx bm' ! j \<longleftrightarrow> addLit ys l sig i = addLit ys l sig j)"
    using dstep_sig(2) [OF d] by blast
  have dis: "\<forall>k\<in>used bm'. \<forall>k'\<in>used bm'. k \<noteq> k' \<longrightarrow> interval bm' k \<inter> interval bm' k' = {}"
    using dstep_disjoint [OF d] by blast
  have szs: "\<forall>i<m. addLit ys l sig i \<noteq> {} \<longrightarrow> sizeClauses (cb_inConstruction bm') ! i = card (addLit ys l sig i)"
    using sz by blast
  show ?thesis unfolding refine_ok_def
    by (rule conjI [OF D(6) conjI [OF none conjI [OF eq conjI [OF bnd conjI [OF dis conjI [OF unused conjI [OF dist conjI [OF must
      conjI [OF nb szs]]]]]]]]])
qed

section \<open>The positions of a literal\<close>

definition distEntry :: "lit \<times> nat list \<Rightarrow> nat list" where
  "distEntry e = [intern (fst e), length (snd e)] @ snd e"

definition entry_fits :: "nat \<Rightarrow> (nat \<Rightarrow> lit set) \<Rightarrow> bucketManagerCl \<Rightarrow> lit \<times> nat list \<Rightarrow> bool" where
  "entry_fits m sig bm e \<longleftrightarrow> snd e \<noteq> [] \<and> sorted (snd e) \<and> distinct (snd e)
     \<and> set (snd e) \<subseteq> {..< nbClauseInDistrib (cb_inConstruction bm)}
     \<and> (\<forall>i<m. \<forall>k. cb_markIdx bm ! i = Some k \<longrightarrow>
          (if fst e \<in> sig i then interval bm k \<subseteq> set (snd e) else interval bm k \<inter> set (snd e) = {}))"

definition dist_ok :: "nat \<Rightarrow> (nat \<Rightarrow> lit set) \<Rightarrow> bucketManagerCl \<Rightarrow> (lit \<times> nat list) list \<Rightarrow> bool" where
  "dist_ok m sig bm D \<longleftrightarrow> distrib (cb_inConstruction bm) = concat (map distEntry D)
     \<and> (\<forall>e\<in>set D. entry_fits m sig bm e)"

definition movedPos :: "bucketManagerCl \<Rightarrow> nat list \<Rightarrow> nat \<Rightarrow> nat list" where
  "movedPos bm ys k = [bs_start (cb_vec bm ! k) ..< bs_start (cb_vec bm ! k) + length (movedOf (cb_markIdx bm) ys (Some k))]"

lemma movedPos_interval:
  assumes d: "dstep m sig ys own n ks tab bm l bm'" and k: "k \<in> set ks"
  shows "set (movedPos bm ys k) = interval bm' (redirect n ks k)" "movedPos bm ys k \<noteq> []"
    "set (movedPos bm ys k) \<subseteq> interval bm k" "k \<in> used bm"
proof -
  show 1: "set (movedPos bm ys k) = interval bm' (redirect n ks k)"
    using dstep_interval(2) [OF d k] by (simp add: movedPos_def)
  show "movedPos bm ys k \<noteq> []" using dstepD(7) [OF d] k by (auto simp: movedPos_def)
  show "set (movedPos bm ys k) \<subseteq> interval bm k" using 1 dstep_interval(4) [OF d k] by simp
  show "k \<in> used bm" using dstepD(4) [OF d] k by blast
qed

lemma tab_positions:
  assumes d: "dstep m sig ys own n ks tab bm l bm'"
  defines "nb \<equiv> nbClauseInDistrib (cb_inConstruction bm)"
  shows "set tab = {nb ..< nb + length (movedOf (cb_markIdx bm) ys None)} \<union> (\<Union>k\<in>set ks. set (movedPos bm ys k))"
    "distinct tab" "tab = [] \<longleftrightarrow> ys = []"
proof -
  note P = movedPos_interval [OF d] and R = refine_okD [OF dstep_premises(1) [OF d]]
  let ?L = "[nb ..< nb + length (movedOf (cb_markIdx bm) ys None)] @ concat (map (movedPos bm ys) ks)"
  have m: "mset tab = mset ?L"
    unfolding dstepD(16) [OF d] loopPos_def nb_def
    by (simp add: mset_concat movedPos_def comp_def del: mset_upt)
  then show s: "set tab = {nb ..< nb + length (movedOf (cb_markIdx bm) ys None)} \<union> (\<Union>k\<in>set ks. set (movedPos bm ys k))"
    using mset_eq_setD [OF m] by simp
  have dis: "set (movedPos bm ys k) \<inter> set (movedPos bm ys k') = {}" if "k \<in> set ks" "k' \<in> set ks" "k \<noteq> k'" for k k'
    using R(6) [OF P(4) [OF that(1)] P(4) [OF that(2)] that(3)] P(3) [OF that(1)] P(3) [OF that(2)] by blast
  have "inj_on (movedPos bm ys) (set ks)"
  proof (rule inj_onI, rule ccontr)
    fix k k' assume k: "k \<in> set ks" "k' \<in> set ks" "movedPos bm ys k = movedPos bm ys k'" "k \<noteq> k'"
    then show False using dis [OF k(1,2,4)] P(2) [OF k(1)] by simp
  qed
  then have "distinct (concat (map (movedPos bm ys) ks))"
  proof (intro distinct_concat)
    assume "inj_on (movedPos bm ys) (set ks)"
    then show "distinct (map (movedPos bm ys) ks)" using dstepD(5) [OF d] by (simp add: distinct_map)
  next
    fix xs assume "xs \<in> set (map (movedPos bm ys) ks)"
    then show "distinct xs" by (auto simp: movedPos_def)
  next
    fix xs xs' assume x: "xs \<in> set (map (movedPos bm ys) ks)" "xs' \<in> set (map (movedPos bm ys) ks)" "xs \<noteq> xs'"
    then obtain k k' where "k \<in> set ks" "k' \<in> set ks" "xs = movedPos bm ys k" "xs' = movedPos bm ys k'" by auto
    with x(3) dis [of k k'] show "set xs \<inter> set xs' = {}" by blast
  qed
  moreover have "set (movedPos bm ys k) \<subseteq> {..< nb}" if "k \<in> set ks" for k
    using P(3,4) [OF that] dstep_interval(6) [OF d] unfolding nb_def by blast
  ultimately have "distinct ?L" by fastforce
  then show "distinct tab" using mset_eq_imp_distinct_iff [OF m] by simp
  show "tab = [] \<longleftrightarrow> ys = []"
  proof
    assume "tab = []"
    then have z: "{nb ..< nb + length (movedOf (cb_markIdx bm) ys None)} = {}" "\<forall>k\<in>set ks. movedPos bm ys k = []"
      using s by (metis Un_empty empty_set, simp)
    from z(1) have "length (movedOf (cb_markIdx bm) ys None) = 0" by simp
    moreover have "ks = []" using z(2) P(2) by (cases ks) auto
    ultimately have e: "movedOf (cb_markIdx bm) ys None = []" "ks = []" by simp_all
    have "i \<notin> set ys" for i
      using e dstepD(7) [OF d] by (cases "cb_markIdx bm ! i") (auto simp: movedOf_def filter_empty_conv)
    then show "ys = []" by (cases ys) auto
  next
    assume "ys = []"
    then have "set ks = {}" "movedOf (cb_markIdx bm) ys None = []" using dstepD(7) [OF d] by (simp_all add: movedOf_def)
    then show "tab = []" using s by simp
  qed
qed

lemma dist_old:
  assumes d: "dstep m sig ys own n ks tab bm l bm'" and e: "entry_fits m sig bm e" "fst e \<noteq> l"
  shows "entry_fits m (addLit ys l sig) bm' e"
proof -
  note R = refine_okD [OF dstep_premises(1) [OF d]]
  obtain bm1 :: bucketManagerCl where dd: "distributed ys own (cb_vec bm1) ks tab bm l bm'" using d unfolding dstep_def by blast
  have nb: "nbClauseInDistrib (cb_inConstruction bm) \<le> nbClauseInDistrib (cb_inConstruction bm')"
    using distributedD(16) [OF dd] by simp
  have E: "snd e \<noteq> []" "sorted (snd e)" "distinct (snd e)" "set (snd e) \<subseteq> {..< nbClauseInDistrib (cb_inConstruction bm)}"
    "\<And>i k. i < m \<Longrightarrow> cb_markIdx bm ! i = Some k \<Longrightarrow>
       (if fst e \<in> sig i then interval bm k \<subseteq> set (snd e) else interval bm k \<inter> set (snd e) = {})"
    using e(1) unfolding entry_fits_def by blast+
  have l: "fst e \<in> addLit ys l sig i \<longleftrightarrow> fst e \<in> sig i" for i using e(2) by (simp add: addLit_def)
  have "if fst e \<in> sig i then interval bm' k \<subseteq> set (snd e) else interval bm' k \<inter> set (snd e) = {}"
    if i: "i < m" "cb_markIdx bm' ! i = Some k" for i k
    using dstep_members(4) [OF d i]
  proof (elim disjE conjE bexE)
    assume k: "k = own" "i \<in> set ys" "cb_markIdx bm ! i = None"
    then have "sig i = {}" "movedOf (cb_markIdx bm) ys None \<noteq> []"
      using R(2) [OF i(1)] by (auto simp: movedOf_def filter_empty_conv)
    then show ?thesis using dstep_interval(1) [OF d] E(4) k(1) by auto
  next
    fix k0 assume k0: "k0 \<in> set ks" "k = redirect n ks k0" "cb_markIdx bm ! i = Some k0"
    show ?thesis using E(5) [OF i(1) k0(3)] dstep_interval(4) [OF d k0(1)] unfolding k0(2)
      by (cases "fst e \<in> sig i") (simp_all, blast+)
  next
    assume k: "k \<in> used bm" "cb_markIdx bm ! i = Some k"
    show ?thesis using E(5) [OF i(1) k(2)] dstep_interval(5) [OF d k(1)]
      by (cases "fst e \<in> sig i") (simp_all, blast+)
  qed
  then show ?thesis unfolding entry_fits_def l using E(1-4) nb by force
qed

lemma dist_new:
  assumes d: "dstep m sig ys own n ks tab bm l bm'" and ne: "ys \<noteq> []"
  shows "entry_fits m (addLit ys l sig) bm' (l, tab)"
proof -
  note R = refine_okD [OF dstep_premises(1) [OF d]] and P = dstep_premises [OF d] and T = tab_positions [OF d]
  note MP = movedPos_interval [OF d]
  obtain bm1 :: bucketManagerCl where dd: "distributed ys own (cb_vec bm1) ks tab bm l bm'" using d unfolding dstep_def by blast
  have l: "i < m \<Longrightarrow> l \<in> addLit ys l sig i \<longleftrightarrow> i \<in> set ys" for i using P(4) [of i] by (simp add: addLit_def)
  have "if i \<in> set ys then interval bm' k \<subseteq> set tab else interval bm' k \<inter> set tab = {}"
    if i: "i < m" "cb_markIdx bm' ! i = Some k" for i k
    using dstep_members(4) [OF d i]
  proof (elim disjE conjE bexE)
    assume k: "k = own" "i \<in> set ys" "cb_markIdx bm ! i = None"
    then have "movedOf (cb_markIdx bm) ys None \<noteq> []" by (auto simp: movedOf_def filter_empty_conv)
    then show ?thesis using dstep_interval(1) [OF d] k(1,2) T(1) by auto
  next
    fix k0 assume k0: "k0 \<in> set ks" "k = redirect n ks k0" "i \<in> set ys"
    then show ?thesis using T(1) MP(1) [OF k0(1)] by auto
  next
    assume k: "k \<in> used bm" "i \<notin> set ys"
    have "interval bm' k \<inter> set (movedPos bm ys k0) = {}" if k0: "k0 \<in> set ks" for k0
    proof (cases "k0 = k")
      case True
      then show ?thesis using dstep_interval(7) [OF d k0] MP(1) [OF k0] by auto
    next
      case False
      then show ?thesis
        using R(6) [OF k(1) MP(4) [OF k0]] MP(3) [OF k0] dstep_interval(5) [OF d k(1)] by blast
    qed
    moreover have "interval bm' k \<subseteq> {..< nbClauseInDistrib (cb_inConstruction bm)}"
      using dstep_interval(5,6) [OF d k(1)] by blast
    ultimately show ?thesis using k(2) T(1) by auto
  qed
  moreover have "set tab \<subseteq> {..< nbClauseInDistrib (cb_inConstruction bm')}"
    using MP(3,4) dstep_interval(6) [OF d] distributedD(16) [OF dd] unfolding T(1) by fastforce
  ultimately show ?thesis
    using T(2,3) ne distributedD(14) [OF dd] l by (simp add: entry_fits_def)
qed

lemma dist_step:
  assumes d: "dstep m sig ys own n ks tab bm l bm'" and D: "dist_ok m sig bm D" "l \<notin> fst ` set D"
  shows "dist_ok m (addLit ys l sig) bm' (D @ (if ys = [] then [] else [(l, tab)]))"
proof -
  obtain bm1 :: bucketManagerCl where dd: "distributed ys own (cb_vec bm1) ks tab bm l bm'" using d unfolding dstep_def by blast
  have "\<forall>e\<in>set D. entry_fits m (addLit ys l sig) bm' e"
    using D dist_old [OF d] unfolding dist_ok_def by (metis image_eqI)
  then show ?thesis
    using D(1) dist_new [OF d] tab_positions(3) [OF d] distributedD(16) [OF dd]
    by (auto simp: dist_ok_def distEntry_def)
qed

end
