(* ===== verification/BucketClCollect.thy ===== *)
theory BucketClCollect
  imports BucketClRefine
begin

text \<open>
  The whole distribution: after all literals of a component and the removal of copies, the distribution
  is a list of different sets of literals, one for each residual clause, with the positions of each literal.
\<close>

section \<open>All literals\<close>

definition litsOf :: "'z cnfManager_scheme \<Rightarrow> var list \<Rightarrow> lit list" where
  "litsOf f C = concat (map (\<lambda>v. if varIsAssigned f v then [] else [makeLitFalse v, makeLitTrue v]) C)"

lemma foldl_distribVar:
  "foldl (distribVar f) bm C = foldl (\<lambda>bm l. createDistribWrTLit f l bm) bm (litsOf f C)"
  by (induction C arbitrary: bm) (simp_all add: litsOf_def distribVar_def)

text \<open>The literals of clause \<open>i\<close> among \<open>ls\<close>.\<close>

definition sigma :: "'z cnfManager_scheme \<Rightarrow> ModeStore \<Rightarrow> lit list \<Rightarrow> nat \<Rightarrow> lit set" where
  "sigma f mode ls i = {l \<in> set ls. i \<in> set (keptOf f mode l)}"

lemma sigma_snoc: "sigma f mode (ls @ [l]) = addLit (keptOf f mode l) l (sigma f mode ls)"
  by (rule ext) (auto simp: sigma_def addLit_def)

lemma createDistrib_dstep:
  assumes r: "refine_ok m sig bm" and ys: "ys = keptOf f (bm_modeStore bm) l" "distinct ys" "\<forall>i\<in>set ys. i < m"
    and sig: "\<forall>i<m. l \<notin> sig i \<and> finite (sig i)"
  shows "\<exists>own n ks tab. dstep m sig ys own n ks tab bm l (createDistribWrTLit f l bm)"
proof -
  obtain own bm1 where g: "getIdxBucketSortInfo bm = (own, bm1)" by fastforce
  obtain ks tab where "distributed ys own (cb_vec bm1) ks tab bm l (createDistribWrTLit f l bm)"
    using createDistrib_distributed [OF refine_okD(1,7) [OF r] g ys] by blast
  then show ?thesis unfolding dstep_def using r g ys(2,3) sig by blast
qed

text \<open>What a literal leaves unchanged.\<close>

definition same_frame :: "bucketManagerCl \<Rightarrow> bucketManagerCl \<Rightarrow> bool" where
  "same_frame bm bm' \<longleftrightarrow> bm_modeStore bm' = bm_modeStore bm \<and> bm_bucketAllocator bm' = bm_bucketAllocator bm
     \<and> cb_mapVar bm' = cb_mapVar bm
     \<and> (let ic = cb_inConstruction bm; ic' = cb_inConstruction bm' in
          shiftedIndexClause ic' = shiftedIndexClause ic \<and> shiftedSizeClause ic' = shiftedSizeClause ic
        \<and> distribDiffSize ic' = distribDiffSize ic \<and> markedAsRedundant ic' = markedAsRedundant ic
        \<and> maxSizeClause ic' = maxSizeClause ic \<and> capacityDistrib ic' = capacityDistrib ic)"

lemma same_frame_trans: "same_frame a b \<Longrightarrow> same_frame b c \<Longrightarrow> same_frame a c"
  by (simp add: same_frame_def Let_def)

lemma dstep_frame:
  assumes "dstep m sig ys own n ks tab bm l bm'"
  shows "same_frame bm bm'"
proof -
  obtain bm1 :: bucketManagerCl where d: "distributed ys own (cb_vec bm1) ks tab bm l bm'"
    using assms unfolding dstep_def by blast
  show ?thesis using distributedD(16,18-20) [OF d] by (simp add: same_frame_def Let_def)
qed

definition keptEntries :: "'z cnfManager_scheme \<Rightarrow> ModeStore \<Rightarrow> lit list \<Rightarrow> lit list" where
  "keptEntries f mode ls = filter (\<lambda>l. keptOf f mode l \<noteq> []) ls"

lemma distribute_all:
  assumes r: "refine_ok m (\<lambda>_. {}) bm" and d: "distrib (cb_inConstruction bm) = []"
    and occ: "\<forall>l\<in>set ls. distinct (keptOf f (bm_modeStore bm) l) \<and> (\<forall>i\<in>set (keptOf f (bm_modeStore bm) l). i < m)"
    and ls: "distinct ls"
  defines "mode \<equiv> bm_modeStore bm" and "bm' \<equiv> foldl (\<lambda>bm l. createDistribWrTLit f l bm) bm ls"
  shows "refine_ok m (sigma f mode ls) bm' \<and> same_frame bm bm'
    \<and> (\<exists>D. dist_ok m (sigma f mode ls) bm' D \<and> map fst D = keptEntries f mode ls)"
  using occ ls unfolding bm'_def
proof (induction ls rule: rev_induct)
  case Nil
  have "sigma f mode [] = (\<lambda>_. {})" by (auto simp: sigma_def)
  then show ?case using r d by (auto simp: same_frame_def Let_def dist_ok_def keptEntries_def intro!: exI [of _ "[]"])
next
  case (snoc l ls)
  let ?b = "foldl (\<lambda>bm l. createDistribWrTLit f l bm) bm ls"
  obtain D where I: "refine_ok m (sigma f mode ls) ?b" "same_frame bm ?b" "dist_ok m (sigma f mode ls) ?b D"
    "map fst D = keptEntries f mode ls" using snoc by auto
  have mode: "bm_modeStore ?b = mode" using I(2) by (simp add: same_frame_def mode_def)
  have sig: "\<forall>i<m. l \<notin> sigma f mode ls i \<and> finite (sigma f mode ls i)" using snoc.prems(2) by (auto simp: sigma_def)
  have o: "distinct (keptOf f mode l)" "\<forall>i\<in>set (keptOf f mode l). i < m" using snoc.prems(1) by (simp_all add: mode_def)
  obtain own n ks tab where s: "dstep m (sigma f mode ls) (keptOf f mode l) own n ks tab ?b l (createDistribWrTLit f l ?b)"
    using createDistrib_dstep [OF I(1) _ _ _ sig, where f = f] o by (metis mode)
  have "l \<notin> set (map fst D)" using snoc.prems(2) by (simp add: I(4) keptEntries_def)
  then have "dist_ok m (sigma f mode (ls @ [l])) (createDistribWrTLit f l ?b)
      (D @ (if keptOf f mode l = [] then [] else [(l, tab)]))"
    unfolding sigma_snoc using dist_step [OF s I(3)] by simp
  moreover have "map fst (D @ (if keptOf f mode l = [] then [] else [(l, tab)])) = keptEntries f mode (ls @ [l])"
    using I(4) by (simp add: keptEntries_def)
  moreover have "refine_ok m (sigma f mode (ls @ [l])) (createDistribWrTLit f l ?b)"
    unfolding sigma_snoc by (rule refine_step [OF s])
  moreover have "same_frame bm (createDistribWrTLit f l ?b)" by (rule same_frame_trans [OF I(2) dstep_frame [OF s]])
  ultimately show ?case unfolding foldl_append foldl.simps by blast
qed

section \<open>Copies of a clause\<close>

text \<open>The bucket of a clause, and its interval.\<close>

definition bucketOf :: "bucketManagerCl \<Rightarrow> nat \<Rightarrow> BucketSortInfo" where
  "bucketOf bm i = cb_vec bm ! the (cb_markIdx bm ! i)"

lemma bucketOf_interval:
  assumes r: "refine_ok m sig bm" and i: "i \<in> set (cb_mustUnMark bm)"
  shows "i < m" "sig i \<noteq> {}" "\<exists>k. cb_markIdx bm ! i = Some k \<and> k \<in> used bm \<and> k < length (cb_vec bm) \<and> bucketOf bm i = cb_vec bm ! k
      \<and> interval bm k = {bs_start (bucketOf bm i) ..< bs_end (bucketOf bm i)}"
    "bs_start (bucketOf bm i) < bs_end (bucketOf bm i)" "bs_end (bucketOf bm i) \<le> nbClauseInDistrib (cb_inConstruction bm)"
proof -
  note R = refine_okD [OF r]
  show i': "i < m" "sig i \<noteq> {}" using i R(9) by auto
  then obtain k where k: "cb_markIdx bm ! i = Some k" using R(2) by fastforce
  have u: "k \<in> used bm" by (rule marks_used [OF R(1) i'(1) k])
  have l: "k < length (cb_vec bm)" using R(1) i'(1) k by (simp add: marks_ok_def)
  show "\<exists>k. cb_markIdx bm ! i = Some k \<and> k \<in> used bm \<and> k < length (cb_vec bm) \<and> bucketOf bm i = cb_vec bm ! k
      \<and> interval bm k = {bs_start (bucketOf bm i) ..< bs_end (bucketOf bm i)}"
    using k u l by (simp add: bucketOf_def interval_def)
  have "card {i. i < m \<and> cb_markIdx bm ! i = Some k} > 0" using i'(1) k by (auto simp: card_gt_0_iff)
  then show "bs_start (bucketOf bm i) < bs_end (bucketOf bm i)" "bs_end (bucketOf bm i) \<le> nbClauseInDistrib (cb_inConstruction bm)"
    using R(4,5) [OF u] by (simp_all add: bucketOf_def k)
qed

lemma bucketOf_same:
  assumes r: "refine_ok m sig bm" and i: "i \<in> set (cb_mustUnMark bm)" "j \<in> set (cb_mustUnMark bm)"
    and x: "x \<in> {bs_start (bucketOf bm i) ..< bs_end (bucketOf bm i)}" "x \<in> {bs_start (bucketOf bm j) ..< bs_end (bucketOf bm j)}"
  shows "cb_markIdx bm ! i = cb_markIdx bm ! j \<and> sig i = sig j"
proof -
  note I = bucketOf_interval [OF r i(1)] and J = bucketOf_interval [OF r i(2)]
  obtain k where k: "cb_markIdx bm ! i = Some k" "k \<in> used bm" "interval bm k = {bs_start (bucketOf bm i) ..< bs_end (bucketOf bm i)}"
    using I(3) by blast
  obtain k' where k': "cb_markIdx bm ! j = Some k'" "k' \<in> used bm" "interval bm k' = {bs_start (bucketOf bm j) ..< bs_end (bucketOf bm j)}"
    using J(3) by blast
  have "k = k'" using refine_okD(6) [OF r k(2) k'(2)] x unfolding k(3) [symmetric] k'(3) [symmetric] by blast
  then show ?thesis using refine_okD(3) [OF r I(1) J(1) I(2) J(2)] k(1) k'(1) by simp
qed

definition unmark_inv :: "nat \<Rightarrow> (nat \<Rightarrow> lit set) \<Rightarrow> bucketManagerCl \<Rightarrow> nat list \<Rightarrow> bucketManagerCl \<Rightarrow> bool" where
  "unmark_inv m sig bm P bm' \<longleftrightarrow> length (cb_markIdx bm') = m \<and> length (cb_vec bm') = length (cb_vec bm)
     \<and> (\<forall>i<m. cb_markIdx bm' ! i = (if i \<in> set P then None else cb_markIdx bm ! i))
     \<and> (\<forall>k<length (cb_vec bm). bs_start (cb_vec bm' ! k) = bs_start (cb_vec bm ! k)
          \<and> bs_end (cb_vec bm' ! k) = (if \<exists>i\<in>set P. cb_markIdx bm ! i = Some k then bs_start (cb_vec bm ! k) + 1 else bs_end (cb_vec bm ! k)))
     \<and> (\<exists>szs red. cb_inConstruction bm' = (cb_inConstruction bm)\<lparr>shiftedSizeClause := szs, markedAsRedundant := red\<rparr>
          \<and> length szs = m \<and> length red = m
          \<and> (\<forall>i\<in>set P. szs ! bs_start (bucketOf bm i) = card (sig i))
          \<and> (\<forall>j<m. red ! j \<longleftrightarrow> (\<exists>i\<in>set P. bs_start (bucketOf bm i) < j \<and> j < bs_end (bucketOf bm i))))
     \<and> bm_modeStore bm' = bm_modeStore bm \<and> bm_bucketAllocator bm' = bm_bucketAllocator bm
     \<and> cb_mapVar bm' = cb_mapVar bm \<and> cb_unusedBucket bm' = cb_unusedBucket bm"

lemma foldl_set_True:
  "length (foldl (\<lambda>r j. r[j := True]) red js) = length red"
  "j < length red \<Longrightarrow> foldl (\<lambda>r j. r[j := True]) red js ! j \<longleftrightarrow> red ! j \<or> j \<in> set js"
proof -
  show l: "length (foldl (\<lambda>r j. r[j := True]) red js) = length red" for js
    by (induction js rule: rev_induct) simp_all
  show "j < length red \<Longrightarrow> foldl (\<lambda>r j. r[j := True]) red js ! j \<longleftrightarrow> red ! j \<or> j \<in> set js"
    by (induction js rule: rev_induct) (auto simp: nth_update_any l)
qed

lemma unmark_step:
  assumes r: "refine_ok m sig bm" and inv: "unmark_inv m sig bm P bm'" and P: "set P \<subseteq> set (cb_mustUnMark bm)"
    and i: "i \<in> set (cb_mustUnMark bm)" "i \<notin> set P"
    and szc: "sizeClauses (cb_inConstruction bm) ! i = card (sig i)" and nb: "nbClauseInDistrib (cb_inConstruction bm) \<le> m"
  shows "unmark_inv m sig bm (P @ [i]) (unmarkClause bm' i)"
proof -
  note I = inv [unfolded unmark_inv_def] and B = bucketOf_interval [OF r i(1)]
  obtain k where k: "cb_markIdx bm ! i = Some k" "k < length (cb_vec bm)" "bucketOf bm i = cb_vec bm ! k" using B(3) by blast
  obtain szs red where ic: "cb_inConstruction bm' = (cb_inConstruction bm)\<lparr>shiftedSizeClause := szs, markedAsRedundant := red\<rparr>"
    "length szs = m" "length red = m" "\<forall>i\<in>set P. szs ! bs_start (bucketOf bm i) = card (sig i)"
    "\<forall>j<m. red ! j \<longleftrightarrow> (\<exists>i\<in>set P. bs_start (bucketOf bm i) < j \<and> j < bs_end (bucketOf bm i))" using I by blast
  define s e where "s = bs_start (cb_vec bm ! k)" and "e = bs_end (cb_vec bm ! k)"
  have se: "s < e" "e \<le> m" using B(4,5) nb by (simp_all add: k(3) s_def e_def)
  have mk: "cb_markIdx bm' ! i = Some k" using I B(1) i(2) k(1) by simp
  have b: "bs_start (cb_vec bm' ! k) = s" "bs_end (cb_vec bm' ! k) = (if \<exists>j\<in>set P. cb_markIdx bm ! j = Some k then s + 1 else e)"
    using I k(2) by (simp_all add: s_def e_def)
  define e' where "e' = bs_end (cb_vec bm' ! k)"
  define js where "js = (if e' \<noteq> s + 1 then [s + 1 ..< e'] else [])"
  have js: "set js = {s + 1 ..< e'}" by (auto simp: js_def)
  define red' where "red' = foldl (\<lambda>r j. r[j := True]) red js"
  have u: "unmarkClause bm' i = bm'\<lparr>cb_markIdx := (cb_markIdx bm')[i := None],
      cb_vec := (cb_vec bm')[k := (cb_vec bm' ! k)\<lparr>bs_end := (if e' \<noteq> s + 1 then s + 1 else e')\<rparr>],
      cb_inConstruction := (cb_inConstruction bm)\<lparr>shiftedSizeClause := szs[s := card (sig i)], markedAsRedundant := red'\<rparr>\<rparr>"
    by (simp add: unmarkClause_def Let_def mk b(1) updIC_def ic(1) szc e'_def [symmetric] js_def red'_def)
  have szs: "\<forall>j\<in>set (P @ [i]). szs[s := card (sig i)] ! bs_start (bucketOf bm j) = card (sig j)"
  proof
    fix j assume j: "j \<in> set (P @ [i])"
    have jm: "j \<in> set (cb_mustUnMark bm)" using j P i(1) by auto
    show "szs[s := card (sig i)] ! bs_start (bucketOf bm j) = card (sig j)"
    proof (cases "bs_start (bucketOf bm j) = s")
      case True
      have "sig i = sig j"
        using bucketOf_same [OF r i(1) jm, of s] se B(4) bucketOf_interval(4) [OF r jm] True by (simp add: k(3) s_def)
      then show ?thesis using True se ic(2) by simp
    next
      case False
      then have "j \<noteq> i" by (auto simp: k(3) s_def)
      then show ?thesis using False j ic(4) by auto
    qed
  qed
  have red: "red' ! j \<longleftrightarrow> (\<exists>i\<in>set (P @ [i]). bs_start (bucketOf bm i) < j \<and> j < bs_end (bucketOf bm i))" if j: "j < m" for j
  proof -
    have "red' ! j \<longleftrightarrow> red ! j \<or> s < j \<and> j < e'"
      using foldl_set_True(2) [of j red js] j ic(3) js by (auto simp: red'_def)
    moreover have "bs_start (bucketOf bm i) < j \<and> j < bs_end (bucketOf bm i) \<longleftrightarrow> s < j \<and> j < e" by (simp add: k(3) s_def e_def)
    moreover have "red ! j" if w: "s < j" "j < e" "e' \<noteq> e"
    proof -
      obtain i' where i': "i' \<in> set P" "cb_markIdx bm ! i' = Some k" using w(3) b(2) by (auto simp: e'_def split: if_splits)
      then have "bucketOf bm i' = cb_vec bm ! k" by (simp add: bucketOf_def)
      then show ?thesis using ic(5) j i'(1) w(1,2) by (auto simp: s_def e_def intro!: bexI [of _ i'])
    qed
    moreover have "e' \<le> e" using b(2) se by (simp add: e'_def)
    ultimately show ?thesis using ic(5) j by auto
  qed
  have "\<forall>q<length (cb_vec bm). bs_start ((cb_vec bm')[k := (cb_vec bm' ! k)\<lparr>bs_end := (if e' \<noteq> s + 1 then s + 1 else e')\<rparr>] ! q) = bs_start (cb_vec bm ! q)
          \<and> bs_end ((cb_vec bm')[k := (cb_vec bm' ! k)\<lparr>bs_end := (if e' \<noteq> s + 1 then s + 1 else e')\<rparr>] ! q)
            = (if \<exists>i\<in>set (P @ [i]). cb_markIdx bm ! i = Some q then bs_start (cb_vec bm ! q) + 1 else bs_end (cb_vec bm ! q))"
    using I k(1,2) b(1) by (auto simp: nth_list_update s_def)
  moreover have "\<forall>j<m. (cb_markIdx bm')[i := None] ! j = (if j \<in> set (P @ [i]) then None else cb_markIdx bm ! j)"
    using I B(1) by (auto simp: nth_list_update)
  moreover have "\<exists>szs' red''. (cb_inConstruction bm)\<lparr>shiftedSizeClause := szs[s := card (sig i)], markedAsRedundant := red'\<rparr>
        = (cb_inConstruction bm)\<lparr>shiftedSizeClause := szs', markedAsRedundant := red''\<rparr>
      \<and> length szs' = m \<and> length red'' = m \<and> (\<forall>i\<in>set (P @ [i]). szs' ! bs_start (bucketOf bm i) = card (sig i))
      \<and> (\<forall>j<m. red'' ! j \<longleftrightarrow> (\<exists>i\<in>set (P @ [i]). bs_start (bucketOf bm i) < j \<and> j < bs_end (bucketOf bm i)))"
    using szs red ic(2,3) foldl_set_True(1) [of red js] unfolding red'_def [symmetric]
    by (intro exI [of _ "szs[s := card (sig i)]"] exI [of _ red'] conjI) (simp_all del: set_append)
  ultimately show ?thesis unfolding unmark_inv_def u using I by simp
qed

lemma unmark_all:
  assumes r: "refine_ok m sig bm" and len: "length (shiftedSizeClause (cb_inConstruction bm)) = m"
    and red: "markedAsRedundant (cb_inConstruction bm) = replicate m False"
  shows "unmark_inv m sig bm (cb_mustUnMark bm) (foldl unmarkClause bm (cb_mustUnMark bm))"
proof -
  note R = refine_okD [OF r]
  have "set (cb_mustUnMark bm) \<subseteq> {..<m}" using R(9) by auto
  then have nb: "nbClauseInDistrib (cb_inConstruction bm) \<le> m"
    unfolding R(10) using distinct_card [OF R(8)] card_mono [of "{..<m}" "set (cb_mustUnMark bm)"] by simp
  have "unmark_inv m sig bm P (foldl unmarkClause bm P)" if "distinct P" "set P \<subseteq> set (cb_mustUnMark bm)" for P
    using that
  proof (induction P rule: rev_induct)
    case Nil
    show ?case unfolding unmark_inv_def using R(1) len red
      by (auto simp: marks_ok_def intro!: exI [of _ "shiftedSizeClause (cb_inConstruction bm)"] exI [of _ "replicate m False"])
  next
    case (snoc i P)
    have i: "i \<in> set (cb_mustUnMark bm)" "i \<notin> set P" "set P \<subseteq> set (cb_mustUnMark bm)" using snoc.prems by auto
    have "sizeClauses (cb_inConstruction bm) ! i = card (sig i)" using R(9,11) i(1) by blast
    then show ?case using unmark_step [OF r _ i(3,1,2) _ nb] snoc by simp
  qed
  then show ?thesis using R(8) by simp
qed

lemma finite_used: "marks_ok m bm \<Longrightarrow> finite (used bm)"
proof -
  assume "marks_ok m bm"
  then have "used bm \<subseteq> {..<length (cb_vec bm)}" by (auto simp: used_def marks_ok_def in_set_conv_nth)
  then show ?thesis by (rule finite_subset) simp
qed

text \<open>The intervals cover all positions.\<close>

lemma covered:
  assumes r: "refine_ok m sig bm" and j: "j < nbClauseInDistrib (cb_inConstruction bm)"
  shows "\<exists>i\<in>set (cb_mustUnMark bm). j \<in> {bs_start (bucketOf bm i) ..< bs_end (bucketOf bm i)}"
proof -
  note R = refine_okD [OF r]
  let ?M = "\<lambda>k. {i. i < m \<and> cb_markIdx bm ! i = Some k}"
  have fin: "finite (used bm)" by (rule finite_used [OF R(1)])
  have "(\<Sum>k\<in>used bm. card (interval bm k)) = (\<Sum>k\<in>used bm. card (?M k))"
    by (rule sum.cong [OF refl]) (simp add: interval_def R(4) [symmetric])
  also have "\<dots> = card (\<Union>k\<in>used bm. ?M k)"
    by (rule card_UN_disjoint [symmetric]) (use fin in auto)
  also have "(\<Union>k\<in>used bm. ?M k) = set (cb_mustUnMark bm)"
    using R(2,9) marks_used [OF R(1)] by fastforce
  also have "card (set (cb_mustUnMark bm)) = nbClauseInDistrib (cb_inConstruction bm)"
    using distinct_card [OF R(8)] R(10) by simp
  finally have "card (\<Union>k\<in>used bm. interval bm k) = card {..<nbClauseInDistrib (cb_inConstruction bm)}"
    using card_UN_disjoint [OF fin, of "interval bm"] R(6) by (simp add: interval_def)
  moreover have "(\<Union>k\<in>used bm. interval bm k) \<subseteq> {..<nbClauseInDistrib (cb_inConstruction bm)}"
    using R(5) by (fastforce simp: interval_def)
  ultimately have "(\<Union>k\<in>used bm. interval bm k) = {..<nbClauseInDistrib (cb_inConstruction bm)}"
    by (intro card_subset_eq) simp_all
  then obtain k where k: "k \<in> used bm" "j \<in> interval bm k" using j by blast
  then obtain i where i: "i < m" "cb_markIdx bm ! i = Some k" using used_iff [OF R(1)] by blast
  then have "i \<in> set (cb_mustUnMark bm)" using R(2) [OF i(1)] R(9) by auto
  then show ?thesis using k(2) i(2) by (intro bexI [of _ i]) (simp_all add: interval_def bucketOf_def)
qed

section \<open>Renumbering\<close>

definition keptPos :: "bool list \<Rightarrow> nat \<Rightarrow> nat list" where
  "keptPos red a = filter (\<lambda>j. \<not> red ! j) [0 ..< a]"

lemma keptPos_Suc: "keptPos red (Suc a) = keptPos red a @ (if red ! a then [] else [a])"
  by (simp add: keptPos_def)

lemma keptPos_less: "length (keptPos red a) \<le> a"
  using length_filter_le [of "\<lambda>j. \<not> red ! j" "[0 ..< a]"] by (simp add: keptPos_def)

definition shift_inv :: "nat \<Rightarrow> BucketInConstruction \<Rightarrow> nat \<Rightarrow> nat \<times> BucketInConstruction \<Rightarrow> bool" where
  "shift_inv m ic a st \<longleftrightarrow> (let (index, ic') = st; red = markedAsRedundant ic; szs = shiftedSizeClause ic
     in index = length (keptPos red a)
      \<and> (\<exists>dd szs' sidx red'. ic' = ic\<lparr>distribDiffSize := dd, shiftedSizeClause := szs', shiftedIndexClause := sidx, markedAsRedundant := red'\<rparr>
        \<and> length dd = length (distribDiffSize ic) \<and> length szs' = m \<and> length sidx = m \<and> length red' = m
        \<and> (\<forall>s<length dd. dd ! s = distribDiffSize ic ! s + length (filter (\<lambda>j. szs ! j = s) (keptPos red a)))
        \<and> (\<forall>t<index. szs' ! t = szs ! (keptPos red a ! t)) \<and> (\<forall>j<m. a \<le> j \<longrightarrow> szs' ! j = szs ! j \<and> red' ! j = red ! j)
        \<and> (\<forall>j<a. sidx ! j = (if red ! j then length (distrib ic) else length (keptPos red j)) \<and> \<not> red' ! j)))"

lemma shift_step:
  assumes inv: "shift_inv m ic a st" and a: "a < m"
  shows "shift_inv m ic (Suc a) (shiftClause st a)"
proof -
  obtain index ic' where st: "st = (index, ic')" by fastforce
  let ?red = "markedAsRedundant ic" and ?szs = "shiftedSizeClause ic"
  obtain dd szs' sidx red' where I: "index = length (keptPos ?red a)"
    "ic' = ic\<lparr>distribDiffSize := dd, shiftedSizeClause := szs', shiftedIndexClause := sidx, markedAsRedundant := red'\<rparr>"
    "length dd = length (distribDiffSize ic)" "length szs' = m" "length sidx = m" "length red' = m"
    "\<forall>s<length dd. dd ! s = distribDiffSize ic ! s + length (filter (\<lambda>j. ?szs ! j = s) (keptPos ?red a))"
    "\<forall>t<index. szs' ! t = ?szs ! (keptPos ?red a ! t)" "\<forall>j<m. a \<le> j \<longrightarrow> szs' ! j = ?szs ! j \<and> red' ! j = ?red ! j"
    "\<forall>j<a. sidx ! j = (if ?red ! j then length (distrib ic) else length (keptPos ?red j)) \<and> \<not> red' ! j"
    using inv unfolding shift_inv_def st Let_def prod.case by blast
  have le: "index \<le> a" using I(1) keptPos_less by simp
  show ?thesis
  proof (cases "?red ! a")
    case True
    then have e: "shiftClause st a = (index, ic\<lparr>distribDiffSize := dd, shiftedSizeClause := szs',
        shiftedIndexClause := sidx[a := length (distrib ic)], markedAsRedundant := red'[a := False]\<rparr>)"
      using I(2,9) a by (simp add: shiftClause_def st)
    have k: "keptPos ?red (Suc a) = keptPos ?red a" using True by (simp add: keptPos_Suc)
    have 1: "\<forall>j<m. Suc a \<le> j \<longrightarrow> szs' ! j = ?szs ! j \<and> red'[a := False] ! j = ?red ! j"
      using I(9) by simp
    have 2: "\<forall>j<Suc a. sidx[a := length (distrib ic)] ! j = (if ?red ! j then length (distrib ic) else length (keptPos ?red j)) \<and> \<not> red'[a := False] ! j"
      using I(10) True a by (simp add: nth_list_update I(5,6) less_Suc_eq)
    show ?thesis unfolding shift_inv_def e Let_def prod.case k
      using I(1,3-8) 1 2
      by (intro conjI exI [of _ dd] exI [of _ szs'] exI [of _ "sidx[a := length (distrib ic)]"] exI [of _ "red'[a := False]"])
        (simp_all only: length_list_update)
  next
    case False
    have s: "szs' ! a = ?szs ! a" "red' ! a = ?red ! a" using I(9) a by simp_all
    have e: "shiftClause st a = (index + 1, ic\<lparr>distribDiffSize := dd[?szs ! a := dd ! (?szs ! a) + 1], shiftedSizeClause := szs'[index := ?szs ! a],
        shiftedIndexClause := sidx[a := index], markedAsRedundant := red'[a := False]\<rparr>)"
      using I(2) False s by (simp add: shiftClause_def st Let_def)
    have k: "keptPos ?red (Suc a) = keptPos ?red a @ [a]" using False by (simp add: keptPos_Suc)
    let ?dd = "dd[?szs ! a := dd ! (?szs ! a) + 1]"
    have 0: "\<forall>s<length ?dd. ?dd ! s = distribDiffSize ic ! s + length (filter (\<lambda>j. ?szs ! j = s) (keptPos ?red a @ [a]))"
      using I(7) by (simp add: nth_list_update)
    have 1: "\<forall>j<m. Suc a \<le> j \<longrightarrow> szs'[index := ?szs ! a] ! j = ?szs ! j \<and> red'[a := False] ! j = ?red ! j"
      using I(9) le by simp
    have 2: "\<forall>j<Suc a. sidx[a := index] ! j = (if ?red ! j then length (distrib ic) else length (keptPos ?red j)) \<and> \<not> red'[a := False] ! j"
      using I(10) False a by (simp add: nth_list_update I(1,5,6) less_Suc_eq)
    have 3: "\<forall>t<index + 1. szs'[index := ?szs ! a] ! t = ?szs ! ((keptPos ?red a @ [a]) ! t)"
      using I(8) le a by (simp add: nth_list_update I(1,4) nth_append less_Suc_eq)
    have 4: "index + 1 = length (keptPos ?red a @ [a])" by (simp add: I(1))
    show ?thesis unfolding shift_inv_def e Let_def prod.case k
      using I(3-6) 0 1 2 3 4
      by (intro conjI exI [of _ ?dd] exI [of _ "szs'[index := ?szs ! a]"]
          exI [of _ "sidx[a := index]"] exI [of _ "red'[a := False]"])
        (simp_all only: length_list_update)
  qed
qed

lemma shift_all:
  assumes "length (shiftedSizeClause ic) = m" "length (shiftedIndexClause ic) = m" "length (markedAsRedundant ic) = m" "a \<le> m"
  shows "shift_inv m ic a (foldl shiftClause (0, ic) [0 ..< a])"
  using assms(4)
proof (induction a)
  case 0
  show ?case unfolding shift_inv_def Let_def prod.case foldl.simps upt_0 keptPos_def using assms
    by (intro conjI exI [of _ "distribDiffSize ic"] exI [of _ "shiftedSizeClause ic"]
        exI [of _ "shiftedIndexClause ic"] exI [of _ "markedAsRedundant ic"]) simp_all
next
  case (Suc a)
  then show ?case using shift_step [of m ic a] by simp
qed

lemma keptPos_rank: "t < length (keptPos red a) \<Longrightarrow> length (keptPos red (keptPos red a ! t)) = t"
  by (induction a) (auto simp: keptPos_Suc nth_append less_Suc_eq keptPos_def split: if_splits)

lemma keptPos_set: "set (keptPos red a) = {j. j < a \<and> \<not> red ! j}"
  by (auto simp: keptPos_def)

lemma keptPos_split:
  assumes "j < a" "\<not> red ! j"
  shows "\<exists>zs. keptPos red a = keptPos red j @ j # zs"
proof -
  have "[0 ..< a] = [0 ..< j] @ j # [Suc j ..< a]"
    using upt_add_eq_append [of 0 j "a - j"] upt_conv_Cons [OF assms(1)] assms(1) by simp
  then show ?thesis using assms(2) by (simp add: keptPos_def)
qed

lemma keptPos_rank_less: "j < a \<Longrightarrow> \<not> red ! j \<Longrightarrow> length (keptPos red j) < length (keptPos red a)"
  using keptPos_split [of j a red] by auto

lemma keptPos_nth_rank: "j < a \<Longrightarrow> \<not> red ! j \<Longrightarrow> keptPos red a ! length (keptPos red j) = j"
  using keptPos_split [of j a red] by (auto simp: nth_append)

section \<open>The result of the distribution\<close>

definition collected :: "lit list \<Rightarrow> lit set set \<Rightarrow> BucketInConstruction \<Rightarrow> lit set list \<Rightarrow> bool" where
  "collected es sigs ic Ss \<longleftrightarrow> nbClauseInDistrib ic = length Ss \<and> distinct Ss \<and> set Ss = sigs
     \<and> (\<forall>t<length Ss. shiftedSizeClause ic ! t = card (Ss ! t)) \<and> length Ss \<le> length (shiftedSizeClause ic)
     \<and> (\<forall>s<length (distribDiffSize ic). distribDiffSize ic ! s = length (filter (\<lambda>S. card S = s) Ss))
     \<and> (\<exists>D. distrib ic = concat (map distEntry D) \<and> map fst D = es
          \<and> (\<forall>e\<in>set D. filter (\<lambda>t. t < length Ss) (map (\<lambda>j. shiftedIndexClause ic ! j) (snd e))
               = filter (\<lambda>t. fst e \<in> Ss ! t) [0 ..< length Ss]))"

text \<open>The clause at the start of a bucket.\<close>

definition clauseAt :: "bucketManagerCl \<Rightarrow> nat \<Rightarrow> nat" where
  "clauseAt bm j = (SOME i. i \<in> set (cb_mustUnMark bm) \<and> bs_start (bucketOf bm i) = j)"

definition laterCopy :: "bucketManagerCl \<Rightarrow> nat \<Rightarrow> bool" where
  "laterCopy bm j \<longleftrightarrow> (\<exists>i\<in>set (cb_mustUnMark bm). bs_start (bucketOf bm i) < j \<and> j < bs_end (bucketOf bm i))"

lemma clauseAt_ok:
  assumes r: "refine_ok m sig bm" and j: "j < nbClauseInDistrib (cb_inConstruction bm)" "\<not> laterCopy bm j"
  shows "clauseAt bm j \<in> set (cb_mustUnMark bm) \<and> bs_start (bucketOf bm (clauseAt bm j)) = j"
proof -
  obtain i where i: "i \<in> set (cb_mustUnMark bm)" "j \<in> {bs_start (bucketOf bm i) ..< bs_end (bucketOf bm i)}"
    using covered [OF r j(1)] by blast
  then have "bs_start (bucketOf bm i) = j" using j(2) by (auto simp: laterCopy_def)
  with i(1) show ?thesis unfolding clauseAt_def by (rule_tac someI [of _ i]) simp
qed

lemma clauseAt_start:
  assumes r: "refine_ok m sig bm" and i: "i \<in> set (cb_mustUnMark bm)"
  defines "j \<equiv> bs_start (bucketOf bm i)"
  shows "j < nbClauseInDistrib (cb_inConstruction bm)" "\<not> laterCopy bm j" "sig (clauseAt bm j) = sig i"
proof -
  note B = bucketOf_interval [OF r i]
  show 1: "j < nbClauseInDistrib (cb_inConstruction bm)" using B(4,5) by (simp add: j_def)
  show 2: "\<not> laterCopy bm j"
  proof
    assume "laterCopy bm j"
    then obtain i' where i': "i' \<in> set (cb_mustUnMark bm)" "bs_start (bucketOf bm i') < j" "j < bs_end (bucketOf bm i')"
      by (auto simp: laterCopy_def)
    then have "cb_markIdx bm ! i = cb_markIdx bm ! i'"
      using bucketOf_same [OF r i i'(1), of j] B(4) by (simp add: j_def)
    then show False using i'(2) by (simp add: j_def bucketOf_def)
  qed
  from clauseAt_ok [OF r 1 2] show "sig (clauseAt bm j) = sig i"
    using bucketOf_same [OF r i, of "clauseAt bm j" j] B(4) bucketOf_interval(4) [OF r, of "clauseAt bm j"] by (simp add: j_def)
qed

lemma length_distEntries: "length (concat (map snd D)) \<le> length (concat (map distEntry D))"
  by (induction D) (simp_all add: distEntry_def)

lemma entry_positions:
  assumes r: "refine_ok m sig bm" and e: "entry_fits m sig bm e"
    and red: "\<forall>j<nbClauseInDistrib (cb_inConstruction bm). red ! j \<longleftrightarrow> laterCopy bm j"
    and sidx: "\<forall>j<nbClauseInDistrib (cb_inConstruction bm). sidx ! j = (if red ! j then big else length (keptPos red j))"
  defines "reps \<equiv> keptPos red (nbClauseInDistrib (cb_inConstruction bm))"
  assumes big: "length reps \<le> big"
  shows "filter (\<lambda>t. t < length reps) (map (\<lambda>j. sidx ! j) (snd e))
    = filter (\<lambda>t. fst e \<in> sig (clauseAt bm (reps ! t))) [0 ..< length reps]"
proof -
  let ?nb = "nbClauseInDistrib (cb_inConstruction bm)" and ?rank = "\<lambda>j. length (keptPos red j)"
  have E: "sorted (snd e)" "distinct (snd e)" "set (snd e) \<subseteq> {..< ?nb}"
    "\<And>i k. i < m \<Longrightarrow> cb_markIdx bm ! i = Some k \<Longrightarrow>
       (if fst e \<in> sig i then interval bm k \<subseteq> set (snd e) else interval bm k \<inter> set (snd e) = {})"
    using e unfolding entry_fits_def by blast+
  have lhs: "filter (\<lambda>t. t < length reps) (map (\<lambda>j. sidx ! j) ps) = map ?rank (filter (\<lambda>j. \<not> red ! j) ps)"
    if "set ps \<subseteq> {..< ?nb}" for ps
    using that sidx big keptPos_rank_less [of _ ?nb red] by (induction ps) (auto simp: reps_def)
  have mono: "?rank j < ?rank j'" if "j < j'" "\<not> red ! j" for j j' using keptPos_rank_less that by blast
  have inj: "inj_on ?rank {j. \<not> red ! j}"
    by (rule inj_onI) (metis mono linorder_neqE_nat less_irrefl mem_Collect_eq)
  have "sorted (map ?rank (filter (\<lambda>j. \<not> red ! j) (snd e)))"
    using E(1)
  proof (induction "snd e" arbitrary: e)
    case Nil
    then show ?case by (metis filter.simps(1) list.simps(8) sorted0)
  next
    case (Cons j ps)
    have s: "sorted ps" "\<forall>x\<in>set ps. j \<le> x" using Cons.hyps(2) Cons.prems by (metis sorted_simps(2))+
    have IH: "sorted (map ?rank (filter (\<lambda>j. \<not> red ! j) ps))" using Cons.hyps(1) [of "(undefined, ps)"] s(1) by simp
    have "\<not> red ! j \<Longrightarrow> x \<in> set ps \<Longrightarrow> ?rank j \<le> ?rank x" for x using s(2) mono [of j x] by (cases "j = x") force+
    then show ?case using IH unfolding Cons.hyps(2) [symmetric] by auto
  qed
  moreover have "distinct (map ?rank (filter (\<lambda>j. \<not> red ! j) (snd e)))"
    using E(2) inj by (auto simp: distinct_map intro: inj_on_subset)
  moreover have "set (map ?rank (filter (\<lambda>j. \<not> red ! j) (snd e))) = set (filter (\<lambda>t. fst e \<in> sig (clauseAt bm (reps ! t))) [0 ..< length reps])"
  proof -
    have in_ps: "j \<in> set (snd e) \<longleftrightarrow> fst e \<in> sig (clauseAt bm j)" if j: "j < ?nb" "\<not> red ! j" for j
    proof -
      have c: "clauseAt bm j \<in> set (cb_mustUnMark bm)" "bs_start (bucketOf bm (clauseAt bm j)) = j"
        using clauseAt_ok [OF r j(1)] red j by auto
      note B = bucketOf_interval [OF r c(1)]
      obtain k where "cb_markIdx bm ! clauseAt bm j = Some k" "j \<in> interval bm k" using B(3,4) c(2) by auto
      then show ?thesis using E(4) [OF B(1)] by (auto split: if_splits)
    qed
    show ?thesis
    proof (intro equalityI subsetI)
      fix t assume "t \<in> set (map ?rank (filter (\<lambda>j. \<not> red ! j) (snd e)))"
      then obtain j where j: "j \<in> set (snd e)" "\<not> red ! j" "t = ?rank j" by auto
      then show "t \<in> set (filter (\<lambda>t. fst e \<in> sig (clauseAt bm (reps ! t))) [0 ..< length reps])"
        using in_ps [of j] E(3) keptPos_rank_less [of j ?nb red] keptPos_nth_rank [of j ?nb red] by (auto simp: reps_def)
    next
      fix t assume "t \<in> set (filter (\<lambda>t. fst e \<in> sig (clauseAt bm (reps ! t))) [0 ..< length reps])"
      then have t: "t < length reps" "fst e \<in> sig (clauseAt bm (reps ! t))" by auto
      then have "reps ! t < ?nb" "\<not> red ! (reps ! t)" using keptPos_set [of red ?nb] nth_mem unfolding reps_def by blast+
      then show "t \<in> set (map ?rank (filter (\<lambda>j. \<not> red ! j) (snd e)))"
        using in_ps t keptPos_rank [of t red ?nb] by (force simp: reps_def image_iff)
    qed
  qed
  ultimately have "map ?rank (filter (\<lambda>j. \<not> red ! j) (snd e)) = filter (\<lambda>t. fst e \<in> sig (clauseAt bm (reps ! t))) [0 ..< length reps]"
    by (intro sorted_distinct_set_unique) (simp_all add: sorted_wrt_filter)
  then show ?thesis using lhs [OF E(3)] by simp
qed

lemma renumber_collected:
  assumes r: "refine_ok m sig bm" and d: "dist_ok m sig bm D"
    and lits: "\<forall>i<m. sig i \<subseteq> set (map fst D)"
    and red: "\<forall>j<nb. red ! j \<longleftrightarrow> laterCopy bm j" and nb: "nb = nbClauseInDistrib (cb_inConstruction bm)"
    and reps: "reps = keptPos red nb" and Ss: "Ss = map (\<lambda>j. sig (clauseAt bm j)) reps"
    and szs: "\<forall>i\<in>set (cb_mustUnMark bm). szs ! bs_start (bucketOf bm i) = card (sig i)"
    and nbr: "nbClauseInDistrib ic = length reps" and ssz: "\<forall>t<length reps. shiftedSizeClause ic ! t = szs ! (reps ! t)"
    and slen: "length reps \<le> length (shiftedSizeClause ic)"
    and dd: "\<forall>s<length (distribDiffSize ic). distribDiffSize ic ! s = length (filter (\<lambda>j. szs ! j = s) reps)"
    and sidx: "\<forall>j<nb. shiftedIndexClause ic ! j = (if red ! j then length (distrib (cb_inConstruction bm)) else length (keptPos red j))"
    and dis: "distrib ic = distrib (cb_inConstruction bm)"
  shows "collected (map fst D) {sig i |i. i < m \<and> sig i \<noteq> {}} ic Ss"
proof -
  have rep: "clauseAt bm j \<in> set (cb_mustUnMark bm) \<and> bs_start (bucketOf bm (clauseAt bm j)) = j \<and> j < nb" if "j \<in> set reps" for j
    using clauseAt_ok [OF r, of j] that red unfolding reps nb keptPos_set by auto
  have size: "szs ! j = card (sig (clauseAt bm j))" if "j \<in> set reps" for j
    using rep [OF that] szs by metis
  have "distinct Ss"
    unfolding Ss distinct_map
  proof
    show "distinct reps" by (simp add: reps keptPos_def)
    show "inj_on (\<lambda>j. sig (clauseAt bm j)) (set reps)"
    proof (rule inj_onI)
      fix j j' assume j: "j \<in> set reps" "j' \<in> set reps" "sig (clauseAt bm j) = sig (clauseAt bm j')"
      note B = bucketOf_interval [OF r, of "clauseAt bm j"] and B' = bucketOf_interval [OF r, of "clauseAt bm j'"]
      have "cb_markIdx bm ! clauseAt bm j = cb_markIdx bm ! clauseAt bm j'"
        using refine_okD(3) [OF r B(1) B'(1) B(2) B'(2)] rep j by blast
      then have "bucketOf bm (clauseAt bm j) = bucketOf bm (clauseAt bm j')" by (simp add: bucketOf_def)
      then show "j = j'" using rep [OF j(1)] rep [OF j(2)] by metis
    qed
  qed
  moreover have "set Ss = {sig i |i. i < m \<and> sig i \<noteq> {}}"
  proof (intro equalityI subsetI)
    fix S assume "S \<in> set Ss"
    then obtain j where "j \<in> set reps" "S = sig (clauseAt bm j)" by (auto simp: Ss)
    then show "S \<in> {sig i |i. i < m \<and> sig i \<noteq> {}}" using rep [of j] bucketOf_interval(1,2) [OF r] by blast
  next
    fix S assume "S \<in> {sig i |i. i < m \<and> sig i \<noteq> {}}"
    then obtain i where i: "S = sig i" "i \<in> set (cb_mustUnMark bm)" using refine_okD(9) [OF r] by blast
    note A = clauseAt_start [OF r i(2)]
    have "bs_start (bucketOf bm i) \<in> set reps" using A(1,2) red by (simp add: reps keptPos_set nb)
    then show "S \<in> set Ss" using A(3) i(1) by (force simp: Ss)
  qed
  moreover have "\<forall>t<length Ss. shiftedSizeClause ic ! t = card (Ss ! t)"
    using ssz size by (simp add: Ss)
  moreover have "\<forall>s<length (distribDiffSize ic). distribDiffSize ic ! s = length (filter (\<lambda>S. card S = s) Ss)"
  proof (intro allI impI)
    fix s assume s: "s < length (distribDiffSize ic)"
    have "filter (\<lambda>j. szs ! j = s) reps = filter (\<lambda>j. card (sig (clauseAt bm j)) = s) reps"
      by (rule filter_cong [OF refl]) (simp add: size)
    then show "distribDiffSize ic ! s = length (filter (\<lambda>S. card S = s) Ss)"
      using dd s by (simp add: Ss filter_map comp_def)
  qed
  moreover have "\<forall>e\<in>set D. filter (\<lambda>t. t < length Ss) (map (\<lambda>j. shiftedIndexClause ic ! j) (snd e))
       = filter (\<lambda>t. fst e \<in> Ss ! t) [0 ..< length Ss]"
  proof
    fix e assume e: "e \<in> set D"
    have "set reps \<subseteq> set (concat (map snd D))"
    proof
      fix j assume j: "j \<in> set reps"
      let ?i = "clauseAt bm j"
      have i: "?i \<in> set (cb_mustUnMark bm)" "bs_start (bucketOf bm ?i) = j" using rep [OF j] by auto
      note B = bucketOf_interval [OF r i(1)]
      obtain k where k: "cb_markIdx bm ! ?i = Some k" "j \<in> interval bm k" using B(3,4) i(2) by auto
      obtain l where l: "l \<in> sig ?i" using B(2) by blast
      then obtain e' where e': "e' \<in> set D" "fst e' = l" using lits B(1) by fastforce
      have "if fst e' \<in> sig ?i then interval bm k \<subseteq> set (snd e') else interval bm k \<inter> set (snd e') = {}"
        using d e'(1) k(1) B(1) unfolding dist_ok_def entry_fits_def by blast
      then show "j \<in> set (concat (map snd D))" using l e' k(2) by auto
    qed
    have eq: "distrib (cb_inConstruction bm) = concat (map distEntry D)" using d by (simp add: dist_ok_def)
    from \<open>set reps \<subseteq> set (concat (map snd D))\<close> have le: "card (set reps) \<le> length (distrib (cb_inConstruction bm))"
      using card_mono [of "set (concat (map snd D))" "set reps"] card_length [of "concat (map snd D)"]
        length_distEntries [of D] eq by simp
    have "distinct reps" by (simp add: reps keptPos_def)
    then have big: "length reps \<le> length (distrib (cb_inConstruction bm))" using le distinct_card by metis
    have "entry_fits m sig bm e" using d e by (simp add: dist_ok_def)
    from entry_positions [OF r this red [unfolded nb] sidx [unfolded nb] big [unfolded reps nb]]
    have "filter (\<lambda>t. t < length reps) (map (\<lambda>j. shiftedIndexClause ic ! j) (snd e))
        = filter (\<lambda>t. fst e \<in> sig (clauseAt bm (reps ! t))) [0 ..< length reps]" unfolding reps nb .
    moreover have "filter (\<lambda>t. fst e \<in> sig (clauseAt bm (reps ! t))) [0 ..< length reps] = filter (\<lambda>t. fst e \<in> Ss ! t) [0 ..< length reps]"
      by (rule filter_cong) (simp_all add: Ss)
    ultimately show "filter (\<lambda>t. t < length Ss) (map (\<lambda>j. shiftedIndexClause ic ! j) (snd e))
       = filter (\<lambda>t. fst e \<in> Ss ! t) [0 ..< length Ss]" by (simp add: Ss)
  qed
  moreover have "distrib ic = concat (map distEntry D)" using dis d by (simp add: dist_ok_def)
  moreover have "nbClauseInDistrib ic = length Ss" "length Ss \<le> length (shiftedSizeClause ic)" using nbr slen by (simp_all add: Ss)
  ultimately show ?thesis unfolding collected_def by blast
qed

text \<open>The state between two entries.\<close>

definition bucket_ok :: "nat \<Rightarrow> bucketManagerCl \<Rightarrow> bool" where
  "bucket_ok m bm \<longleftrightarrow> cb_markIdx bm = replicate m None \<and> cb_mustUnMark bm = []
     \<and> (let ic = cb_inConstruction bm in length (sizeClauses ic) = m \<and> length (shiftedSizeClause ic) = m
       \<and> length (shiftedIndexClause ic) = m \<and> markedAsRedundant ic = replicate m False
       \<and> length (distribDiffSize ic) = maxSizeClause ic + 1)"

lemma bucket_ok_refine:
  assumes "bucket_ok m bm"
  shows "refine_ok m (\<lambda>_. {}) (initSortBucket bm)"
  using assms by (simp add: bucket_ok_def Let_def refine_ok_def marks_ok_def initSortBucket_def updIC_def bic_reinit_def used_def)


lemma collectDistrib_ok:
  assumes b: "bucket_ok m bm" and C: "distinct (litsOf f C)"
    and occ: "\<forall>l\<in>set (litsOf f C). distinct (keptOf f (bm_modeStore bm) l) \<and> (\<forall>i\<in>set (keptOf f (bm_modeStore bm) l). i < m)"
  defines "mode \<equiv> bm_modeStore bm" and "ls \<equiv> litsOf f C"
  defines "bm' \<equiv> collectDistrib f C (initSortBucket bm)"
  shows "\<exists>Ss. collected (keptEntries f mode ls) {sigma f mode ls i |i. i < m \<and> sigma f mode ls i \<noteq> {}} (cb_inConstruction bm') Ss"
    and "bucket_ok m bm'" and "bm_modeStore bm' = mode \<and> bm_bucketAllocator bm' = bm_bucketAllocator bm \<and> cb_mapVar bm' = cb_mapVar bm
      \<and> maxSizeClause (cb_inConstruction bm') = maxSizeClause (cb_inConstruction bm)"
proof -
  define bm0 where "bm0 = initSortBucket bm"
  define bm1 where "bm1 = foldl (\<lambda>bm l. createDistribWrTLit f l bm) bm0 ls"
  define bm2 where "bm2 = (foldl unmarkClause bm1 (cb_mustUnMark bm1))\<lparr>cb_mustUnMark := []\<rparr>"
  define nb where "nb = nbClauseInDistrib (cb_inConstruction bm1)"
  let ?sig = "sigma f mode ls" and ?ic1 = "cb_inConstruction bm1" and ?ic2 = "cb_inConstruction bm2"
  have bm0: "bm_modeStore bm0 = mode" "bm_bucketAllocator bm0 = bm_bucketAllocator bm" "cb_mapVar bm0 = cb_mapVar bm"
    "distrib (cb_inConstruction bm0) = []" "distribDiffSize (cb_inConstruction bm0) = replicate (maxSizeClause (cb_inConstruction bm) + 1) 0"
    "maxSizeClause (cb_inConstruction bm0) = maxSizeClause (cb_inConstruction bm)"
    "shiftedSizeClause (cb_inConstruction bm0) = shiftedSizeClause (cb_inConstruction bm)"
    "shiftedIndexClause (cb_inConstruction bm0) = shiftedIndexClause (cb_inConstruction bm)"
    "markedAsRedundant (cb_inConstruction bm0) = markedAsRedundant (cb_inConstruction bm)"
    by (simp_all add: bm0_def initSortBucket_def updIC_def bic_reinit_def mode_def)
  have len: "length (shiftedSizeClause (cb_inConstruction bm)) = m" "length (shiftedIndexClause (cb_inConstruction bm)) = m"
    "markedAsRedundant (cb_inConstruction bm) = replicate m False"
    using b by (simp_all add: bucket_ok_def Let_def)
  have r0: "refine_ok m (\<lambda>_. {}) bm0" unfolding bm0_def by (rule bucket_ok_refine [OF b])
  have all: "refine_ok m ?sig bm1 \<and> same_frame bm0 bm1 \<and> (\<exists>D. dist_ok m ?sig bm1 D \<and> map fst D = keptEntries f mode ls)"
    unfolding bm1_def using distribute_all [OF r0 bm0(4), of ls f] occ C unfolding bm0(1) ls_def mode_def by blast
  then obtain D where r1: "refine_ok m ?sig bm1" and fr: "same_frame bm0 bm1" and D: "dist_ok m ?sig bm1 D"
    "map fst D = keptEntries f mode ls" by blast
  have ic1: "distribDiffSize ?ic1 = replicate (maxSizeClause (cb_inConstruction bm) + 1) 0"
    "shiftedSizeClause ?ic1 = shiftedSizeClause (cb_inConstruction bm)" "shiftedIndexClause ?ic1 = shiftedIndexClause (cb_inConstruction bm)"
    "markedAsRedundant ?ic1 = replicate m False" "maxSizeClause ?ic1 = maxSizeClause (cb_inConstruction bm)"
    using fr len(3) by (simp_all add: same_frame_def Let_def bm0)
  have "length (shiftedSizeClause ?ic1) = m" using ic1(2) len(1) by simp
  from unmark_all [OF r1 this ic1(4)]
  have U: "unmark_inv m ?sig bm1 (cb_mustUnMark bm1) (foldl unmarkClause bm1 (cb_mustUnMark bm1))" .
  obtain szs red where ic2: "?ic2 = ?ic1\<lparr>shiftedSizeClause := szs, markedAsRedundant := red\<rparr>"
    "length szs = m" "length red = m" "\<forall>i\<in>set (cb_mustUnMark bm1). szs ! bs_start (bucketOf bm1 i) = card (?sig i)"
    "\<forall>j<m. red ! j \<longleftrightarrow> laterCopy bm1 j"
    using U unfolding unmark_inv_def laterCopy_def bm2_def by auto
  have fr2: "bm_modeStore bm2 = mode" "bm_bucketAllocator bm2 = bm_bucketAllocator bm" "cb_mapVar bm2 = cb_mapVar bm"
    using U fr unfolding unmark_inv_def by (simp_all add: bm2_def same_frame_def bm0)
  have mk: "cb_markIdx bm2 = replicate m None"
  proof (rule nth_equalityI)
    show l: "length (cb_markIdx bm2) = length (replicate m None)" using U by (simp add: bm2_def unmark_inv_def)
    fix i assume "i < length (cb_markIdx bm2)"
    then have i: "i < m" using l by simp
    then show "cb_markIdx bm2 ! i = replicate m None ! i"
      using U refine_okD(2,9) [OF r1] by (simp add: bm2_def unmark_inv_def)
  qed
  have "set (cb_mustUnMark bm1) \<subseteq> {..<m}" using refine_okD(9) [OF r1] by auto
  then have nbm: "nb \<le> m"
    unfolding nb_def refine_okD(10) [OF r1] using distinct_card [OF refine_okD(8) [OF r1]] card_mono [of "{..<m}" "set (cb_mustUnMark bm1)"] by simp
  obtain index ic3 where s3: "foldl shiftClause (0, ?ic2) [0 ..< nb] = (index, ic3)" by fastforce
  have S: "shift_inv m ?ic2 nb (index, ic3)"
    unfolding s3 [symmetric] by (rule shift_all) (use ic2(1-3) ic1(3) len(2) nbm in simp_all)
  then obtain dd szs' sidx red' where ic3: "index = length (keptPos red nb)"
    "ic3 = ?ic2\<lparr>distribDiffSize := dd, shiftedSizeClause := szs', shiftedIndexClause := sidx, markedAsRedundant := red'\<rparr>"
    "length dd = length (distribDiffSize ?ic2)" "length szs' = m" "length sidx = m" "length red' = m"
    "\<forall>s<length dd. dd ! s = distribDiffSize ?ic2 ! s + length (filter (\<lambda>j. szs ! j = s) (keptPos red nb))"
    "\<forall>t<index. szs' ! t = szs ! (keptPos red nb ! t)" "\<forall>j<m. nb \<le> j \<longrightarrow> szs' ! j = szs ! j \<and> red' ! j = red ! j"
    "\<forall>j<nb. sidx ! j = (if red ! j then length (distrib ?ic2) else length (keptPos red j)) \<and> \<not> red' ! j"
    unfolding shift_inv_def Let_def prod.case by (auto simp: ic2(1))
  have bm1_eq: "bm1 = foldl (distribVar f) (initSortBucket bm) C" by (simp add: bm1_def bm0_def foldl_distribVar ls_def)
  have nb2: "nbClauseInDistrib ?ic2 = nb" by (simp add: ic2(1) nb_def)
  have bm': "bm' = bm2\<lparr>cb_inConstruction := ic3\<lparr>nbClauseInDistrib := index\<rparr>\<rparr>"
    unfolding bm'_def collectDistrib_def Let_def bm1_eq [symmetric] bm2_def [symmetric] nb2 s3 prod.case by (rule refl)
  let ?ic = "cb_inConstruction bm'"
  have ic: "nbClauseInDistrib ?ic = index" "shiftedSizeClause ?ic = szs'" "shiftedIndexClause ?ic = sidx" "distribDiffSize ?ic = dd"
    "markedAsRedundant ?ic = red'" "distrib ?ic = distrib ?ic1" "maxSizeClause ?ic = maxSizeClause (cb_inConstruction bm)"
    "sizeClauses ?ic = sizeClauses ?ic1"
    by (simp_all add: bm' ic3(2) ic2(1) ic1(5))
  have dd0: "s < length dd \<Longrightarrow> distribDiffSize ?ic2 ! s = 0" for s
    using ic3(3) by (simp add: ic2(1) ic1(1) del: replicate_Suc)
  have lits: "\<forall>i<m. ?sig i \<subseteq> set (map fst D)"
    by (auto simp: D(2) sigma_def keptEntries_def)
  have red: "\<forall>j<nb. red ! j \<longleftrightarrow> laterCopy bm1 j" using ic2(5) nbm by simp
  have le: "length (keptPos red nb) \<le> m" using keptPos_less [of red nb] nbm by simp
  have "collected (map fst D) {?sig i |i. i < m \<and> ?sig i \<noteq> {}} ?ic (map (\<lambda>j. ?sig (clauseAt bm1 j)) (keptPos red nb))"
    by (rule renumber_collected [OF r1 D(1) lits red nb_def refl refl ic2(4)])
      (use ic3(1,4,7,8,10) le dd0 in \<open>simp_all add: ic ic2(1)\<close>)
  then show "\<exists>Ss. collected (keptEntries f mode ls) {?sig i |i. i < m \<and> ?sig i \<noteq> {}} ?ic Ss" unfolding D(2) by blast
  have "red' = replicate m False"
  proof (rule nth_equalityI)
    fix j assume "j < length red'"
    then have j: "j < m" using ic3(6) by simp
    show "red' ! j = replicate m False ! j"
    proof (cases "j < nb")
      case True
      then show ?thesis using ic3(10) j by simp
    next
      case False
      then have "\<not> laterCopy bm1 j" using bucketOf_interval(5) [OF r1] by (fastforce simp: laterCopy_def nb_def)
      then show ?thesis using False ic3(9) ic2(5) j by simp
    qed
  qed (simp add: ic3(6))
  moreover have "length (sizeClauses ?ic1) = m" using refine_okD(1) [OF r1] by (simp add: marks_ok_def)
  moreover have "length dd = maxSizeClause (cb_inConstruction bm) + 1" using ic3(3) by (simp add: ic2(1) ic1(1))
  ultimately show "bucket_ok m bm'"
    unfolding bucket_ok_def Let_def ic using mk ic3(4,5) by (simp add: bm' bm2_def)
  show "bm_modeStore bm' = mode \<and> bm_bucketAllocator bm' = bm_bucketAllocator bm \<and> cb_mapVar bm' = cb_mapVar bm
      \<and> maxSizeClause (cb_inConstruction bm') = maxSizeClause (cb_inConstruction bm)"
    unfolding ic using fr2 by (simp add: bm')
qed

end
