(* ===== verification/BucketClResidual.thy ===== *)
theory BucketClResidual
  imports BucketClCollect
begin

text \<open>
  The distribution against the formula: for a state of the formula manager with trail \<open>T\<close>, the clauses
  in the distribution are the residual clauses of the component that the mode stores.
\<close>

section \<open>The stored clauses of a literal\<close>

fun storedIn :: "ModeStore \<Rightarrow> lit set \<Rightarrow> clause \<Rightarrow> bool" where
  "storedIn CACHE_ALL T c = True"
| "storedIn CACHE_NT T c = (length c \<noteq> 2 \<and> (\<exists>l\<in>set c. neg l \<in> T))"
| "storedIn CACHE_NB T c = False"

definition residualOf :: "lit set \<Rightarrow> var list \<Rightarrow> clause \<Rightarrow> lit set" where
  "residualOf T C c = {l \<in> set c. var l \<in> set C \<and> var l \<notin> var ` T}"

definition residuals :: "ModeStore \<Rightarrow> cnf \<Rightarrow> lit set \<Rightarrow> var list \<Rightarrow> lit set set" where
  "residuals mode F T C = {residualOf T C c |c. c \<in> set F \<and> \<not> sat_by T c \<and> storedIn mode T c \<and> residualOf T C c \<noteq> {}}"

lemma keptOf_set:
  assumes c: "core_ok n F T f" and F: "cnf_ok n F" and l: "var l \<le> n"
  shows "distinct (keptOf f mode l)"
    "set (keptOf f mode l) = {i. i < length F \<and> \<not> sat_by T (F ! i) \<and> l \<in> set (F ! i) \<and> storedIn mode T (F ! i)}"
proof -
  have x: "intern l < 2 * (n + 1)" using l intern_bound [of l "n + 1"] by simp
  then have lev: "occ_level F T (intern l) (occ_of f l)" using c by (simp add: core_ok_def occ_of_def)
  note lv = level_clauses [OF lev]
  have sB: "set (getBinClauses (occ_of f l)) = {i. i < length F \<and> length (F ! i) = 2 \<and> \<not> sat_by T (F ! i) \<and> l \<in> set (F ! i)}"
    using mset_eq_setD [OF lv(3)] by (auto simp: occB_def set_occurrenceIdx)
  have sN: "set (getNotBinClauses (occ_of f l)) = {i. i < length F \<and> length (F ! i) \<noteq> 2 \<and> \<not> sat_by T (F ! i) \<and> l \<in> set (F ! i)}"
    using mset_eq_setD [OF lv(2)] by (auto simp: occN_def set_occurrenceIdx)
  have sA: "set (occ_getClauses (occ_of f l)) = {i. i < length F \<and> \<not> sat_by T (F ! i) \<and> l \<in> set (F ! i)}"
    using lv(1) by auto
  have d: "distinct (getBinClauses (occ_of f l))" "distinct (getNotBinClauses (occ_of f l))"
    using mset_eq_imp_distinct_iff [OF lv(3)] mset_eq_imp_distinct_iff [OF lv(2)] distinct_occ [OF F] by simp_all
  obtain A B N Z where o: "occ_is (occ_of f l) A B N Z" using lv(4) by blast
  then have app: "occ_getClauses (occ_of f l) = getBinClauses (occ_of f l) @ getNotBinClauses (occ_of f l)"
    by (simp add: occ_is_reads)
  have dA: "distinct (occ_getClauses (occ_of f l))"
    unfolding app distinct_append using d sB sN by auto
  have len: "i < length F \<Longrightarrow> length (cm_clauses f ! i) = length (F ! i)" for i
    using c by (metis core_ok_def clauses_ok_def mset_eq_length)
  have nb: "0 < nbUnsat (cm_infoClauses f ! i) \<longleftrightarrow> (\<exists>l\<in>set (F ! i). neg l \<in> T)"
    if "i < length F" "\<not> sat_by T (F ! i)" "length (F ! i) \<noteq> 2" for i
  proof -
    have "nbUnsat (cm_infoClauses f ! i) = card {l \<in> set (F ! i). neg l \<in> T}"
      using c that by (simp add: core_ok_def info_ok_def)
    then show ?thesis by (auto simp: card_gt_0_iff)
  qed
  show "distinct (keptOf f mode l)"
    by (cases mode) (simp_all add: keptOf_def getVecIdxClauseMode_def getVecIdxClause_def getVecIdxClauseNotBin_def
        getVecIdxClauseBin_def d dA)
  show "set (keptOf f mode l) = {i. i < length F \<and> \<not> sat_by T (F ! i) \<and> l \<in> set (F ! i) \<and> storedIn mode T (F ! i)}"
    by (cases mode) (auto simp: keptOf_def getVecIdxClauseMode_def getVecIdxClause_def getVecIdxClauseNotBin_def
        getVecIdxClauseBin_def isKeptClause_def sA sB sN len nb)
qed

lemma set_litsOf:
  assumes c: "core_ok n F T f" and C: "\<forall>v\<in>set C. v \<le> n"
  shows "set (litsOf f C) = {l. var l \<in> set C \<and> var l \<notin> var ` T}"
proof -
  have a: "varIsAssigned f v \<longleftrightarrow> v \<in> var ` T" if "v \<in> set C" for v
    using c C that value_of_Undef by (auto simp: varIsAssigned_def core_ok_def)
  have m: "l \<in> set [makeLitFalse v, makeLitTrue v] \<longleftrightarrow> var l = v" for l v
  proof
    assume "var l = v"
    then have "l = makeLit v (sign l)" using makeLit_var_sign by metis
    then show "l \<in> set [makeLitFalse v, makeLitTrue v]" by (cases "sign l") (simp_all add: d4_lit)
  qed (auto simp: makeLitTrue_eq makeLitFalse_eq)
  have "l \<in> set (litsOf f C) \<longleftrightarrow> (\<exists>v\<in>set C. \<not> varIsAssigned f v \<and> l \<in> set [makeLitFalse v, makeLitTrue v])" for l
    by (auto simp: litsOf_def split: if_splits)
  then show ?thesis unfolding m using a by blast
qed

lemma distinct_litsOf: "distinct C \<Longrightarrow> distinct (litsOf f C)"
proof (induction C)
  case (Cons v C)
  have "var ` set (litsOf f C) \<subseteq> set C" by (auto simp: litsOf_def d4_lit split: if_splits)
  then have "v \<notin> var ` set (litsOf f C)" using Cons.prems by auto
  then have "makeLit v b \<notin> set (litsOf f C)" for b by (metis image_eqI var_makeLit)
  moreover have "litsOf f (v # C) = (if varIsAssigned f v then [] else [makeLitFalse v, makeLitTrue v]) @ litsOf f C"
    by (simp add: litsOf_def)
  ultimately show ?case using Cons by (auto simp: makeLitTrue_eq makeLitFalse_eq simp del: makeLit_eq)
qed (simp add: litsOf_def)

lemma sigma_residual:
  assumes c: "core_ok n F T f" and F: "cnf_ok n F" and C: "\<forall>v\<in>set C. v \<le> n" and i: "i < length F"
  shows "sigma f mode (litsOf f C) i = (if \<not> sat_by T (F ! i) \<and> storedIn mode T (F ! i) then residualOf T C (F ! i) else {})"
proof -
  have "i \<in> set (keptOf f mode l) \<longleftrightarrow> \<not> sat_by T (F ! i) \<and> l \<in> set (F ! i) \<and> storedIn mode T (F ! i)"
    if "l \<in> set (litsOf f C)" for l
    using keptOf_set(2) [OF c F, of l mode] that C i set_litsOf [OF c C] by auto
  then show ?thesis using set_litsOf [OF c C] by (auto simp: sigma_def residualOf_def)
qed

lemma sigma_residuals:
  assumes c: "core_ok n F T f" and F: "cnf_ok n F" and C: "\<forall>v\<in>set C. v \<le> n"
  shows "{sigma f mode (litsOf f C) i |i. i < length F \<and> sigma f mode (litsOf f C) i \<noteq> {}} = residuals mode F T C"
proof -
  have "residuals mode F T C = {residualOf T C (F ! i) |i. i < length F \<and> \<not> sat_by T (F ! i) \<and> storedIn mode T (F ! i) \<and> residualOf T C (F ! i) \<noteq> {}}"
    unfolding residuals_def by (auto simp: in_set_conv_nth)
  also have "\<dots> = {sigma f mode (litsOf f C) i |i. i < length F \<and> sigma f mode (litsOf f C) i \<noteq> {}}"
    using sigma_residual [OF c F C, of _ mode] by (intro Collect_cong) metis
  finally show ?thesis by simp
qed

section \<open>The distribution of a component\<close>

lemma distribution_ok:
  assumes c: "core_ok n F T f" and F: "cnf_ok n F" and C: "distinct C" "\<forall>v\<in>set C. v \<le> n" and b: "bucket_ok (length F) bm"
  defines "bm' \<equiv> collectDistrib f C (initSortBucket bm)"
  shows "\<exists>Ss. collected (keptEntries f (bm_modeStore bm) (litsOf f C)) (residuals (bm_modeStore bm) F T C) (cb_inConstruction bm') Ss"
    and "bucket_ok (length F) bm'"
    and "bm_modeStore bm' = bm_modeStore bm \<and> bm_bucketAllocator bm' = bm_bucketAllocator bm \<and> cb_mapVar bm' = cb_mapVar bm
      \<and> maxSizeClause (cb_inConstruction bm') = maxSizeClause (cb_inConstruction bm)"
proof -
  have "\<forall>l\<in>set (litsOf f C). distinct (keptOf f (bm_modeStore bm) l) \<and> (\<forall>i\<in>set (keptOf f (bm_modeStore bm) l). i < length F)"
    using keptOf_set [OF c F] C(2) set_litsOf [OF c C(2)] by auto
  note D = collectDistrib_ok [OF b distinct_litsOf [OF C(1)] this]
  show "\<exists>Ss. collected (keptEntries f (bm_modeStore bm) (litsOf f C)) (residuals (bm_modeStore bm) F T C) (cb_inConstruction bm') Ss"
    using D(1) unfolding bm'_def sigma_residuals [OF c F C(2)] .
  show "bucket_ok (length F) bm'" using D(2) unfolding bm'_def .
  show "bm_modeStore bm' = bm_modeStore bm \<and> bm_bucketAllocator bm' = bm_bucketAllocator bm \<and> cb_mapVar bm' = cb_mapVar bm
      \<and> maxSizeClause (cb_inConstruction bm') = maxSizeClause (cb_inConstruction bm)" using D(3) unfolding bm'_def .
qed

lemma keptEntries_residuals:
  assumes c: "core_ok n F T f" and F: "cnf_ok n F" and C: "\<forall>v\<in>set C. v \<le> n"
  shows "set (keptEntries f mode (litsOf f C)) = \<Union> (residuals mode F T C)"
proof -
  have "keptOf f mode l \<noteq> [] \<longleftrightarrow> (\<exists>i<length F. l \<in> sigma f mode (litsOf f C) i)" if "l \<in> set (litsOf f C)" for l
    using keptOf_set(2) [OF c F, of l mode] that C set_litsOf [OF c C]
    by (auto simp: sigma_def simp flip: set_empty)
  then have "set (keptEntries f mode (litsOf f C)) = (\<Union>i\<in>{..<length F}. sigma f mode (litsOf f C) i)"
    by (auto simp: keptEntries_def sigma_def)
  then show ?thesis unfolding sigma_residuals [OF c F C, of mode, symmetric] by auto
qed

lemma distribution_entries:
  assumes c: "core_ok n F T f" and F: "cnf_ok n F" and C: "distinct C" "\<forall>v\<in>set C. v \<le> n" and b: "bucket_ok (length F) bm"
  shows "bucket_ok (length F) (collectDistrib f C (initSortBucket bm))
    \<and> (\<exists>es Ss. distinct es \<and> set es = \<Union> (residuals (bm_modeStore bm) F T C)
        \<and> collected es (residuals (bm_modeStore bm) F T C) (cb_inConstruction (collectDistrib f C (initSortBucket bm))) Ss)"
proof -
  have "distinct (keptEntries f (bm_modeStore bm) (litsOf f C))"
    unfolding keptEntries_def using distinct_litsOf [OF C(1)] by (rule distinct_filter)
  then show ?thesis using distribution_ok [OF c F C b] keptEntries_residuals [OF c F C(2)] by blast
qed

lemma new_bucket_ok:
  assumes "core_ok n F T f"
  shows "bucket_ok (length F) (newBucketManagerCl mode s1 s2 f)"
  using assms by (simp add: core_ok_def clauses_ok_def bucket_ok_def Let_def newBucketManagerCl_def newBucketManagerCnf_def
      newBucketInConstruction_def bucketManagerCnf.defs)

end
