(* ===== verification/BucketClCollision.thy ===== *)
theory BucketClCollision
  imports BucketClResidual CacheManager Components CnfLaws
begin

text \<open>
  A formula with 28 variables on which the cache with the clause representation and its default mode,
  the untouched clauses left out, takes two components for the same one. In the first component the
  last variable is a multiple of eight and its bit is lost; in the second the byte that holds the last variable
  is the first byte of the clauses of the first. The two searches are those of the branches of
  variable 25, and the components have different numbers of models.
\<close>

section \<open>The formula and the two searches\<close>

abbreviation psv :: "nat \<Rightarrow> lit" where "psv v \<equiv> makeLit v False"
abbreviation ngv :: "nat \<Rightarrow> lit" where "ngv v \<equiv> makeLit v True"

definition keyCnf :: cnf where
  "keyCnf = [[psv 6, psv 7, psv 12, psv 22, ngv 25], [psv 15, psv 16, psv 22, psv 25],
     [ngv 24, psv 25], [ngv 25, ngv 28], [psv 23, ngv 24], [psv 23, ngv 28]]
     @ map (\<lambda>i. [psv i, ngv (i + 1)]) [1 ..< 23]"

definition keyProblem :: "nat problem" where
  "keyProblem = \<lparr>m_nbVar = 28, m_weightLit = replicate 58 1, m_weightVar = replicate 29 2,
     m_selected = [], m_maxVar = [], m_indVar = [], m_order = [], m_isUnsat = False, m_clauses = keyCnf\<rparr>"

definition keyF0 where "keyF0 = initCnfManagerDyn keyProblem False"
definition keyB0 where "keyB0 = newBucketManagerCl CACHE_NT 1000 1000 keyF0"
definition keyPage :: "addr \<Rightarrow> 8 word list" where "keyPage a = replicate 16 0"

definition keyLits1 where "keyLits1 = [psv 25, ngv 28]"
definition keyF1 where "keyF1 = snd (cnf_preUpdate noInprocessing keyF0 keyLits1)"
definition keyG1 where "keyG1 = snd (cnf_computeConnectedComponent keyF1 [1 ..< 29])"
definition keyC1 :: "var list" where "keyC1 = [1 ..< 25]"
definition keyB1 where "keyB1 = collectDistrib keyG1 keyC1 (initSortBucket keyB0)"

definition keyLits2 where "keyLits2 = [ngv 25, ngv 24]"
definition keyF2 where "keyF2 = snd (cnf_preUpdate noInprocessing (cnf_postUpdate keyG1 keyLits1) keyLits2)"
definition keyG2 where "keyG2 = snd (cnf_computeConnectedComponent keyF2 [1 ..< 29])"
definition keyC2 :: "var list" where "keyC2 = [1 ..< 24] @ [28]"

section \<open>The states of the formula manager\<close>

lemma keyCnf_ok: "cnf_ok 28 keyCnf"
  by (auto simp: keyCnf_def cnf_ok_def clause_ok_def)

lemma keyF0_inv: "dyn_inv 28 keyCnf keyF0 []"
  using init_ok [of keyProblem] keyCnf_ok by (simp add: keyF0_def keyProblem_def)

lemma pre_fst: "cnf_preUpdate noInprocessing f ls = (ls, snd (cnf_preUpdate noInprocessing f ls))"
  by (simp add: cnf_preUpdate_def noInprocessing_def Let_def)

lemma step_inv:
  assumes "dyn_inv n F f stk" "trail_ok n (us @ concat stk)" "g = snd (cnf_preUpdate noInprocessing f us)"
    "h = snd (cnf_computeConnectedComponent g [1 ..< n + 1])"
  shows "dyn_inv n F h (us # stk)"
proof -
  have g: "dyn_inv n F g (us # stk)" using dyn_pre(2) [OF assms(1,2) pre_fst] assms(3) by simp
  obtain cs fs h' where e: "cnf_computeConnectedComponent g [1 ..< n + 1] = ((cs, fs), h')" by (metis prod.exhaust)
  have "dyn_inv n F h' (us # stk)"
    using computeConnectedComponent_ok [OF g _ _ e] by (simp del: upt_Suc)
  then show ?thesis unfolding assms(4) e by (simp only: snd_conv)
qed

lemma keyG1_inv: "dyn_inv 28 keyCnf keyG1 [keyLits1]"
  by (rule step_inv [OF keyF0_inv _ keyF1_def]) (simp_all add: keyLits1_def trail_ok_def keyG1_def)

lemma keyG2_inv: "dyn_inv 28 keyCnf keyG2 [keyLits2]"
  by (rule step_inv [OF dyn_post [OF keyG1_inv] _ keyF2_def]) (simp_all add: keyLits2_def trail_ok_def keyG2_def)

lemma keyComponents1: "fst (cnf_computeConnectedComponent keyF1 [1 ..< 29]) = ([keyC1], [26, 27])"
  by code_simp

lemma keyComponents2: "fst (cnf_computeConnectedComponent keyF2 [1 ..< 29]) = ([keyC2], [26, 27])"
  by code_simp

section \<open>The two distributions\<close>

definition keyIc0 :: BucketInConstruction where
  "keyIc0 = \<lparr>distrib = [], shiftedIndexClause = replicate 28 0, shiftedSizeClause = replicate 28 0,
     sizeClauses = replicate 28 0, distribDiffSize = replicate 6 0, markedAsRedundant = replicate 28 False,
     nbClauseInDistrib = 0, capacityDistrib = 211, maxSizeClause = 5\<rparr>"

definition keyIc1 :: BucketInConstruction where
  "keyIc1 = keyIc0\<lparr>distrib := [12, 1, 0, 14, 1, 0, 24, 1, 0, 44, 1, 0], shiftedSizeClause := 4 # replicate 27 0,
     sizeClauses := 4 # replicate 27 0, distribDiffSize := [0, 0, 0, 0, 1, 0], nbClauseInDistrib := 1\<rparr>"

definition keyIc2 :: BucketInConstruction where
  "keyIc2 = keyIc0\<lparr>distrib := [30, 1, 0, 32, 1, 0, 44, 1, 0], shiftedSizeClause := 3 # replicate 27 0,
     sizeClauses := [4, 3] @ replicate 26 0, distribDiffSize := [0, 0, 0, 1, 0, 0], nbClauseInDistrib := 1\<rparr>"

definition keyBase :: "bucketAllocator \<Rightarrow> nat list \<Rightarrow> nat list \<Rightarrow> bucketManagerCl" where
  "keyBase a m szs = \<lparr>bm_bucketAllocator = a, bm_modeStore = CACHE_NT, cb_vec = [], cb_unusedBucket = None,
     cb_mapVar = m, cb_mustUnMark = [], cb_markIdx = replicate 28 None,
     cb_inConstruction = keyIc0\<lparr>sizeClauses := szs\<rparr>\<rparr>"

lemma keyB0_base: "initSortBucket keyB0 = keyBase (ba_init 1000 1000 newBucketAllocator) (replicate 29 0) (replicate 28 0)"
  by code_simp

lemma keyB1_ic: "cb_inConstruction keyB1 = keyIc1"
  unfolding keyB1_def keyB0_base by code_simp

lemma keyB2_ic: "cb_inConstruction (collectDistrib keyG2 keyC2 (keyBase a m (4 # replicate 27 0))) = keyIc2"
  by code_simp

section \<open>The two entries\<close>

definition keyInfo :: AllocSizeInfo where
  "keyInfo = \<lparr>nbBitEltVar = 0, nbByteStoreVar = 3, nbByteStoreFormula = 5, nbBitStoreLit = 6, totalByte = 8\<rparr>"

definition keyInfo2 :: AllocSizeInfo where
  "keyInfo2 = \<lparr>nbBitEltVar = 0, nbByteStoreVar = 4, nbByteStoreFormula = 4, nbBitStoreLit = 6, totalByte = 8\<rparr>"

lemma keyInfo_fields: "totalByte keyInfo = 8" "nbByteStoreVar keyInfo = 3" "nbBitEltVar keyInfo = 0" "nbBitStoreLit keyInfo = 6"
  "totalByte keyInfo2 = 8" "nbByteStoreVar keyInfo2 = 4" "nbBitEltVar keyInfo2 = 0" "nbBitStoreLit keyInfo2 = 6"
  by (simp_all add: keyInfo_def keyInfo2_def)

lemma keyBits: "nbBitUnsigned 24 = 5" "nbBitUnsigned 28 = 5" "nbBitUnsigned 50 = 6"
  by (simp_all add: nbBitUnsigned_def nbBitStep_def)

lemma keyC_facts: "last keyC1 = 24" "length keyC1 = 24" "last keyC2 = 28" "length keyC2 = 24"
  by (simp_all add: keyC1_def keyC2_def)

lemma keyInfo1_ok: "computeNeededBytes keyC1 keyIc1 = keyInfo"
  by (simp add: computeNeededBytes_def Let_def keyC_facts keyBits keyIc1_def keyIc0_def keyInfo_def upt_rec)

lemma keyInfo2_ok: "computeNeededBytes keyC2 keyIc2 = keyInfo2"
  by (simp add: computeNeededBytes_def Let_def keyC_facts keyBits keyIc2_def keyIc0_def keyInfo2_def upt_rec)

text \<open>\<^verbatim>\<open>storeClauses\<close> reads the distribution and the map of the variables only.\<close>

lemma storeClauses_reads:
  assumes "cb_inConstruction bm = cb_inConstruction bm'" "cb_mapVar bm = cb_mapVar bm'"
  shows "fst (storeClauses info dat b C bm) = fst (storeClauses info dat b C bm')"
    "snd (storeClauses info dat b C bm) = updIC (\<lambda>ic. ic\<lparr>shiftedSizeClause :=
         shiftedSizeClause (cb_inConstruction (snd (storeClauses info dat b C bm')))\<rparr>)
       (bm\<lparr>cb_mapVar := cb_mapVar (snd (storeClauses info dat b C bm'))\<rparr>)"
  using assms by (simp_all add: storeClauses_def Let_def updIC_def split: prod.splits)

definition keyBytes :: "8 word list" where
  "keyBytes = [254, 255, 255, 16, 12, 14, 96, 176] @ replicate 8 0"

definition keyReads :: "BucketInConstruction \<Rightarrow> nat list \<Rightarrow> bucketManagerCl" where
  "keyReads ic m = (keyBase newBucketAllocator m [])\<lparr>cb_inConstruction := ic\<rparr>"

lemma keyStore1: "fst (storeClauses keyInfo (storeVariables keyInfo (replicate 16 0) keyC1) 3 keyC1 (keyReads keyIc1 (replicate 29 0))) = keyBytes"
  by code_simp

lemma keyStore2: "fst (storeClauses keyInfo2 (storeVariables keyInfo2 (replicate 16 0) keyC2) 4 keyC2 (keyReads keyIc2 ([0 ..< 25] @ replicate 4 0))) = keyBytes"
  by code_simp

lemma keyStore1_state:
  defines "r \<equiv> snd (storeClauses keyInfo (storeVariables keyInfo (replicate 16 0) keyC1) 3 keyC1 (keyReads keyIc1 (replicate 29 0)))"
  shows "shiftedSizeClause (cb_inConstruction r) = replicate 28 0" "cb_mapVar r = [0 ..< 25] @ replicate 4 0"
  unfolding r_def by code_simp+

lemma keyCore: "core_ok 28 keyCnf (set keyLits1) keyG1" "core_ok 28 keyCnf (set keyLits2) keyG2"
  using cm_inv_core [of 28 keyCnf keyG1 "[keyLits1]"] cm_inv_core [of 28 keyCnf keyG2 "[keyLits2]"] keyG1_inv keyG2_inv
  by (simp_all add: dyn_inv_def)

lemma keyC_ok: "distinct keyC1" "\<forall>v\<in>set keyC1. v \<le> 28" "distinct keyC2" "\<forall>v\<in>set keyC2. v \<le> 28"
  by (auto simp: keyC1_def keyC2_def)

lemma keyB0_ok: "bucket_ok (length keyCnf) keyB0"
  unfolding keyB0_def using new_bucket_ok cm_inv_core keyF0_inv unfolding dyn_inv_def by blast

lemma keyB1_ok:
  "bucket_ok (length keyCnf) keyB1" "bm_modeStore keyB1 = CACHE_NT" "cb_mapVar keyB1 = replicate 29 0"
  "bm_bucketAllocator keyB1 = ba_init 1000 1000 newBucketAllocator"
proof -
  note d = distribution_ok [OF keyCore(1) keyCnf_ok keyC_ok(1,2) keyB0_ok, folded keyB1_def]
  show "bucket_ok (length keyCnf) keyB1" by (rule d(2))
  show "bm_modeStore keyB1 = CACHE_NT" "cb_mapVar keyB1 = replicate 29 0"
    "bm_bucketAllocator keyB1 = ba_init 1000 1000 newBucketAllocator"
    using d(3) by (simp_all add: keyB0_def newBucketManagerCl_def newBucketManagerCnf_def bucketManagerCnf.defs
        keyF0_def init_fields keyProblem_def del: replicate_Suc)
qed

definition keyAlloc :: bucketAllocator where "keyAlloc = snd (getArray 8 (ba_init 1000 1000 newBucketAllocator))"

lemma keyGet: "getArray 8 (ba_init 1000 1000 newBucketAllocator) = ((0, 0), keyAlloc)"
  "fst (getArray 8 keyAlloc) = (0, 8)"
  by code_simp+

definition keyBucket :: "addr \<Rightarrow> nat CachedBucket" where
  "keyBucket a = \<lparr>bptr = a, bdata = take 8 keyBytes, info1 = DataInfo 8 24 0 6, fc = None\<rparr>"

definition keyS1 where
  "keyS1 = updIC (\<lambda>ic. ic\<lparr>shiftedSizeClause := replicate 28 0\<rparr>)
     (keyB1\<lparr>bm_bucketAllocator := keyAlloc, cb_mapVar := [0 ..< 25] @ replicate 4 0\<rparr>)"

lemma keyStored1: "cl_storeFormula keyB0 keyG1 keyC1 keyPage = (keyBucket (0, 0), keyS1, keyBytes)"
proof -
  let ?d = "storeVariables keyInfo (replicate 16 0) keyC1" and ?b = "keyB1\<lparr>bm_bucketAllocator := keyAlloc\<rparr>"
  have r: "cb_inConstruction ?b = cb_inConstruction (keyReads keyIc1 (replicate 29 0))"
    "cb_mapVar ?b = cb_mapVar (keyReads keyIc1 (replicate 29 0))"
    by (simp_all add: keyReads_def keyBase_def keyB1_ic keyB1_ok)
  note s = storeClauses_reads [OF r, of keyInfo ?d 3 keyC1, unfolded keyStore1 keyStore1_state]
  have "storeClauses keyInfo ?d 3 keyC1 ?b = (keyBytes, keyS1)"
    using s by (simp add: prod_eq_iff keyS1_def)
  moreover have "nbClauseInDistrib keyIc1 = 1" by (simp add: keyIc1_def keyIc0_def)
  ultimately show ?thesis
    unfolding cl_storeFormula_def Let_def keyB1_def [symmetric] keyB1_ic keyB1_ok keyInfo1_ok
    by (simp add: keyInfo_fields keyGet keyB1_ic keyPage_def keyBucket_def keyC_facts)
qed

lemma keyS1_ok: "bucket_ok (length keyCnf) keyS1" "bm_modeStore keyS1 = CACHE_NT" "bm_bucketAllocator keyS1 = keyAlloc"
  "cb_mapVar keyS1 = [0 ..< 25] @ replicate 4 0"
  using keyB1_ok by (simp_all add: keyS1_def bucket_ok_def Let_def updIC_def keyCnf_def del: replicate_Suc)

lemma keyS1_base: "initSortBucket keyS1 = keyBase keyAlloc ([0 ..< 25] @ replicate 4 0) (4 # replicate 27 0)"
proof (rule bucketManagerCl.equality)
  have "length keyCnf = 28" by (simp add: keyCnf_def)
  then have b: "cb_markIdx keyB1 = replicate 28 None" "cb_mustUnMark keyB1 = []"
    using keyB1_ok(1) by (simp_all add: bucket_ok_def)
  show "cb_markIdx (initSortBucket keyS1) = cb_markIdx (keyBase keyAlloc ([0 ..< 25] @ replicate 4 0) (4 # replicate 27 0))"
    "cb_mustUnMark (initSortBucket keyS1) = cb_mustUnMark (keyBase keyAlloc ([0 ..< 25] @ replicate 4 0) (4 # replicate 27 0))"
    using b by (simp_all add: initSortBucket_def updIC_def keyS1_def keyBase_def)
qed (simp_all add: initSortBucket_def updIC_def bic_reinit_def keyS1_def keyBase_def keyB1_ic keyB1_ok keyIc1_def keyIc0_def
    del: upt_Suc)

definition keyB2 where "keyB2 = collectDistrib keyG2 keyC2 (initSortBucket keyS1)"

lemma keyB2_ok: "cb_inConstruction keyB2 = keyIc2" "cb_mapVar keyB2 = [0 ..< 25] @ replicate 4 0" "bm_bucketAllocator keyB2 = keyAlloc"
proof -
  show "cb_inConstruction keyB2 = keyIc2" unfolding keyB2_def keyS1_base by (rule keyB2_ic)
  show "cb_mapVar keyB2 = [0 ..< 25] @ replicate 4 0" "bm_bucketAllocator keyB2 = keyAlloc"
    using distribution_ok(3) [OF keyCore(2) keyCnf_ok keyC_ok(3,4) keyS1_ok(1), folded keyB2_def] keyS1_ok by simp_all
qed

lemma keyStored2: "fst (cl_storeFormula keyS1 keyG2 keyC2 keyPage) = keyBucket (0, 8)"
proof -
  let ?d = "storeVariables keyInfo2 (replicate 16 0) keyC2"
  have r: "cb_inConstruction (keyB2\<lparr>bm_bucketAllocator := a\<rparr>) = cb_inConstruction (keyReads keyIc2 ([0 ..< 25] @ replicate 4 0))"
    "cb_mapVar (keyB2\<lparr>bm_bucketAllocator := a\<rparr>) = cb_mapVar (keyReads keyIc2 ([0 ..< 25] @ replicate 4 0))" for a
    by (simp_all add: keyReads_def keyBase_def keyB2_ok)
  note s = storeClauses_reads(1) [OF r, of keyInfo2 ?d 4 keyC2, unfolded keyStore2]
  have "nbClauseInDistrib keyIc2 = 1" by (simp add: keyIc2_def keyIc0_def)
  then show ?thesis
    unfolding cl_storeFormula_def Let_def keyB2_def [symmetric] keyB2_ok keyInfo2_ok
    using s keyGet(2) by (simp add: keyInfo_fields keyB2_ok keyPage_def keyBucket_def keyC_facts case_prod_beta)
qed

lemma keySame: "sameEntry (keyBucket a) (keyBucket a')"
  by (simp add: sameEntry_def keyBucket_def)

section \<open>The numbers of models\<close>

lemma prefix_list:
  assumes "A \<subseteq> set xs" "\<forall>i. Suc i < length xs \<longrightarrow> xs ! Suc i \<in> A \<longrightarrow> xs ! i \<in> A" 
  shows "\<exists>k\<le>length xs. A = set (take k xs)"
proof -
  have down: "j \<le> i \<Longrightarrow> i < length xs \<Longrightarrow> xs ! i \<in> A \<Longrightarrow> xs ! j \<in> A" for i j
  proof (induction i)
    case (Suc i)
    then show ?case using assms(2) by (cases "j = Suc i") auto
  qed simp
  define k where "k = (if \<exists>i<length xs. xs ! i \<notin> A then LEAST i. i < length xs \<and> xs ! i \<notin> A else length xs)"
  have k: "k \<le> length xs" "\<And>i. i < k \<Longrightarrow> xs ! i \<in> A" "k < length xs \<Longrightarrow> xs ! k \<notin> A"
  proof -
    have "k \<le> length xs \<and> (\<forall>i<k. xs ! i \<in> A) \<and> (k < length xs \<longrightarrow> xs ! k \<notin> A)"
    proof (cases "\<exists>i<length xs. xs ! i \<notin> A")
      case True
      let ?P = "\<lambda>i. i < length xs \<and> xs ! i \<notin> A"
      have k: "k = Least ?P" using True by (simp add: k_def)
      have P: "?P k" unfolding k by (rule LeastI_ex) (use True in blast)
      moreover have "\<not> ?P i" if "i < k" for i using that unfolding k by (rule not_less_Least)
      ultimately show ?thesis by force
    next
      case False
      then show ?thesis by (auto simp: k_def)
    qed
    then show "k \<le> length xs" "\<And>i. i < k \<Longrightarrow> xs ! i \<in> A" "k < length xs \<Longrightarrow> xs ! k \<notin> A" by blast+
  qed
  have "A = set (take k xs)"
  proof
    show "A \<subseteq> set (take k xs)"
    proof
      fix v assume "v \<in> A"
      then obtain i where i: "i < length xs" "v = xs ! i" using assms(1) by (metis in_set_conv_nth subsetD)
      then have "i < k" using down [of k i] k(3) \<open>v \<in> A\<close> by (metis leI le_less_trans)
      then show "v \<in> set (take k xs)" using i by (auto simp: in_set_conv_nth)
    qed
    show "set (take k xs) \<subseteq> A" using k(1,2) by (auto simp: in_set_conv_nth)
  qed
  then show ?thesis using k(1) by blast
qed

lemma prefix_count:
  assumes "distinct C" "\<And>k. k \<le> length C \<Longrightarrow> extends f (set C) (set (take k C)) = (m \<le> k)"
    and "\<And>s i. f s \<Longrightarrow> Suc i < length C \<Longrightarrow> s (C ! Suc i) \<Longrightarrow> s (C ! i)" "m \<le> length C"
  shows "pcount (\<lambda>_ _. 1 :: nat) (set C) f (set C) = length C + 1 - m"
proof -
  have "{A \<in> Pow (set C). extends f (set C) A} = (\<lambda>k. set (take k C)) ` {m..length C}"
  proof (rule set_eqI, rule iffI)
    fix A assume A: "A \<in> {A \<in> Pow (set C). extends f (set C) A}"
    then obtain s where s: "\<forall>v\<in>set C. s v = (v \<in> A)" "f s" by (auto simp: extends_def)
    have "\<forall>i. Suc i < length C \<longrightarrow> C ! Suc i \<in> A \<longrightarrow> C ! i \<in> A"
      using assms(3) [OF s(2)] s(1) by (metis Suc_lessD nth_mem)
    then obtain k where "k \<le> length C" "A = set (take k C)" using prefix_list [of A C] A by auto
    then show "A \<in> (\<lambda>k. set (take k C)) ` {m..length C}" using A assms(2) by auto
  qed (use assms(2) set_take_subset in force)
  moreover have "inj_on (\<lambda>k. set (take k C)) {m..length C}"
  proof (rule inj_onI)
    fix k j assume "k \<in> {m..length C}" "j \<in> {m..length C}" "set (take k C) = set (take j C)"
    then have "card (set (take k C)) = card (set (take j C))" "k \<le> length C" "j \<le> length C" by simp_all
    then show "k = j" using assms(1) by (simp add: distinct_card)
  qed
  ultimately have "card {A \<in> Pow (set C). extends f (set C) A} = length C + 1 - m" by (simp add: card_image)
  moreover have "Pow (set C) \<inter> Collect (extends f (set C)) = {A \<in> Pow (set C). extends f (set C) A}" by blast
  then have "pcount (\<lambda>_ _. 1 :: nat) (set C) f (set C) = card {A \<in> Pow (set C). extends f (set C) A}"
    by (simp only: pcount_def pweight_def prod.neutral_const Int_absorb sum.If_cases finite_Pow_iff finite_set
        sum.neutral_const add_0_right card_eq_sum Collect_conv_if if_cancel)
  ultimately show ?thesis by simp
qed

definition needed :: "lit list \<Rightarrow> var list \<Rightarrow> assignment \<Rightarrow> clause \<Rightarrow> bool" where
  "needed T C s c \<longleftrightarrow> (\<not> sat_by (set T) c \<longrightarrow> clause_vars c \<inter> set C \<noteq> {} \<longrightarrow> clause_holds s c)"

lemma residual_needed: "residual F T C s \<longleftrightarrow> lits_hold s T \<and> (\<forall>c\<in>set F. needed T C s c)"
  by (auto simp: residual_def active_def needed_def)

lemma keyChain:
  assumes "T = keyLits1 \<and> C = keyC1 \<or> T = keyLits2 \<and> C = keyC2" "i \<in> {1..<23}"
  shows "needed T C s [psv i, ngv (i + 1)] = (s (Suc i) \<longrightarrow> s i)"
proof -
  have "\<not> sat_by (set T) [psv i, ngv (i + 1)]"
    using assms by (auto simp: sat_by_def keyLits1_def keyLits2_def lit_eq_iff)
  moreover have "i \<in> clause_vars [psv i, ngv (i + 1)] \<inter> set C"
    using assms by (auto simp: clause_vars_def keyC1_def keyC2_def)
  moreover have "clause_holds s [psv i, ngv (i + 1)] = (s (Suc i) \<longrightarrow> s i)"
    by (auto simp: clause_holds_def lit_holds_def)
  ultimately show ?thesis by (auto simp: needed_def)
qed

lemma sat_by_Cons: "sat_by T (l # c) \<longleftrightarrow> l \<in> T \<or> sat_by T c" "\<not> sat_by T []"
  by (simp_all add: sat_by_def)

lemma clause_holds_Cons: "clause_holds s (l # c) \<longleftrightarrow> s (var l) \<noteq> sign l \<or> clause_holds s c" "\<not> clause_holds s []"
  by (simp_all add: clause_holds_def lit_holds_def)

lemmas key_simps = needed_def sat_by_Cons lit_eq_iff clause_vars_def clause_holds_Cons

lemma keyNeeded1:
  "needed keyLits1 keyC1 s [psv 6, psv 7, psv 12, psv 22, ngv 25] = (s 6 \<or> s 7 \<or> s 12 \<or> s 22 \<or> \<not> s 25)"
  "needed keyLits1 keyC1 s [psv 15, psv 16, psv 22, psv 25]" "needed keyLits1 keyC1 s [ngv 24, psv 25]"
  "needed keyLits1 keyC1 s [ngv 25, ngv 28]" "needed keyLits1 keyC1 s [psv 23, ngv 24] = (s 24 \<longrightarrow> s 23)"
  "needed keyLits1 keyC1 s [psv 23, ngv 28]"
  by (simp_all add: key_simps keyLits1_def keyC1_def) blast

lemma keyNeeded2:
  "needed keyLits2 keyC2 s [psv 6, psv 7, psv 12, psv 22, ngv 25]"
  "needed keyLits2 keyC2 s [psv 15, psv 16, psv 22, psv 25] = (s 15 \<or> s 16 \<or> s 22 \<or> s 25)" "needed keyLits2 keyC2 s [ngv 24, psv 25]"
  "needed keyLits2 keyC2 s [ngv 25, ngv 28]" "needed keyLits2 keyC2 s [psv 23, ngv 24]"
  "needed keyLits2 keyC2 s [psv 23, ngv 28] = (s 28 \<longrightarrow> s 23)"
  by (simp_all add: key_simps keyLits2_def keyC2_def) blast


lemma keyResidual1:
  "residual keyCnf keyLits1 keyC1 s \<longleftrightarrow> s 25 \<and> \<not> s 28 \<and> (s 6 \<or> s 7 \<or> s 12 \<or> s 22) \<and> (s 24 \<longrightarrow> s 23)
     \<and> (\<forall>i\<in>{1..<23}. s (Suc i) \<longrightarrow> s i)"
proof -
  have "(\<forall>c\<in>set (map (\<lambda>i. [psv i, ngv (i + 1)]) [1 ..< 23]). needed keyLits1 keyC1 s c) = (\<forall>i\<in>{1..<23}. s (Suc i) \<longrightarrow> s i)"
    by (simp add: keyChain del: One_nat_def upt_Suc) 
  moreover have "lits_hold s keyLits1 = (s 25 \<and> \<not> s 28)" by (simp add: lits_hold_def keyLits1_def lit_holds_def)
  ultimately show ?thesis
    unfolding residual_needed keyCnf_def set_append ball_Un by (auto simp: keyNeeded1)
qed

lemma keyResidual2:
  "residual keyCnf keyLits2 keyC2 s \<longleftrightarrow> \<not> s 25 \<and> \<not> s 24 \<and> (s 15 \<or> s 16 \<or> s 22) \<and> (s 28 \<longrightarrow> s 23)
     \<and> (\<forall>i\<in>{1..<23}. s (Suc i) \<longrightarrow> s i)"
proof -
  have "(\<forall>c\<in>set (map (\<lambda>i. [psv i, ngv (i + 1)]) [1 ..< 23]). needed keyLits2 keyC2 s c) = (\<forall>i\<in>{1..<23}. s (Suc i) \<longrightarrow> s i)"
    by (simp add: keyChain del: One_nat_def upt_Suc) 
  moreover have "lits_hold s keyLits2 = (\<not> s 25 \<and> \<not> s 24)" by (simp add: lits_hold_def keyLits2_def lit_holds_def)
  ultimately show ?thesis
    unfolding residual_needed keyCnf_def set_append ball_Un by (auto simp: keyNeeded2)
qed

lemma keyC_nth: "i < 23 \<Longrightarrow> keyC1 ! i = i + 1" "keyC1 ! 23 = 24" "i < 23 \<Longrightarrow> keyC2 ! i = i + 1" "keyC2 ! 23 = 28"
  by (simp_all add: keyC1_def keyC2_def nth_append)

lemma key_down:
  assumes "s (C ! Suc i)" "\<And>j. j < 23 \<Longrightarrow> C ! j = j + 1" "C ! 23 = e" "Suc i < 24" "s e \<longrightarrow> s 23" "\<forall>j\<in>{1..<23}. s (Suc j) \<longrightarrow> s j"
  shows "s (C ! i)"
proof (cases "Suc i < 23")
  case True
  then show ?thesis using assms(1,2,6) by simp
next
  case False
  then have "i = 22" using assms(4) by simp
  then show ?thesis using assms(1,3,5) assms(2) [of 22] by simp
qed

lemma keyC_take:
  "k \<le> 24 \<Longrightarrow> set (take k keyC1) = {1..<k + 1}"
  "k \<le> 24 \<Longrightarrow> set (take k keyC2) = (if k = 24 then {1..<24} \<union> {28} else {1..<k + 1})"
  by (auto simp: keyC1_def keyC2_def take_upt simp del: upt_Suc)

text \<open>The models of a chain are its prefixes; \<open>m\<close> is the first variable that the clauses allow to be the last true one.\<close>

lemma keyCount1: "cval (\<lambda>_ _. 1 :: nat) (set keyC1) keyCnf keyLits1 keyC1 = 19"
proof -
  have "pcount (\<lambda>_ _. 1 :: nat) (set keyC1) (residual keyCnf keyLits1 keyC1) (set keyC1) = length keyC1 + 1 - 6"
  proof (rule prefix_count [OF keyC_ok(1)])
    fix k assume "k \<le> length keyC1"
    then have k: "k \<le> 24" by (simp add: keyC_facts)
    have C: "set keyC1 = {1..<25}" by (simp add: keyC1_def)
    show "extends (residual keyCnf keyLits1 keyC1) (set keyC1) (set (take k keyC1)) = (6 \<le> k)"
      unfolding extends_def keyResidual1 keyC_take(1) [OF k] C
    proof
      assume "\<exists>s. (\<forall>v\<in>{1..<25}. s v = (v \<in> {1..<k + 1})) \<and> s 25 \<and> \<not> s 28 \<and> (s 6 \<or> s 7 \<or> s 12 \<or> s 22)
        \<and> (s 24 \<longrightarrow> s 23) \<and> (\<forall>i\<in>{1..<23}. s (Suc i) \<longrightarrow> s i)"
      then obtain s where s: "\<forall>v\<in>{1..<25}. s v = (v \<in> {1..<k + 1})" "s 6 \<or> s 7 \<or> s 12 \<or> s 22" by blast
      have "s 6 = (6 < k + 1)" "s 7 = (7 < k + 1)" "s 12 = (12 < k + 1)" "s 22 = (22 < k + 1)" using s(1) by simp_all
      then show "6 \<le> k" using s(2) by auto
    next
      assume "6 \<le> k"
      then show "\<exists>s. (\<forall>v\<in>{1..<25}. s v = (v \<in> {1..<k + 1})) \<and> s 25 \<and> \<not> s 28 \<and> (s 6 \<or> s 7 \<or> s 12 \<or> s 22)
          \<and> (s 24 \<longrightarrow> s 23) \<and> (\<forall>i\<in>{1..<23}. s (Suc i) \<longrightarrow> s i)"
        by (intro exI [of _ "\<lambda>v. v = 25 \<or> 1 \<le> v \<and> v < k + 1 \<and> v \<noteq> 28"]) (use k in auto)
    qed
  next
    fix s i assume r: "residual keyCnf keyLits1 keyC1 s" "Suc i < length keyC1" "s (keyC1 ! Suc i)"
    have i: "Suc i < 24" using r(2) by (simp add: keyC_facts)
    show "s (keyC1 ! i)"
      by (rule key_down [where s = s, OF r(3) keyC_nth(1,2)]) (use r(1) [unfolded keyResidual1] i in \<open>blast+\<close>)
  qed (simp add: keyC_facts)
  then show ?thesis by (simp add: cval_def keyC_facts)
qed

lemma keyCount2: "cval (\<lambda>_ _. 1 :: nat) (set keyC2) keyCnf keyLits2 keyC2 = 10"
proof -
  have "pcount (\<lambda>_ _. 1 :: nat) (set keyC2) (residual keyCnf keyLits2 keyC2) (set keyC2) = length keyC2 + 1 - 15"
  proof (rule prefix_count [OF keyC_ok(3)])
    fix k assume "k \<le> length keyC2"
    then have k: "k \<le> 24" by (simp add: keyC_facts)
    let ?A = "if k = 24 then {1..<24} \<union> {28} else {1..<k + 1}"
    have C: "set keyC2 = insert 28 {1..<24}" by (auto simp: keyC2_def)
    show "extends (residual keyCnf keyLits2 keyC2) (set keyC2) (set (take k keyC2)) = (15 \<le> k)"
      unfolding extends_def keyResidual2 keyC_take(2) [OF k] C
    proof
      assume "\<exists>s. (\<forall>v\<in>insert 28 {1..<24}. s v = (v \<in> ?A)) \<and> \<not> s 25 \<and> \<not> s 24 \<and> (s 15 \<or> s 16 \<or> s 22)
        \<and> (s 28 \<longrightarrow> s 23) \<and> (\<forall>i\<in>{1..<23}. s (Suc i) \<longrightarrow> s i)"
      then obtain s where s: "\<forall>v\<in>insert 28 {1..<24}. s v = (v \<in> ?A)" "s 15 \<or> s 16 \<or> s 22" by blast
      have "s 15 = (15 \<in> ?A)" "s 16 = (16 \<in> ?A)" "s 22 = (22 \<in> ?A)" using s(1) by simp_all
      then show "15 \<le> k" using s(2) by (auto split: if_splits)
    next
      assume "15 \<le> k"
      then show "\<exists>s. (\<forall>v\<in>insert 28 {1..<24}. s v = (v \<in> ?A)) \<and> \<not> s 25 \<and> \<not> s 24 \<and> (s 15 \<or> s 16 \<or> s 22)
          \<and> (s 28 \<longrightarrow> s 23) \<and> (\<forall>i\<in>{1..<23}. s (Suc i) \<longrightarrow> s i)"
        by (intro exI [of _ "\<lambda>v. v \<in> ?A"]) (use k in auto)
    qed
  next
    fix s i assume r: "residual keyCnf keyLits2 keyC2 s" "Suc i < length keyC2" "s (keyC2 ! Suc i)"
    have i: "Suc i < 24" using r(2) by (simp add: keyC_facts)
    show "s (keyC2 ! i)"
      by (rule key_down [where s = s, OF r(3) keyC_nth(3,4)]) (use r(1) [unfolded keyResidual2] i in \<open>blast+\<close>)
  qed (simp add: keyC_facts)
  then show ?thesis by (simp add: cval_def keyC_facts)
qed

section \<open>The collision\<close>

text \<open>
  C1. The cache key of the default configuration does not determine the component. The search assigns
  variable 25 of \<open>keyCnf\<close> (its binary clauses then assign 28 or 24), computes the components, of which
  there is one, and stores its entry; it takes the decision back, assigns the other value and stores the
  entry of the component that it finds now. The entries agree in all that a lookup compares, and the
  components have 19 and 10 models: the second lookup returns the value of the first.
\<close>

theorem default_key_collision:
  "let f0 = initCnfManagerDyn keyProblem False; bm0 = newBucketManagerCl CACHE_NT 1000 1000 f0;
       (us1, f1) = cnf_preUpdate noInprocessing f0 [psv 25, ngv 28];
       ((cs1, fs1), g1) = cnf_computeConnectedComponent f1 [1 ..< 29];
       (b1, bm1, page1) = cl_storeFormula bm0 g1 (hd cs1) (\<lambda>_. replicate 16 0);
       (us2, f2) = cnf_preUpdate noInprocessing (cnf_postUpdate g1 us1) [ngv 25, ngv 24];
       ((cs2, fs2), g2) = cnf_computeConnectedComponent f2 [1 ..< 29];
       (b2, bm2, page2) = cl_storeFormula bm1 g2 (hd cs2) (\<lambda>_. replicate 16 0)
   in us1 = [psv 25, ngv 28] \<and> cs1 = [[1 ..< 25]] \<and> us2 = [ngv 25, ngv 24] \<and> cs2 = [[1 ..< 24] @ [28]]
      \<and> sameEntry b2 (b1 :: nat CachedBucket)
      \<and> cval (\<lambda>_ _. 1 :: nat) {1..28} keyCnf us1 (hd cs1) = 19
      \<and> cval (\<lambda>_ _. 1 :: nat) {1..28} keyCnf us2 (hd cs2) = 10"
proof -
  have c1: "cnf_computeConnectedComponent keyF1 [1 ..< 29] = (([keyC1], [26, 27]), keyG1)"
    unfolding keyG1_def using keyComponents1 by (metis prod.collapse)
  have c2: "cnf_computeConnectedComponent keyF2 [1 ..< 29] = (([keyC2], [26, 27]), keyG2)"
    unfolding keyG2_def using keyComponents2 by (metis prod.collapse)
  have p1: "cnf_preUpdate noInprocessing keyF0 keyLits1 = (keyLits1, keyF1)"
    unfolding keyF1_def by (rule pre_fst)
  have p2: "cnf_preUpdate noInprocessing (cnf_postUpdate keyG1 keyLits1) keyLits2 = (keyLits2, keyF2)"
    unfolding keyF2_def by (rule pre_fst)
  obtain bm2 page2 where s2: "cl_storeFormula keyS1 keyG2 keyC2 keyPage = (keyBucket (0, 8), bm2, page2)"
    using keyStored2 by (metis fst_conv prod.exhaust)
  have v: "cval (\<lambda>_ _. 1 :: nat) {1..28} keyCnf keyLits1 keyC1 = 19" "cval (\<lambda>_ _. 1 :: nat) {1..28} keyCnf keyLits2 keyC2 = 10"
  proof -
    have "set keyC1 \<inter> {1..28} = set keyC1 \<inter> set keyC1" "set keyC2 \<inter> {1..28} = set keyC2 \<inter> set keyC2"
      by (auto simp: keyC1_def keyC2_def)
    then show "cval (\<lambda>_ _. 1 :: nat) {1..28} keyCnf keyLits1 keyC1 = 19" "cval (\<lambda>_ _. 1 :: nat) {1..28} keyCnf keyLits2 keyC2 = 10"
      using keyCount1 keyCount2 unfolding cval_def pcount_def by (simp_all only:)
  qed
  have page: "(\<lambda>_. replicate 16 0) = keyPage" by (simp add: fun_eq_iff keyPage_def)
  show ?thesis
    unfolding Let_def page keyF0_def [symmetric] keyB0_def [symmetric] keyLits1_def [symmetric] keyLits2_def [symmetric]
      keyC1_def [symmetric] keyC2_def [symmetric] p1 prod.case c1 list.sel keyStored1 p2 c2 s2
    by (intro conjI refl keySame v)
qed

end
