(* ===== verification/Spec2Isabelle.thy ===== *)
theory Spec2Isabelle
  imports Complex_Main Assembly ReferenceSolver CnfFormula ParserQbf ParserErrors CacheLive BucketClCollision
begin

text \<open>
  A verification library for d4, a model counter and knowledge compiler for propositional formulas.

  \<^bold>\<open>The program.\<close> d4 reads a CNF (or another input) from a file, preprocesses it, and runs a recursive
  search: the SAT solver checks the current component and propagates, the formula manager keeps the
  residual formula and splits it into connected components, a cache remembers the result of a component,
  a branching heuristic selects the next literals, and an operation combines the results of branches and
  components, either to a number (counting) or to a node of a decision-DNNF graph (compiling). Paths below
  are under \<^verbatim>\<open>src/src\<close>.

  \<^bold>\<open>Theories.\<close>
  \<^item> Prelude: lemmas on lists, folds and the named collections.
  \<^item> ProblemTypes, ProblemManager (\<^verbatim>\<open>problem/ProblemTypes\<close>, \<^verbatim>\<open>problem/ProblemManager.hpp\<close>, \<^verbatim>\<open>problem/cnf/ProblemManagerCnf.cpp\<close>):
    literals in their integer encoding, the problem record, weights, conditioning.
  \<^item> BufferRead, Parsers, ParserCorrect, ParserErrors, ParserQbf (\<^verbatim>\<open>utils/BufferRead.hpp\<close>, \<^verbatim>\<open>utils/Parsing.cpp\<close>, the DIMACS, QDIMACS and
    erosion parsers and their problem classes): the buffer over an arbitrary sequence of reads, numbers with
    32 bit wrap-around, every kind of line. The main loops are partial functions: not returning is \<open>None\<close>.
  \<^item> Wmc: weighted projected model counting, the specification of the search, and its laws.
  \<^item> Interfaces, Contracts: the classes that the search calls, as records of operations, and their contracts
    as locales (formula manager, cache, heuristic, operation) or as a predicate (SAT solver).
  \<^item> Dpll, DpllCorrect (\<^verbatim>\<open>methods/DpllStyleMethod.hpp\<close>, \<^verbatim>\<open>methods/DataBranch.hpp\<close>, \<^verbatim>\<open>WrapperSolver::warmStart\<close>): the search, and the
    proof that it returns the value of the specification for all classes that meet the contracts.
  \<^item> Counting, Nnf, DnnfOperation (\<^verbatim>\<open>methods/CountingOperation.hpp\<close>, \<^verbatim>\<open>methods/nnf\<close>, \<^verbatim>\<open>methods/DecisionDNNFOperation.hpp\<close>): the two operations, the
    nodes in their pages, the memoised count on a graph with 32 bit stamps.
  \<^item> CnfManager, CnfManagerDyn, CnfOcc, CnfInv, CnfUpdate, CnfPropagate, CnfLaws, UnionFind, Components, CnfFormula
    (\<^verbatim>\<open>formulaManager/cnf\<close>): occurrence arrays, assigning and unassigning literals with the saved states, the search for components.
  \<^item> BucketAllocator, CacheBucket, CacheManager, CacheLive (\<^verbatim>\<open>caching\<close>): memory blocks, entries with their packed header, both hash
    tables, cleaning.
  \<^item> BucketCl, BucketClCorrect, BucketClRefine, BucketClCollect, BucketClResidual, BucketClCollision (\<^verbatim>\<open>caching/bucket/cnf/BucketManagerCnfCl.hpp\<close>):
    the entry of the residual clauses, bit by bit; the refinement of the buckets literal by literal and its result;
    two components with the same entry and different numbers of models.
  \<^item> Heuristics (\<^verbatim>\<open>heuristics\<close>): scores, phases, the three branching heuristics, the order of a tree decomposition.
  \<^item> ReferenceSolver: an executable solver that meets the solver contract; it shows that the contract can hold.
  \<^item> Assembly and this theory: the classes put together, and the theorems on whole runs.

  \<^bold>\<open>Correspondence.\<close> Every class is a record of its fields, every method a function that returns the changed
  record; errors are values of a sum or option type; a mutable array is a list updated by index, and the
  code's reads are proved to be in range where a property needs it. A virtual call is a field of an interface
  record, and the interpretation of the locale of its contract on the model of a class is the proof that the class
  meets it.

  \<^bold>\<open>What the lemmas show.\<close> A run returns the weighted projected model count, for each heuristic, hash function, cleaning
  and sequence of random queries; a compiled graph has this count as its value for all weights and
  answers queries under assumptions; the formula manager agrees with the formula under the trail after each update
  and each undo; components are a partition; the cache returns a value only for the same component and clauses; blocks of
  memory do not overlap; parsers read back what the program prints. Some theorems state faults of the code:
  the byte written behind a block and the two components that it makes one cache entry, the mode that forgets the clauses, the setter that masks, the parser that does not return.

  \<^bold>\<open>Bounds and fuel.\<close> The recursion of the search takes fuel: each level removes a variable of the component, so more
  than \<^verbatim>\<open>nbVar\<close> is enough, and the theorems show that a result is returned. The root search of the union-find has the
  number of its nodes as fuel, which is enough for a forest. The number of variables and clauses fits the header of an entry,
  \<open>4 n + 4 m < 2 ^ 21\<close>; beyond it the code has only assertions. Stamps are 32 bit words; the last value is not
  reached. Counts are in a commutative semiring, so rounding of floating point numbers is not covered.

  \<^bold>\<open>Not modelled.\<close> Vendored code (MiniSat, Glucose, PaToH, flowCutter, bipe) is behind contracts or parameters;
  so are the byte hash and the conversion of number texts. Printing of statistics and graphs, timers and options are left out. The theorems on
  runs use the index representation with all clauses; the clause representation, the default, has its own theorems, as its
  key does not determine the component. The maximising and stochastic searches, the circuit and
  erosion methods, the preprocessors and the partitioners are not modelled.
\<close>

section \<open>Example inputs\<close>

text \<open>The formula (x1 or x2) and (not x1 or x3) over three variables, with weights.\<close>

definition ex_cnf :: cnf where
  "ex_cnf = [[makeLit 1 False, makeLit 2 False], [makeLit 1 True, makeLit 3 False]]"

definition ex_problem :: "nat problem" where
  "ex_problem = \<lparr>m_nbVar = 3, m_weightLit = [1, 1, 1, 1, 1, 1, 1, 1], m_weightVar = [2, 2, 2, 2],
     m_selected = [], m_maxVar = [], m_indVar = [], m_order = [0, 1, 2, 3], m_isUnsat = False,
     m_clauses = ex_cnf\<rparr>"

text \<open>A heuristic over the reference solver: MOM scores, constant phases, no partial order.\<close>

definition ex_heuristic :: "(ref_state, rat) heuristic_env" where
  "ex_heuristic = \<lparr>hv_solver = refSolver 3 ex_cnf, hv_getActivity = \<lambda>s v. 0, hv_getCountConflict = \<lambda>s v. 0,
     hv_getPolarity = \<lambda>s v. False, hv_scoring = SCORE_MOM, hv_phase = PHASE_FALSE, hv_isReversed = False,
     hv_freqDecay = 300, hv_isDecisionVariable = [], hv_limitClause = 0, hv_partialOrder = \<lambda>v. 0,
     hv_scaleFactor = 0\<rparr>"

lemma ex_problem_fields [simp]:
  "m_nbVar ex_problem = 3" "m_clauses ex_problem = ex_cnf" "getNbSelectedVar ex_problem = 0"
  "m_isUnsat ex_problem = False" "m_weightLit ex_problem = replicate 8 1" "m_weightVar ex_problem = replicate 4 2"
  by (simp_all add: ex_problem_def getNbSelectedVar_def numeral_eq_Suc)

lemma ex_cnf_ok: "cnf_ok 3 ex_cnf"
  by (simp add: cnf_ok_def clause_ok_def ex_cnf_def)

lemma ex_weights_ok: "weights_ok ex_problem"
  by (simp add: weights_ok_def)

lemma ex_decVars: "decVars ex_problem \<inter> {1..3} = {1, 2, 3}"
  by (auto simp: decisionSet_def all_decision)

lemma ex_problem_ok: "problem_ok ex_problem"
  using ex_cnf_ok ex_decVars by (simp add: problem_ok_def fits_header_def ex_cnf_def)

lemmas ex_solver = refSolver_contract [OF ex_cnf_ok] ref_start [of 3 ex_cnf]

section \<open>Counting\<close>





text \<open>
  C3. With all weights 1 and no projection, a counting run on a satisfiable or unsatisfiable formula
  returns its number of models: the number of sets of variables that satisfy it.
\<close>

lemma unit_weights:
  assumes "\<forall>i<2 * (m_nbVar p + 1). m_weightLit p ! i = 1" "v \<le> m_nbVar p"
  shows "weight_of p v b = 1"
  using assms by (simp add: weight_of_def intern_def makeLit_eq)

lemma all_decVars: "getNbSelectedVar p = 0 \<Longrightarrow> {1..m_nbVar p} \<subseteq> decVars p"
  by (auto simp: decisionSet_def all_decision)


lemma ex_models: "card {A. A \<subseteq> {1..3} \<and> cnf_holds (\<lambda>v. v \<in> A) ex_cnf} = 4"
proof -
  have "{A. A \<subseteq> {1..3} \<and> cnf_holds (\<lambda>v. v \<in> A) ex_cnf} = {A \<in> Pow {1, 2, 3}. cnf_holds (\<lambda>v. v \<in> A) ex_cnf}"
    by (auto simp: numeral_eq_Suc le_Suc_eq)
  also have "card \<dots> = 4" by code_simp
  finally show ?thesis .
qed



lemma ex_count_ok: "count_ok 3 ex_cnf [2, 3] [makeLit 1 True]"
  by (auto simp: count_ok_def trail_ok_def Contracts.closed_def clause_vars_def sat_by_def rest_sat_def ex_cnf_def
      intro!: exI [of _ "\<lambda>_. False"])


section \<open>The formula under an assignment\<close>



section \<open>Components\<close>

text \<open>
  C9. The search for components partitions the unassigned variables: the free variables are in no
  unsatisfied clause, every unsatisfied clause has its variables in one component, the components are
  disjoint, and the state of the formula manager stays valid.
\<close>

theorem connected_components:
  assumes "dyn_inv n F f stk" "distinct S" "\<forall>v\<in>set S. 1 \<le> v \<and> v \<le> n"
    and "cnf_computeConnectedComponent f S = ((cs, fs), f')"
  shows "dyn_inv n F f' stk \<and> comps_ok F (set (concat stk)) S cs fs"
  by (rule computeConnectedComponent_ok [OF assms])

theorem connected_components_witness:
  "\<exists>cs fs f'. cnf_computeConnectedComponent (initCnfManagerDyn ex_problem False) [1, 2, 3] = ((cs, fs), f')
     \<and> comps_ok ex_cnf {} [1, 2, 3] cs fs"
proof -
  obtain cs fs f' where e: "cnf_computeConnectedComponent (initCnfManagerDyn ex_problem False) [1, 2, 3] = ((cs, fs), f')"
    by (metis prod.exhaust)
  have "dyn_inv 3 ex_cnf (initCnfManagerDyn ex_problem False) []"
    using init_ok [of ex_problem] ex_cnf_ok by simp
  from connected_components [OF this _ _ e] show ?thesis using e by auto
qed

section \<open>Conditioning\<close>

text \<open>
  C2. The formula that \<^verbatim>\<open>getConditionedFormula\<close> returns has the models of the original formula in
  which the given literals hold.
\<close>

theorem conditioned_formula:
  assumes "cnf_ok (m_nbVar p) (m_clauses p)" "\<forall>l\<in>set us. var l \<le> m_nbVar p"
  shows "cnf_holds s (m_clauses (getConditionedFormula us p)) \<longleftrightarrow> lits_hold s us \<and> cnf_holds s (m_clauses p)"
  by (rule getConditionedFormula_sem [OF assms])

theorem conditioned_formula_witness:
  "cnf_holds (\<lambda>_. True) (m_clauses (getConditionedFormula [makeLit 1 False] ex_problem))"
  using conditioned_formula [of ex_problem "[makeLit 1 False]" "\<lambda>_. True"] ex_cnf_ok
  by (simp add: lits_hold_def lit_holds_def cnf_holds_def clause_holds_def ex_cnf_def)

section \<open>From the file to the count\<close>

lemma problemOfParser_fields:
  assumes "pa_nbVars st = int n" "pa_weightLit st = replicate (2 * (n + 1)) 1" "pa_selected st = []"
  shows "m_nbVar (problemOfParser st) = n" "m_clauses (problemOfParser st) = pa_clauses st"
    "m_weightLit (problemOfParser st) = replicate (2 * (n + 1)) 1" "getNbSelectedVar (problemOfParser st) = 0"
    "m_isUnsat (problemOfParser st) = False" "weights_ok (problemOfParser st)"
proof -
  have "weights_ok (problemOfParser st)" unfolding problemOfParser_def
    by (rule weights_ok_initWeights) (simp add: assms del: replicate_Suc)
  then show "m_nbVar (problemOfParser st) = n" "m_clauses (problemOfParser st) = pa_clauses st"
    "m_weightLit (problemOfParser st) = replicate (2 * (n + 1)) 1" "getNbSelectedVar (problemOfParser st) = 0"
    "m_isUnsat (problemOfParser st) = False" "weights_ok (problemOfParser st)"
    using assms by (simp_all add: problemOfParser_def initWeights_def getNbSelectedVar_def del: replicate_Suc)
qed



section \<open>Compiling\<close>






lemma ex_neutral: "neutral_weights ex_problem (decVars ex_problem)"
  by (auto simp: neutral_weights_def decisionSet_def all_decision)


section \<open>The cache\<close>


lemma ex_init: "dyn_inv 3 ex_cnf (initCnfManagerDyn ex_problem False) []"
  using init_ok [of ex_problem] ex_cnf_ok by simp

lemma ex_comp_ctx: "comp_ctx 3 ex_cnf [] [1, 2, 3]"
  by (auto simp: comp_ctx_def Contracts.closed_def active_def clause_vars_def ex_cnf_def sat_by_def)




text \<open>
  C21. In the mode without binary clauses the clause representation forgets every clause: two formulas
  over the same variables get the same entry for a component, whatever their clauses.
\<close>

theorem nb_mode_same_key:
  assumes "dyn_inv n F f stk" "dyn_inv n G g stk'" "\<forall>v\<in>set C. v \<le> n"
    and "bm_modeStore bm = CACHE_NB" "cb_mustUnMark bm = []"
  shows "fst (cl_storeFormula bm f C page) = fst (cl_storeFormula bm g C page)"
  using nb_same_key cm_inv_core assms unfolding dyn_inv_def by blast

abbreviation ex_problem2 :: "nat problem" where
  "ex_problem2 \<equiv> ex_problem\<lparr>m_clauses := [[makeLit 1 False, makeLit 2 False, makeLit 3 False]]\<rparr>"

theorem nb_mode_same_key_witness:
  "let f = initCnfManagerDyn ex_problem False; g = initCnfManagerDyn ex_problem2 False;
       bm = newBucketManagerCl CACHE_NB 64 64 f
   in fst (cl_storeFormula bm f [1, 2, 3] (\<lambda>_. replicate 64 0)) = fst (cl_storeFormula bm g [1, 2, 3] (\<lambda>_. replicate 64 0))
    \<and> card {A. A \<subseteq> {1..3} \<and> cnf_holds (\<lambda>v. v \<in> A) (m_clauses ex_problem)} = 4
    \<and> card {A. A \<subseteq> {1..3} \<and> cnf_holds (\<lambda>v. v \<in> A) (m_clauses ex_problem2)} = 7"
proof -
  let ?f = "initCnfManagerDyn ex_problem False" and ?g = "initCnfManagerDyn ex_problem2 False"
  let ?bm = "newBucketManagerCl CACHE_NB 64 64 ?f"
  have g: "dyn_inv 3 (m_clauses ex_problem2) ?g []"
    using init_ok [of ex_problem2] by (simp add: cnf_ok_def clause_ok_def)
  have bm: "bm_modeStore ?bm = CACHE_NB" "cb_mustUnMark ?bm = []"
    by (simp_all add: newBucketManagerCl_def newBucketManagerCnf_def bucketManagerCnf.defs)
  have "fst (cl_storeFormula ?bm ?f [1, 2, 3] page) = fst (cl_storeFormula ?bm ?g [1, 2, 3] page)" for page
    by (rule nb_mode_same_key [OF ex_init g _ bm]) simp
  moreover have "{A. A \<subseteq> {1..3} \<and> cnf_holds (\<lambda>v. v \<in> A) (m_clauses ex_problem2)}
     = {A \<in> Pow {1, 2, 3}. cnf_holds (\<lambda>v. v \<in> A) [[makeLit 1 False, makeLit 2 False, makeLit 3 False]]}"
    by (auto simp: numeral_eq_Suc le_Suc_eq)
  moreover have "card {A \<in> Pow {1, 2, 3}. cnf_holds (\<lambda>v. v \<in> A) [[makeLit 1 False, makeLit 2 False, makeLit 3 False]]} = 7"
    by code_simp
  ultimately show ?thesis
    using ex_models unfolding Let_def by (simp only: ex_problem_fields simp_thms)
qed

text \<open>
  C19. The distribution of the clause representation: for a component and each storage mode, the clauses that
  it collects are the different sets of literals that the residual clauses of the mode have in the component,
  each once, with their sizes and the positions of each literal; the state is ready for the next component.
\<close>

theorem clause_distribution:
  assumes "dyn_inv n F f stk" "distinct C" "\<forall>v\<in>set C. v \<le> n" "bucket_ok (length F) bm"
  shows "bucket_ok (length F) (collectDistrib f C (initSortBucket bm))
    \<and> (\<exists>es Ss. distinct es \<and> set es = \<Union> (residuals (bm_modeStore bm) F (set (concat stk)) C)
        \<and> collected es (residuals (bm_modeStore bm) F (set (concat stk)) C)
            (cb_inConstruction (collectDistrib f C (initSortBucket bm))) Ss)"
  by (rule distribution_entries) (use assms cm_inv_core in \<open>auto simp: dyn_inv_def\<close>)

theorem clause_distribution_witness:
  "let f = initCnfManagerDyn ex_problem False; bm = newBucketManagerCl CACHE_ALL 64 64 f
   in \<exists>es Ss. distinct es \<and> collected es {set c |c. c \<in> set ex_cnf} (cb_inConstruction (collectDistrib f [1, 2, 3] (initSortBucket bm))) Ss"
proof -
  let ?f = "initCnfManagerDyn ex_problem False"
  let ?bm = "newBucketManagerCl CACHE_ALL 64 64 ?f"
  have mode: "bm_modeStore ?bm = CACHE_ALL"
    by (simp add: newBucketManagerCl_def newBucketManagerCnf_def bucketManagerCnf.defs)
  have "core_ok 3 ex_cnf {} ?f" using ex_init cm_inv_core [of 3 ex_cnf ?f "[]"] by (simp add: dyn_inv_def)
  from new_bucket_ok [OF this] have "bucket_ok (length ex_cnf) ?bm" .
  moreover have "residualOf {} [1, 2, 3] c = set c \<and> set c \<noteq> {}" if "c \<in> set ex_cnf" for c
    using that by (auto simp: residualOf_def ex_cnf_def)
  then have "residuals CACHE_ALL ex_cnf {} [1, 2, 3] = {set c |c. c \<in> set ex_cnf}"
    unfolding residuals_def by (intro Collect_cong ex_cong1) (auto simp: sat_by_def)
  ultimately show ?thesis using clause_distribution [OF ex_init, of "[1, 2, 3]" ?bm] mode by (simp add: Let_def) blast
qed

section \<open>Compiled graphs\<close>

text \<open>
  C12. Counting on a compiled graph under an assumption returns, in one memoised pass, the value of
  the root for the weights in which the literals against the assumption weigh zero.
\<close>

theorem graph_count_under:
  assumes "nm_ok (m_nbVar p) nm" "stamps_old (m_globalStamp nm) (m_nodes nm)" "m_globalStamp nm < - 1"
    and "u < length (m_nodes nm)" "weights_ok p" "neutral_weights p P"
    and "distinct (map var as)" "var ` set as \<subseteq> P"
  shows "\<exists>nm'. dnnf_count_under p nm u as = Some (nmValues (cond_weight as (weight_of p)) P nm ! u, nm')
    \<and> same_graph (m_nodes nm) (m_nodes nm') \<and> stamps_old (m_globalStamp nm') (m_nodes nm')"
  using dnnf_count_under_value [OF assms] by blast

abbreviation ex_nm :: "nat nodeManager" where
  "ex_nm \<equiv> \<lparr>m_width = 8, m_nodes = [TrueNode 0 0, FalseNode 0 0,
       UnaryNode 0 0 \<lparr>br_d = 0, nbUnits = 1, nbFree = 1\<rparr> [2, 3]], m_blocks = [(0, 0, 16), (0, 16, 16), (0, 32, 34)],
     m_memoryPages = 1, m_posInMemoryPage = 66, m_globalStamp = 0\<rparr>"

theorem graph_count_under_witness:
  "snd (makeUnaryNode (\<lambda>t. if t = TypeUnaryNode then 32 else 16)
      \<lparr>d = 0, unitLits = [makeLit 1 False], freeVars = [3]\<rparr>
      (makeNodeManager (\<lambda>t. if t = TypeUnaryNode then 32 else 16) 4)) = ex_nm
   \<and> (\<exists>nm'. dnnf_count_under ex_problem ex_nm 2 [makeLit 1 False] = Some (2, nm'))"
proof
  show "snd (makeUnaryNode (\<lambda>t. if t = TypeUnaryNode then 32 else 16)
      \<lparr>d = 0, unitLits = [makeLit 1 False], freeVars = [3]\<rparr>
      (makeNodeManager (\<lambda>t. if t = TypeUnaryNode then 32 else 16) 4)) = ex_nm"
    by (simp add: makeUnaryNode_def newNode_def getMemory_def makeNodeManager_def nodeWidth_def nodeManagerTyped_def
        PAGE_SIZE_def branchOf_def branchData_def toU_def sumFreeUnit_def intern_def makeLit_eq)
  have "nm_ok 3 ex_nm" by (simp add: nm_ok_def heap_ok_def All_less_Suc data_fits_def)
  moreover have "stamps_old 0 (m_nodes ex_nm)" by (simp add: stamps_old_def)
  moreover have "(0::32 word) < - 1" by (simp add: word_neq_0_conv [symmetric])
  moreover have "neutral_weights ex_problem {1, 2, 3}" by (auto simp: neutral_weights_def)
  moreover have "nmValues (cond_weight [makeLit 1 False] (weight_of ex_problem)) {1, 2, 3} ex_nm ! 2 = 2"
    by code_simp
  ultimately show "\<exists>nm'. dnnf_count_under ex_problem ex_nm 2 [makeLit 1 False] = Some (2, nm')"
    using graph_count_under [of ex_problem ex_nm 2 "{1, 2, 3}" "[makeLit 1 False]"] ex_weights_ok by auto
qed

section \<open>Compiling and counting agree\<close>



end
